theory Spec2Isabelle
  imports Main "HOL-Library.Word"
begin

unbundle bit_operations_syntax

section \<open>Faults\<close>

text \<open>
  Every way in which the C++ code stops without a result is a value of \<open>fault\<close>:
  the exception it throws (\<open>InternalException\<close>), a failed \<open>D_ASSERT\<close>, and the
  undefined behaviour of C++ that the embedding makes explicit (dereferencing a null
  pointer, indexing an array outside its allocation, reading through a pointer to memory
  that is not there any more, shifting a word by its width or more).
\<close>

datatype fault =
    InternalException string
  | AssertionFailed
  | NullPointer
  | OutOfBounds
  | DanglingPointer
  | ShiftTooWide

section \<open>Validity masks (validity_mask.cpp)\<close>

subsection \<open>Memory\<close>

text \<open>
  A validity mask holds a raw pointer \<open>validity_mask\<close> to an array of \<open>validity_t\<close>
  words and a shared pointer \<open>validity_data\<close> to the \<open>ValidityData\<close> object that owns
  the array. Several masks may hold the same pointers, and two of the claims are about
  exactly that, so arrays and owner objects live in an explicit heap: an address is an
  index into the list of allocated objects, allocation appends to the list. The
  reference counts of \<open>shared_ptr\<close> are not modelled, so an owner object is never
  destroyed. An array that its owner releases (\<open>delete[]\<close>, when the \<open>unique_ptr\<close>
  of the owner is assigned to) keeps its address, which is not used again, and has no
  word left: every read or write through a pointer that still holds the address is a
  fault.

  The header validity_mask.hpp is not among the sources. The word type \<open>validity_t\<close>
  is therefore a parameter: any word length \<open>'w\<close>, with \<open>BITS_PER_VALUE\<close> its width.
\<close>

record (overloaded) 'w heap =
  arrays :: "'w word list list"
  buffers :: "nat list"

record ValidityMask =
  validity_mask :: "nat option"
  validity_data :: "nat option"

definition BITS_PER_VALUE :: "'w::len itself \<Rightarrow> nat" where
  "BITS_PER_VALUE _ = LENGTH('w)"

definition MAX_ENTRY :: "'w::len word" where
  "MAX_ENTRY = NOT 0"

text \<open>
  Modelled from the spec: \<open>EntryCount\<close>, the number of words that hold \<open>count\<close> bits
  (one bit per row); the header that defines it is missing.
\<close>

definition EntryCount :: "'w::len itself \<Rightarrow> nat \<Rightarrow> nat" where
  "EntryCount w count = (count + (BITS_PER_VALUE w - 1)) div BITS_PER_VALUE w"

definition load :: "'w::len heap \<Rightarrow> nat \<Rightarrow> nat \<Rightarrow> fault + 'w word" where
  "load h a i =
     (if a < length (arrays h) \<and> i < length (arrays h ! a)
      then Inr (arrays h ! a ! i) else Inl OutOfBounds)"

definition store :: "'w::len heap \<Rightarrow> nat \<Rightarrow> nat \<Rightarrow> 'w word \<Rightarrow> fault + 'w heap" where
  "store h a i v =
     (if a < length (arrays h) \<and> i < length (arrays h ! a)
      then Inr (h\<lparr>arrays := (arrays h)[a := (arrays h ! a)[i := v]]\<rparr>)
      else Inl OutOfBounds)"

text \<open>\<open>new validity_t[n]\<close>: a fresh array; its address is returned with the new heap.\<close>

definition new_array :: "'w::len heap \<Rightarrow> 'w word list \<Rightarrow> 'w heap \<times> nat" where
  "new_array h xs = (h\<lparr>arrays := arrays h @ [xs]\<rparr>, length (arrays h))"

text \<open>\<open>delete[]\<close> of the array at an address.\<close>

definition delete_array :: "'w::len heap \<Rightarrow> nat \<Rightarrow> 'w heap" where
  "delete_array h a = h\<lparr>arrays := (arrays h)[a := []]\<rparr>"

text \<open>
  \<open>ValidityData::ValidityData(idx_t count)\<close>: allocates \<open>EntryCount(count)\<close> words and
  sets every one of them to \<open>MAX_ENTRY\<close>. Returns the address of the owner object.
\<close>

definition ValidityData :: "'w::len heap \<Rightarrow> nat \<Rightarrow> 'w heap \<times> nat" where
  "ValidityData h count =
     (let entry_count = EntryCount TYPE('w) count;
          (h1, owned_data) = new_array h (replicate entry_count MAX_ENTRY)
      in (h1\<lparr>buffers := buffers h1 @ [owned_data]\<rparr>, length (buffers h1)))"

subsection \<open>The inline members of the header\<close>

text \<open>
  Modelled from the spec: the members of \<open>ValidityMask\<close> that validity_mask.cpp calls and
  that live in the missing header. A mask with no array is the all-valid sentinel; a row
  is valid iff its bit is set, row \<open>r\<close> being bit \<open>r mod BITS_PER_VALUE\<close> (counted from
  the least significant bit, which is what makes slicing a right shift) of word
  \<open>r div BITS_PER_VALUE\<close>; \<open>Initialize(other)\<close> shares the other mask's array;
  \<open>Initialize(count)\<close> makes a fresh all-valid array.
\<close>

definition AllValid :: "ValidityMask \<Rightarrow> bool" where
  "AllValid m = (validity_mask m = None)"


definition Initialize_other :: "ValidityMask \<Rightarrow> ValidityMask" where
  "Initialize_other other = \<lparr>validity_mask = validity_mask other, validity_data = validity_data other\<rparr>"

definition Initialize_count :: "'w::len heap \<Rightarrow> nat \<Rightarrow> 'w heap \<times> ValidityMask" where
  "Initialize_count h count =
     (let (h1, b) = ValidityData h count
      in (h1, \<lparr>validity_mask = Some (buffers h1 ! b), validity_data = Some b\<rparr>))"

definition RowIsValid :: "'w::len heap \<Rightarrow> ValidityMask \<Rightarrow> nat \<Rightarrow> fault + bool" where
  "RowIsValid h m row_idx =
     (case validity_mask m of
        None \<Rightarrow> Inr True
      | Some a \<Rightarrow>
          (case load h a (row_idx div BITS_PER_VALUE TYPE('w)) of
             Inl e \<Rightarrow> Inl e
           | Inr entry \<Rightarrow> Inr (bit entry (row_idx mod BITS_PER_VALUE TYPE('w)))))"

subsection \<open>ValidityMask::Combine\<close>




subsection \<open>ValidityMask::Resize\<close>

function Resize_copy :: "'w::len heap \<Rightarrow> nat \<Rightarrow> nat \<Rightarrow> nat \<Rightarrow> nat \<Rightarrow> fault + 'w heap" where
  "Resize_copy h new_owned_data vm entry_idx old_size_count =
     (if entry_idx < old_size_count then
        (case load h vm entry_idx of
           Inl e \<Rightarrow> Inl e
         | Inr x \<Rightarrow>
        (case store h new_owned_data entry_idx x of
           Inl e \<Rightarrow> Inl e
         | Inr h' \<Rightarrow> Resize_copy h' new_owned_data vm (Suc entry_idx) old_size_count))
      else Inr h)"
  by pat_completeness auto
termination
  by (relation "measure (\<lambda>(h, nd, vm, i, n). n - i)") auto

declare Resize_copy.simps [simp del]

function Resize_fill :: "'w::len heap \<Rightarrow> nat \<Rightarrow> nat \<Rightarrow> nat \<Rightarrow> fault + 'w heap" where
  "Resize_fill h new_owned_data entry_idx new_size_count =
     (if entry_idx < new_size_count then
        (case store h new_owned_data entry_idx MAX_ENTRY of
           Inl e \<Rightarrow> Inl e
         | Inr h' \<Rightarrow> Resize_fill h' new_owned_data (Suc entry_idx) new_size_count)
      else Inr h)"
  by pat_completeness auto
termination
  by (relation "measure (\<lambda>(h, nd, i, n). n - i)") auto

declare Resize_fill.simps [simp del]

text \<open>
  \<open>Resize(old_size, new_size)\<close>. The words of \<open>new validity_t[new_size_count]\<close> are
  indeterminate in C++; the model starts them at 0. Both loops together write every word
  of the new array before it is read whenever the function returns. The assignment
  \<open>validity_data->owned_data = move(new_owned_data)\<close> releases the array that the owner
  object held until then, and the owner object is shared by every mask that was
  initialized from this one.
\<close>

definition Resize ::
  "'w::len heap \<Rightarrow> ValidityMask \<Rightarrow> nat \<Rightarrow> nat \<Rightarrow> fault + ('w heap \<times> ValidityMask)" where
  "Resize h self old_size new_size =
     (case validity_mask self of
        None \<Rightarrow> Inr (h, self)
      | Some vm \<Rightarrow>
          (let new_size_count = EntryCount TYPE('w) new_size;
               old_size_count = EntryCount TYPE('w) old_size;
               (h1, new_owned_data) = new_array h (replicate new_size_count 0)
           in case Resize_copy h1 new_owned_data vm 0 old_size_count of
                Inl e \<Rightarrow> Inl e
              | Inr h2 \<Rightarrow>
             (case Resize_fill h2 new_owned_data old_size_count new_size_count of
                Inl e \<Rightarrow> Inl e
              | Inr h3 \<Rightarrow>
             (case validity_data self of
                None \<Rightarrow> Inl NullPointer
              | Some b \<Rightarrow>
                  if b < length (buffers h3)
                  then Inr ((delete_array h3 (buffers h3 ! b))
                               \<lparr>buffers := (buffers h3)[b := new_owned_data]\<rparr>,
                            self\<lparr>validity_mask := Some new_owned_data\<rparr>)
                  else Inl NullPointer))))"

subsection \<open>ValidityMask::Slice\<close>

text \<open>
  \<open>STANDARD_VECTOR_SIZE\<close> is a compile-time constant of a header that is not among the
  sources; it is the parameter \<open>svs\<close> of every function that uses it.
  \<open>STANDARD_ENTRY_COUNT\<close> is the number of words of a mask of that many rows.
\<close>

definition STANDARD_ENTRY_COUNT :: "'w::len itself \<Rightarrow> nat \<Rightarrow> nat" where
  "STANDARD_ENTRY_COUNT w svs = (svs + (BITS_PER_VALUE w - 1)) div BITS_PER_VALUE w"

function Slice_units ::
  "'w::len heap \<Rightarrow> nat \<Rightarrow> nat \<Rightarrow> nat \<Rightarrow> nat \<Rightarrow> nat \<Rightarrow> fault + 'w heap" where
  "Slice_units h vm other_vm entire_units validity_idx sec =
     (if validity_idx + entire_units < sec then
        (case load h other_vm (validity_idx + entire_units) of
           Inl e \<Rightarrow> Inl e
         | Inr x \<Rightarrow>
        (case store h vm validity_idx x of
           Inl e \<Rightarrow> Inl e
         | Inr h' \<Rightarrow> Slice_units h' vm other_vm entire_units (Suc validity_idx) sec))
      else Inr h)"
  by pat_completeness auto
termination
  by (relation "measure (\<lambda>(h, vm, ovm, eu, i, n). n - (i + eu))") auto

declare Slice_units.simps [simp del]

text \<open>
  The second loop; it returns the heap together with the value of \<open>validity_idx\<close> on
  exit, which the statement after the loop uses.
\<close>

function Slice_sub ::
  "'w::len heap \<Rightarrow> nat \<Rightarrow> nat \<Rightarrow> nat \<Rightarrow> nat \<Rightarrow> nat \<Rightarrow> fault + ('w heap \<times> nat)" where
  "Slice_sub h vm other_vm sub_units validity_idx sec =
     (if validity_idx + 1 < sec then
        (case load h other_vm validity_idx of
           Inl e \<Rightarrow> Inl e
         | Inr x \<Rightarrow>
        (case load h other_vm (validity_idx + 1) of
           Inl e \<Rightarrow> Inl e
         | Inr y \<Rightarrow>
        (case store h vm validity_idx
                (drop_bit sub_units x OR push_bit (BITS_PER_VALUE TYPE('w) - sub_units) y) of
           Inl e \<Rightarrow> Inl e
         | Inr h' \<Rightarrow> Slice_sub h' vm other_vm sub_units (Suc validity_idx) sec)))
      else Inr (h, validity_idx))"
  by pat_completeness auto
termination
  by (relation "measure (\<lambda>(h, vm, ovm, su, i, n). n - (i + 1))") auto

declare Slice_sub.simps [simp del]

text \<open>
  \<open>Slice(other, offset)\<close> on the mask \<open>self\<close>. The source computes
  \<open>sub_units = offset - entire_units % BITS_PER_VALUE\<close>, and \<open>%\<close> binds tighter than
  \<open>-\<close>. A shift of a word by its width or more is undefined in C++: the model faults
  with \<open>ShiftTooWide\<close> before the second loop when \<open>sub_units\<close> is that large.
\<close>

definition Slice ::
  "nat \<Rightarrow> 'w::len heap \<Rightarrow> ValidityMask \<Rightarrow> ValidityMask \<Rightarrow> nat \<Rightarrow> fault + ('w heap \<times> ValidityMask)" where
  "Slice svs h self other offset =
     (if AllValid other then Inr (h, \<lparr>validity_mask = None, validity_data = None\<rparr>)
      else if offset = 0 then Inr (h, Initialize_other other)
      else
        (case Initialize_count h svs of
           (h1, self1) \<Rightarrow>
        (case (validity_mask self1, validity_mask other) of
           (Some vm, Some other_vm) \<Rightarrow>
             (let sec = STANDARD_ENTRY_COUNT TYPE('w) svs;
                  entire_units = offset div BITS_PER_VALUE TYPE('w);
                  sub_units = offset - entire_units mod BITS_PER_VALUE TYPE('w)
              in case (if entire_units > 0
                       then Slice_units h1 vm other_vm entire_units 0 sec else Inr h1) of
                   Inl e \<Rightarrow> Inl e
                 | Inr h2 \<Rightarrow>
                     if sub_units > 0 then
                       (if sub_units \<ge> BITS_PER_VALUE TYPE('w) then Inl ShiftTooWide
                        else
                          (case Slice_sub h2 vm other_vm sub_units 0 sec of
                             Inl e \<Rightarrow> Inl e
                           | Inr (h3, validity_idx) \<Rightarrow>
                          (case load h3 vm validity_idx of
                             Inl e \<Rightarrow> Inl e
                           | Inr x \<Rightarrow>
                          (case store h3 vm validity_idx (drop_bit sub_units x) of
                             Inl e \<Rightarrow> Inl e
                           | Inr h4 \<Rightarrow> Inr (h4, self1)))))
                     else Inr (h2, self1))
         | _ \<Rightarrow> Inl NullPointer)))"

subsection \<open>Well-formed masks\<close>



definition owns :: "'w::len heap \<Rightarrow> ValidityMask \<Rightarrow> nat \<Rightarrow> bool" where
  "owns h m count =
     (case validity_mask m of
        None \<Rightarrow> True
      | Some a \<Rightarrow> a < length (arrays h) \<and> EntryCount TYPE('w) count \<le> length (arrays h ! a) \<and>
          (case validity_data m of
             None \<Rightarrow> False
           | Some b \<Rightarrow> b < length (buffers h) \<and> buffers h ! b = a))"

subsection \<open>Concrete masks\<close>




text \<open>A mask of one 64-bit word in which only row 1 is invalid.\<close>

definition rz_heap :: "64 heap" where
  "rz_heap = \<lparr>arrays = [[NOT 2]], buffers = [0]\<rparr>"

definition rz_mask :: ValidityMask where
  "rz_mask = \<lparr>validity_mask = Some 0, validity_data = Some 0\<rparr>"

text \<open>
  A mask of 2048 rows (32 words of 64 bits) in which only row 64 is invalid, and the
  empty mask that \<open>Slice\<close> is called on.
\<close>

definition slice_heap :: "64 heap" where
  "slice_heap = \<lparr>arrays = [(replicate 32 MAX_ENTRY)[1 := NOT 1]], buffers = [0]\<rparr>"

definition slice_other :: ValidityMask where
  "slice_other = \<lparr>validity_mask = Some 0, validity_data = Some 0\<rparr>"

definition slice_self :: ValidityMask where
  "slice_self = \<lparr>validity_mask = None, validity_data = None\<rparr>"

section \<open>The column data collection (column_data_collection.cpp)\<close>

subsection \<open>Results\<close>

text \<open>
  A function of this part returns \<open>Some (Inr x)\<close> when the C++ function returns \<open>x\<close>,
  \<open>Some (Inl e)\<close> when it stops with the fault \<open>e\<close>, and \<open>None\<close> when it does not
  return at all (two of its loops have no bound that is visible in the code).
\<close>

type_synonym 'a result = "(fault + 'a) option"

text \<open>
  \<open>D_ASSERT\<close> is a macro of a header that is not among the sources. Whether it checks
  anything depends on the build (the same file guards \<open>Verify\<close> with \<open>#ifdef DEBUG\<close>),
  so the build mode is the parameter \<open>dbg\<close>: with assertions compiled in, a false
  condition is a fault; compiled out, the condition is not even evaluated.
\<close>

definition D_ASSERT :: "bool \<Rightarrow> bool \<Rightarrow> fault + unit" where
  "D_ASSERT dbg cond = (if dbg \<and> \<not> cond then Inl AssertionFailed else Inr ())"

text \<open>
  \<open>idx_t\<close> is an unsigned 64-bit integer. Counts are natural numbers here (no collection
  holds \<open>2^64\<close> rows), but the two subtractions \<open>STANDARD_VECTOR_SIZE - count\<close> would wrap
  around in C++ where \<open>nat\<close> subtraction stops at 0, so they go through \<open>idx_sub\<close>.
\<close>

definition IDX_RANGE :: nat where
  "IDX_RANGE = 2 ^ 64"

declare IDX_RANGE_def [code del]

definition idx_sub :: "nat \<Rightarrow> nat \<Rightarrow> nat" where
  "idx_sub a b = (if b \<le> a then a - b else a + IDX_RANGE - b)"

definition INVALID_INDEX :: nat where
  "INVALID_INDEX = IDX_RANGE - 1"

subsection \<open>Types and values\<close>

text \<open>
  The physical types that the switch of \<open>GetCopyFunction\<close> names, and \<open>OTHER\<close> for
  every physical type it does not name. A logical type is a scalar of some physical type,
  a struct of child types (the field names play no role in this file) or a list of a
  child type.
\<close>

datatype PhysicalType =
    BOOL | INT8 | INT16 | INT32 | INT64 | INT128 | UINT8 | UINT16 | UINT32 | UINT64
  | FLOAT | DOUBLE | INTERVAL | VARCHAR | OTHER

datatype LogicalType =
    Scalar PhysicalType
  | STRUCT "LogicalType list"
  | LIST LogicalType

text \<open>
  What one slot of a column holds: nothing yet (memory that was allocated and never
  written), the raw value of a fixed-width type (copied verbatim, so one constructor
  serves all of them), a \<open>string_t\<close>, or a \<open>list_entry_t\<close> (offset and length).

  Modelled from the spec: a \<open>string_t\<close> holds the bytes of a short string inside the
  slot (\<open>Inlined\<close>) and a pointer to the bytes of a long one; where the one ends and
  the other begins is a policy of the heap. A pointer into the heap of a segment is the
  position of the blob in the heap (\<open>InHeap\<close>). A pointer to memory that is not the
  segment's, such as the string buffer of an input vector, is given by the bytes that it
  points to as long as that memory lives (\<open>External\<close>): the collection can read them
  while it appends the input, and not when it is scanned.
\<close>

datatype string_t = Inlined string | External string | InHeap nat

fun IsInlined :: "string_t \<Rightarrow> bool" where
  "IsInlined (Inlined s) = True"
| "IsInlined (External s) = False"
| "IsInlined (InHeap i) = False"

text \<open>The bytes of a string, read while the memory of the input lives.\<close>

fun GetString :: "string list \<Rightarrow> string_t \<Rightarrow> fault + string" where
  "GetString blobs (Inlined s) = Inr s"
| "GetString blobs (External s) = Inr s"
| "GetString blobs (InHeap i) = (if i < length blobs then Inr (blobs ! i) else Inl DanglingPointer)"

datatype cell = Uninit | Fixed int | String string_t | ListEntry nat nat

subsection \<open>The vector layer\<close>

text \<open>
  Vectors belong to the execution engine. The copy code needs of a vector only what the
  flattening operation \<open>Orrify\<close> yields (a selection, a dense array of values and a
  validity mask), its type, its child vectors (\<open>ListVector::GetEntry\<close>,
  \<open>StructVector::GetEntries\<close>) and the number of elements of a list vector's child
  (\<open>ListVector::GetListSize\<close>). The selection and the array are total functions: the
  engine guarantees that they can be read at every row the collection asks for.
  \<open>validity = None\<close> is the all-valid mask.
\<close>

record VectorData =
  sel :: "nat \<Rightarrow> nat"
  data :: "nat \<Rightarrow> cell"
  validity :: "(nat \<Rightarrow> bool) option"

datatype Vector =
  Vector (GetType: LogicalType) (Orrify: VectorData) (GetEntries: "Vector list") (GetListSize: nat)

record DataChunk =
  chunk_vectors :: "Vector list"
  chunk_size :: nat

definition GetTypes :: "DataChunk \<Rightarrow> LogicalType list" where
  "GetTypes input = map GetType (chunk_vectors input)"

definition validity_AllValid :: "VectorData \<Rightarrow> bool" where
  "validity_AllValid source_data = (validity source_data = None)"

definition validity_RowIsValid :: "VectorData \<Rightarrow> nat \<Rightarrow> bool" where
  "validity_RowIsValid source_data idx =
     (case validity source_data of None \<Rightarrow> True | Some f \<Rightarrow> f idx)"

definition GetChildTypes :: "LogicalType \<Rightarrow> LogicalType list" where
  "GetChildTypes t = (case t of STRUCT child_types \<Rightarrow> child_types | _ \<Rightarrow> [])"

text \<open>
  Row \<open>i\<close> of a vector is the entry \<open>sel i\<close> of what it is a view of: its validity
  and its value are read at \<open>sel i\<close>, and so are the fields of a struct, whose child
  vectors (\<open>StructVector::GetEntries\<close> looks through a dictionary or constant vector)
  are not sliced by the selection of the struct vector. The child vector of a list is
  indexed by the list entries.

  Modelled from the spec: \<open>Normalify\<close> rewrites a vector into its flat representation
  and leaves its rows as they are. A flat vector has the identity selection, the children
  of a flat struct vector are the flat vectors of its fields, row by row, and the child
  of a flat list vector is flat. \<open>flatten v s\<close> is the flat vector of the rows
  \<open>s 0, s 1, \<dots>\<close> of \<open>v\<close>.
\<close>

primrec flatten :: "Vector \<Rightarrow> (nat \<Rightarrow> nat) \<Rightarrow> Vector" where
  "flatten (Vector type vd children list_size) =
     (\<lambda>s. Vector type
            \<lparr>sel = (\<lambda>i. i), data = (\<lambda>i. data vd (sel vd (s i))),
             validity = (case validity vd of
                           None \<Rightarrow> None
                         | Some f \<Rightarrow> Some (\<lambda>i. f (sel vd (s i))))\<rparr>
            (case type of
               STRUCT child_types \<Rightarrow>
                 map (\<lambda>flat_child. flat_child (\<lambda>i. sel vd (s i))) (map flatten children)
             | _ \<Rightarrow> map (\<lambda>flat_child. flat_child (\<lambda>i. i)) (map flatten children))
            list_size)"

definition Normalify :: "Vector \<Rightarrow> nat \<Rightarrow> Vector" where
  "Normalify v count = flatten v (\<lambda>i. i)"

subsection \<open>Segments\<close>

text \<open>
  Modelled from the spec: the segment (column_data_collection_segment.cpp is not among
  the sources). A segment owns its chunks, a growable pool of vector metadata, the array
  of child indices and a heap for strings. An index is a position in the pool. The
  memory that a descriptor addresses through \<open>block_id\<close> and \<open>offset\<close> is kept in the
  descriptor itself: \<open>vdata\<close>, the \<open>STANDARD_VECTOR_SIZE\<close> slots, and \<open>vvalidity\<close>,
  one validity bit per slot. Freshly allocated memory is indeterminate in C++; here its
  slots are \<open>Uninit\<close> and its bits \<open>False\<close>.
  The field_rows \<open>count\<close> of the three classes are \<open>vcount\<close>, \<open>chunk_count\<close> and
  \<open>seg_count\<close>; \<open>vector_data\<close> of a chunk is \<open>chunk_vector_data\<close>.
\<close>

record VectorMetaData =
  vcount :: nat
  child_index :: "nat option"
  next_data :: "nat option"
  vdata :: "cell list"
  vvalidity :: "bool list"

record ChunkMetaData =
  chunk_vector_data :: "nat list"
  chunk_count :: nat

record ColumnDataCollectionSegment =
  seg_types :: "LogicalType list"
  seg_count :: nat
  chunk_data :: "ChunkMetaData list"
  vector_data :: "VectorMetaData list"
  child_indices :: "nat option list"
  heap :: "string list"

definition new_segment :: "LogicalType list \<Rightarrow> ColumnDataCollectionSegment" where
  "new_segment types_p =
     \<lparr>seg_types = types_p, seg_count = 0, chunk_data = [], vector_data = [],
      child_indices = [], heap = []\<rparr>"

definition GetVectorData :: "ColumnDataCollectionSegment \<Rightarrow> nat \<Rightarrow> fault + VectorMetaData" where
  "GetVectorData segment index =
     (if index < length (vector_data segment) then Inr (vector_data segment ! index)
      else Inl OutOfBounds)"

definition SetVectorData ::
  "ColumnDataCollectionSegment \<Rightarrow> nat \<Rightarrow> VectorMetaData \<Rightarrow> ColumnDataCollectionSegment" where
  "SetVectorData segment index v = segment\<lparr>vector_data := (vector_data segment)[index := v]\<rparr>"

definition AllocateVector ::
  "nat \<Rightarrow> LogicalType \<Rightarrow> ColumnDataCollectionSegment \<Rightarrow> ColumnDataCollectionSegment \<times> nat" where
  "AllocateVector svs type segment =
     (segment\<lparr>vector_data := vector_data segment @
        [\<lparr>vcount = 0, child_index = None, next_data = None,
          vdata = replicate svs Uninit, vvalidity = replicate svs False\<rparr>]\<rparr>,
      length (vector_data segment))"

fun AllocateVectors ::
  "nat \<Rightarrow> LogicalType list \<Rightarrow> ColumnDataCollectionSegment \<Rightarrow> ColumnDataCollectionSegment \<times> nat list" where
  "AllocateVectors svs [] segment = (segment, [])"
| "AllocateVectors svs (t # ts) segment =
     (let (segment1, vector_idx) = AllocateVector svs t segment;
          (segment2, rest) = AllocateVectors svs ts segment1
      in (segment2, vector_idx # rest))"

definition AllocateNewChunk :: "nat \<Rightarrow> ColumnDataCollectionSegment \<Rightarrow> ColumnDataCollectionSegment" where
  "AllocateNewChunk svs segment =
     (let (segment1, idxs) = AllocateVectors svs (seg_types segment) segment
      in segment1\<lparr>chunk_data := chunk_data segment1 @
            [\<lparr>chunk_vector_data = idxs, chunk_count = 0\<rparr>]\<rparr>)"

definition AddChildIndex ::
  "ColumnDataCollectionSegment \<Rightarrow> nat \<Rightarrow> ColumnDataCollectionSegment \<times> nat" where
  "AddChildIndex segment index =
     (segment\<lparr>child_indices := child_indices segment @ [Some index]\<rparr>,
      length (child_indices segment))"

definition ReserveChildren ::
  "ColumnDataCollectionSegment \<Rightarrow> nat \<Rightarrow> ColumnDataCollectionSegment \<times> nat" where
  "ReserveChildren segment child_count =
     (segment\<lparr>child_indices := child_indices segment @ replicate child_count None\<rparr>,
      length (child_indices segment))"

definition SetChildIndex ::
  "ColumnDataCollectionSegment \<Rightarrow> nat \<Rightarrow> nat \<Rightarrow> nat \<Rightarrow> fault + ColumnDataCollectionSegment" where
  "SetChildIndex segment base_idx child_number index =
     (if base_idx + child_number < length (child_indices segment)
      then Inr (segment\<lparr>child_indices :=
                  (child_indices segment)[base_idx + child_number := Some index]\<rparr>)
      else Inl OutOfBounds)"

definition GetChildIndex :: "ColumnDataCollectionSegment \<Rightarrow> nat \<Rightarrow> nat \<Rightarrow> fault + nat" where
  "GetChildIndex segment index child_entry =
     (if index + child_entry < length (child_indices segment)
      then (case child_indices segment ! (index + child_entry) of
              None \<Rightarrow> Inl OutOfBounds
            | Some i \<Rightarrow> Inr i)
      else Inl OutOfBounds)"

text \<open>
  Modelled from the spec: \<open>heap.AddBlob\<close> copies the bytes of the string to the end of
  the heap and returns the \<open>string_t\<close> that points to the copy.
\<close>

definition AddBlob ::
  "ColumnDataCollectionSegment \<Rightarrow> string_t \<Rightarrow> fault + (ColumnDataCollectionSegment \<times> string_t)" where
  "AddBlob segment input =
     (case GetString (heap segment) input of
        Inl e \<Rightarrow> Inl e
      | Inr bytes \<Rightarrow>
          Inr (segment\<lparr>heap := heap segment @ [bytes]\<rparr>, InHeap (length (heap segment))))"

text \<open>Modelled from the spec: the two mutators of a mask over raw validity bits.\<close>

definition SetAllValid :: "bool list \<Rightarrow> nat \<Rightarrow> fault + bool list" where
  "SetAllValid vmask count =
     (if count \<le> length vmask then Inr (replicate count True @ drop count vmask)
      else Inl OutOfBounds)"

definition SetInvalid :: "bool list \<Rightarrow> nat \<Rightarrow> fault + bool list" where
  "SetInvalid vmask row_idx =
     (if row_idx < length vmask then Inr (vmask[row_idx := False]) else Inl OutOfBounds)"

subsection \<open>Loops with a bound\<close>

function for_loop :: "nat \<Rightarrow> nat \<Rightarrow> (nat \<Rightarrow> 's \<Rightarrow> fault + 's) \<Rightarrow> 's \<Rightarrow> fault + 's" where
  "for_loop i n body s =
     (if i < n then (case body i s of Inl e \<Rightarrow> Inl e | Inr s' \<Rightarrow> for_loop (Suc i) n body s')
      else Inr s)"
  by pat_completeness auto
termination
  by (relation "measure (\<lambda>(i, n, body, s). n - i)") auto

declare for_loop.simps [simp del]

function for_loop_r :: "nat \<Rightarrow> nat \<Rightarrow> (nat \<Rightarrow> 's \<Rightarrow> 's result) \<Rightarrow> 's \<Rightarrow> 's result" where
  "for_loop_r i n body s =
     (if i < n then
        (case body i s of
           None \<Rightarrow> None
         | Some (Inl e) \<Rightarrow> Some (Inl e)
         | Some (Inr s') \<Rightarrow> for_loop_r (Suc i) n body s')
      else Some (Inr s))"
  by pat_completeness auto
termination
  by (relation "measure (\<lambda>(i, n, body, s). n - i)") auto

declare for_loop_r.simps [simp del]

subsection \<open>The copy functions\<close>

datatype copy_kind = CopyStandard | CopyString | CopyList | CopyStruct

text \<open>
  \<open>ColumnDataCopyFunction\<close>: the function pointer is the tag of the function it points
  to (\<open>function\<close> is a keyword of Isabelle, the field is \<open>function_kind\<close>).
\<close>

datatype ColumnDataCopyFunction =
  ColumnDataCopyFunction (function_kind: copy_kind) (child_functions: "ColumnDataCopyFunction list")

text \<open>
  \<open>ColumnDataMetaData\<close>. Its references to the segment, the append state and the chunk
  are the explicit segment argument of the copy functions; its copy function is their
  first argument.
\<close>

record ColumnDataMetaData =
  vector_data_index :: nat
  child_list_size :: nat

definition child_meta_data :: "nat \<Rightarrow> ColumnDataMetaData" where
  "child_meta_data index = \<lparr>vector_data_index = index, child_list_size = INVALID_INDEX\<rparr>"

type_synonym column_data_copy_function_t =
  "ColumnDataMetaData \<Rightarrow> VectorData \<Rightarrow> Vector \<Rightarrow> nat \<Rightarrow> nat \<Rightarrow>
   ColumnDataCollectionSegment \<Rightarrow> ColumnDataCollectionSegment result"

definition ColumnDataCopyValidity ::
  "nat \<Rightarrow> VectorData \<Rightarrow> bool list \<Rightarrow> nat \<Rightarrow> nat \<Rightarrow> nat \<Rightarrow> fault + bool list" where
  "ColumnDataCopyValidity svs source_data target source_offset target_offset copy_count =
     (case (if target_offset = 0 then SetAllValid target svs else Inr target) of
        Inl e \<Rightarrow> Inl e
      | Inr vmask \<Rightarrow>
          if \<not> validity_AllValid source_data then
            for_loop 0 copy_count
              (\<lambda>i vmask.
                 let idx = sel source_data (source_offset + i)
                 in if \<not> validity_RowIsValid source_data idx
                    then SetInvalid vmask (target_offset + i) else Inr vmask)
              vmask
          else Inr vmask)"

text \<open>
  The three value operations. Each returns the segment as well: only the string copy
  changes it, and only the string copy can fail, when it reads the bytes of its input.
\<close>

type_synonym value_copy_t =
  "ColumnDataMetaData \<Rightarrow> ColumnDataCollectionSegment \<Rightarrow> cell \<Rightarrow>
   fault + (ColumnDataCollectionSegment \<times> cell)"

definition StandardValueCopy :: value_copy_t where
  "StandardValueCopy meta_data segment input = Inr (segment, input)"

definition StringValueCopy :: value_copy_t where
  "StringValueCopy meta_data segment input =
     (case input of
        String s \<Rightarrow>
          if IsInlined s then Inr (segment, input)
          else (case AddBlob segment s of
                  Inl e \<Rightarrow> Inl e
                | Inr (segment1, s1) \<Rightarrow> Inr (segment1, String s1))
      | _ \<Rightarrow> Inr (segment, input))"

definition ListValueCopy :: value_copy_t where
  "ListValueCopy meta_data segment input =
     (case input of
        ListEntry offset len \<Rightarrow> Inr (segment, ListEntry (offset + child_list_size meta_data) len)
      | _ \<Rightarrow> Inr (segment, input))"

definition write_result_data ::
  "ColumnDataCollectionSegment \<Rightarrow> nat \<Rightarrow> nat \<Rightarrow> cell \<Rightarrow> fault + ColumnDataCollectionSegment" where
  "write_result_data segment index pos v =
     (case GetVectorData segment index of
        Inl e \<Rightarrow> Inl e
      | Inr vmeta \<Rightarrow>
          if pos < length (vdata vmeta)
          then Inr (SetVectorData segment index (vmeta\<lparr>vdata := (vdata vmeta)[pos := v]\<rparr>))
          else Inl OutOfBounds)"

definition TemplatedColumnDataCopy ::
  "nat \<Rightarrow> value_copy_t \<Rightarrow>
   ColumnDataMetaData \<Rightarrow> VectorData \<Rightarrow> nat \<Rightarrow> nat \<Rightarrow>
   ColumnDataCollectionSegment \<Rightarrow> fault + ColumnDataCollectionSegment" where
  "TemplatedColumnDataCopy svs OP meta_data source_data source_offset copy_count segment =
     (case GetVectorData segment (vector_data_index meta_data) of
        Inl e \<Rightarrow> Inl e
      | Inr vmeta \<Rightarrow>
     (case ColumnDataCopyValidity svs source_data (vvalidity vmeta) source_offset
             (vcount vmeta) copy_count of
        Inl e \<Rightarrow> Inl e
      | Inr vmask \<Rightarrow>
     (case for_loop 0 copy_count
             (\<lambda>i segment.
                let source_idx = sel source_data (source_offset + i)
                in if validity_RowIsValid source_data source_idx then
                     (case OP meta_data segment (data source_data source_idx) of
                        Inl e \<Rightarrow> Inl e
                      | Inr (segment1, v) \<Rightarrow>
                          write_result_data segment1 (vector_data_index meta_data)
                            (vcount vmeta + i) v)
                   else Inr segment)
             (SetVectorData segment (vector_data_index meta_data)
                (vmeta\<lparr>vvalidity := vmask\<rparr>)) of
        Inl e \<Rightarrow> Inl e
      | Inr segment1 \<Rightarrow>
     (case GetVectorData segment1 (vector_data_index meta_data) of
        Inl e \<Rightarrow> Inl e
      | Inr vector_data1 \<Rightarrow>
          Inr (SetVectorData segment1 (vector_data_index meta_data)
                 (vector_data1\<lparr>vcount := vcount vector_data1 + copy_count\<rparr>))))))"

text \<open>
  The while loop of \<open>ColumnDataCopy<list_entry_t>\<close>. Its state is the segment, the
  current \<open>child_index\<close>, \<open>remaining\<close> and \<open>current_list_size\<close>; it returns the segment
  and \<open>current_list_size\<close>.
\<close>

partial_function (option) list_child_loop ::
  "nat \<Rightarrow> column_data_copy_function_t \<Rightarrow> VectorData \<Rightarrow> Vector \<Rightarrow> nat \<Rightarrow> LogicalType \<Rightarrow>
   ColumnDataCollectionSegment \<times> nat \<times> nat \<times> nat \<Rightarrow> (ColumnDataCollectionSegment \<times> nat) result" where
  "list_child_loop svs child_function child_vector_data child_vector list_size child_type st =
     (case st of (segment, child_idx, remaining, current_list_size) \<Rightarrow>
      if remaining > 0 then
        (case GetVectorData segment child_idx of
           Inl e \<Rightarrow> Some (Inl e)
         | Inr child_vdata \<Rightarrow>
           (let current_list_size1 = current_list_size + vcount child_vdata;
                child_append_count = min (idx_sub svs (vcount child_vdata)) remaining
            in case (if child_append_count > 0
                     then child_function (child_meta_data child_idx) child_vector_data
                            child_vector (list_size - remaining) child_append_count segment
                     else Some (Inr segment)) of
                 None \<Rightarrow> None
               | Some (Inl e) \<Rightarrow> Some (Inl e)
               | Some (Inr segment1) \<Rightarrow>
                   (let remaining1 = remaining - child_append_count
                    in if remaining1 > 0 then
                         (case GetVectorData segment1 child_idx of
                            Inl e \<Rightarrow> Some (Inl e)
                          | Inr child_vdata1 \<Rightarrow>
                              (case next_data child_vdata1 of
                                 None \<Rightarrow>
                                   (let (segment2, next_idx) = AllocateVector svs child_type segment1;
                                        segment3 = SetVectorData segment2 child_idx
                                                     (child_vdata1\<lparr>next_data := Some next_idx\<rparr>)
                                    in list_child_loop svs child_function child_vector_data
                                         child_vector list_size child_type
                                         (segment3, next_idx, remaining1, current_list_size1))
                               | Some next_idx \<Rightarrow>
                                   list_child_loop svs child_function child_vector_data
                                     child_vector list_size child_type
                                     (segment1, next_idx, remaining1, current_list_size1)))
                       else list_child_loop svs child_function child_vector_data
                              child_vector list_size child_type
                              (segment1, child_idx, remaining1, current_list_size1))))
      else Some (Inr (segment, current_list_size)))"

declare list_child_loop.simps [code]

definition ColumnDataCopy_list :: "nat \<Rightarrow> column_data_copy_function_t list \<Rightarrow> column_data_copy_function_t" where
  "ColumnDataCopy_list svs child_fns meta_data source_data source source_offset copy_count segment =
     (case GetEntries source of
        [] \<Rightarrow> Some (Inl NullPointer)
      | child_vector # _ \<Rightarrow>
     (let list_size = GetListSize source;
          child_type = GetType child_vector;
          child_vector_data = Orrify child_vector
      in case GetVectorData segment (vector_data_index meta_data) of
           Inl e \<Rightarrow> Some (Inl e)
         | Inr vmd \<Rightarrow>
     (let segment1 =
            (if child_index vmd = None then
               (let (s1, child_index1) = AllocateVector svs child_type segment;
                    (s2, ci) = AddChildIndex s1 child_index1
                in SetVectorData s2 (vector_data_index meta_data) (vmd\<lparr>child_index := Some ci\<rparr>))
             else segment)
      in case child_fns of
           [] \<Rightarrow> Some (Inl OutOfBounds)
         | child_function # _ \<Rightarrow>
     (case GetVectorData segment1 (vector_data_index meta_data) of
        Inl e \<Rightarrow> Some (Inl e)
      | Inr vmd1 \<Rightarrow>
     (case child_index vmd1 of
        None \<Rightarrow> Some (Inl OutOfBounds)
      | Some ci \<Rightarrow>
     (case GetChildIndex segment1 ci 0 of
        Inl e \<Rightarrow> Some (Inl e)
      | Inr child_index0 \<Rightarrow>
     (case list_child_loop svs child_function child_vector_data child_vector list_size
             child_type (segment1, child_index0, list_size, 0) of
        None \<Rightarrow> None
      | Some (Inl e) \<Rightarrow> Some (Inl e)
      | Some (Inr (segment2, current_list_size)) \<Rightarrow>
          Some (TemplatedColumnDataCopy svs ListValueCopy
                  (meta_data\<lparr>child_list_size := current_list_size\<rparr>)
                  source_data source_offset copy_count segment2))))))))"

definition ColumnDataCopyStruct :: "nat \<Rightarrow> column_data_copy_function_t list \<Rightarrow> column_data_copy_function_t" where
  "ColumnDataCopyStruct svs child_fns meta_data source_data source source_offset copy_count segment =
     (case GetVectorData segment (vector_data_index meta_data) of
        Inl e \<Rightarrow> Some (Inl e)
      | Inr vmeta \<Rightarrow>
     (case ColumnDataCopyValidity svs source_data (vvalidity vmeta) source_offset
             (vcount vmeta) copy_count of
        Inl e \<Rightarrow> Some (Inl e)
      | Inr vmask \<Rightarrow>
     (let vector_data1 = vmeta\<lparr>vvalidity := vmask, vcount := vcount vmeta + copy_count\<rparr>;
          segment1 = SetVectorData segment (vector_data_index meta_data) vector_data1;
          child_types = GetChildTypes (GetType source)
      in case (if child_index vector_data1 = None then
                 (let (s1, base_index) = ReserveChildren segment1 (length child_types)
                  in case for_loop 0 (length child_types)
                            (\<lambda>child_idx s.
                               let (s', child_index1) = AllocateVector svs (child_types ! child_idx) s
                               in SetChildIndex s' base_index child_idx child_index1)
                            s1 of
                       Inl e \<Rightarrow> Inl e
                     | Inr s2 \<Rightarrow>
                         (case GetVectorData s2 (vector_data_index meta_data) of
                            Inl e \<Rightarrow> Inl e
                          | Inr v \<Rightarrow> Inr (SetVectorData s2 (vector_data_index meta_data)
                                             (v\<lparr>child_index := Some base_index\<rparr>))))
               else Inr segment1) of
           Inl e \<Rightarrow> Some (Inl e)
         | Inr segment2 \<Rightarrow>
             for_loop_r 0 (length child_types)
               (\<lambda>child_idx s.
                  if child_idx < length child_fns then
                    (case GetVectorData s (vector_data_index meta_data) of
                       Inl e \<Rightarrow> Some (Inl e)
                     | Inr v \<Rightarrow>
                    (case child_index v of
                       None \<Rightarrow> Some (Inl OutOfBounds)
                     | Some base \<Rightarrow>
                    (case GetChildIndex s base child_idx of
                       Inl e \<Rightarrow> Some (Inl e)
                     | Inr child_index1 \<Rightarrow>
                         if child_idx < length (GetEntries source) then
                           (child_fns ! child_idx) (child_meta_data child_index1)
                              (Orrify (GetEntries source ! child_idx))
                              (GetEntries source ! child_idx) source_offset copy_count s
                         else Some (Inl OutOfBounds))))
                  else Some (Inl OutOfBounds))
               segment2)))"

text \<open>Calling through the function pointer of a \<open>ColumnDataCopyFunction\<close>.\<close>

primrec call_copy :: "nat \<Rightarrow> ColumnDataCopyFunction \<Rightarrow> column_data_copy_function_t" where
  "call_copy svs (ColumnDataCopyFunction f cs) =
     (case f of
        CopyStandard \<Rightarrow>
          (\<lambda>meta_data source_data source source_offset copy_count segment.
             Some (TemplatedColumnDataCopy svs StandardValueCopy meta_data source_data
                     source_offset copy_count segment))
      | CopyString \<Rightarrow>
          (\<lambda>meta_data source_data source source_offset copy_count segment.
             Some (TemplatedColumnDataCopy svs StringValueCopy meta_data source_data
                     source_offset copy_count segment))
      | CopyList \<Rightarrow> ColumnDataCopy_list svs (map (call_copy svs) cs)
      | CopyStruct \<Rightarrow> ColumnDataCopyStruct svs (map (call_copy svs) cs))"

fun collect :: "(fault + 'a) list \<Rightarrow> fault + 'a list" where
  "collect [] = Inr []"
| "collect (x # xs) =
     (case x of
        Inl e \<Rightarrow> Inl e
      | Inr y \<Rightarrow> (case collect xs of Inl e \<Rightarrow> Inl e | Inr ys \<Rightarrow> Inr (y # ys)))"

fun GetCopyFunction :: "LogicalType \<Rightarrow> fault + ColumnDataCopyFunction" where
  "GetCopyFunction (Scalar p) =
     (case p of
        VARCHAR \<Rightarrow> Inr (ColumnDataCopyFunction CopyString [])
      | OTHER \<Rightarrow>
          Inl (InternalException ''Unsupported type for ColumnDataCollection::GetCopyFunction'')
      | _ \<Rightarrow> Inr (ColumnDataCopyFunction CopyStandard []))"
| "GetCopyFunction (STRUCT child_types) =
     (case collect (map GetCopyFunction child_types) of
        Inl e \<Rightarrow> Inl e
      | Inr fs \<Rightarrow> Inr (ColumnDataCopyFunction CopyStruct fs))"
| "GetCopyFunction (LIST child_type) =
     (case GetCopyFunction child_type of
        Inl e \<Rightarrow> Inl e
      | Inr f \<Rightarrow> Inr (ColumnDataCopyFunction CopyList [f]))"

fun IsComplexType :: "LogicalType \<Rightarrow> bool" where
  "IsComplexType (STRUCT child_types) = True"
| "IsComplexType (LIST child_type) = IsComplexType child_type"
| "IsComplexType (Scalar p) = False"


subsection \<open>The collection\<close>

text \<open>
  \<open>segments\<close> is a vector of \<open>unique_ptr\<close>: an entry is \<open>None\<close> when the pointer is
  null, which is what moving out of it leaves behind. The allocator is shared between
  collections; only its identity is kept.
\<close>

record ColumnDataCollection =
  types :: "LogicalType list"
  count :: nat
  segments :: "ColumnDataCollectionSegment option list"
  finished_append :: bool
  copy_functions :: "ColumnDataCopyFunction list"
  allocator :: nat

record ColumnDataAppendState =
  state_vector_data :: "VectorData list"

record ColumnDataScanState =
  chunk_index :: nat
  segment_index :: nat
  current_row_index :: nat
  next_row_index :: nat

text \<open>
  The constructor from an allocator and types (the other constructors make the allocator
  and delegate to it), with \<open>Initialize\<close> inlined: \<open>GetCopyFunction\<close> may throw.
\<close>

definition ColumnDataCollection_new :: "nat \<Rightarrow> LogicalType list \<Rightarrow> fault + ColumnDataCollection" where
  "ColumnDataCollection_new allocator_p types_p =
     (case collect (map GetCopyFunction types_p) of
        Inl e \<Rightarrow> Inl e
      | Inr fs \<Rightarrow>
          Inr \<lparr>types = types_p, count = 0, segments = [], finished_append = False,
               copy_functions = fs, allocator = allocator_p\<rparr>)"

text \<open>
  \<open>ColumnDataCollection(ColumnDataCollection &other)\<close>: returns the new collection and
  \<open>other\<close> as the constructor leaves it.
\<close>

definition ColumnDataCollection_from ::
  "ColumnDataCollection \<Rightarrow> fault + (ColumnDataCollection \<times> ColumnDataCollection)" where
  "ColumnDataCollection_from other =
     (case ColumnDataCollection_new (allocator other) (types other) of
        Inl e \<Rightarrow> Inl e
      | Inr this \<Rightarrow> Inr (this, other\<lparr>finished_append := True\<rparr>))"

definition CreateSegment :: "ColumnDataCollection \<Rightarrow> ColumnDataCollection" where
  "CreateSegment c = c\<lparr>segments := segments c @ [Some (new_segment (types c))]\<rparr>"

text \<open>\<open>*segments.back()\<close>: undefined on an empty vector, a null dereference on a moved-out entry.\<close>

definition segments_back :: "ColumnDataCollection \<Rightarrow> fault + ColumnDataCollectionSegment" where
  "segments_back c =
     (if segments c = [] then Inl OutOfBounds
      else (case last (segments c) of None \<Rightarrow> Inl NullPointer | Some segment \<Rightarrow> Inr segment))"

definition set_segments_back :: "ColumnDataCollection \<Rightarrow> ColumnDataCollectionSegment \<Rightarrow> ColumnDataCollection" where
  "set_segments_back c segment = c\<lparr>segments := butlast (segments c) @ [Some segment]\<rparr>"

definition default_VectorData :: VectorData where
  "default_VectorData = \<lparr>sel = (\<lambda>i. i), data = (\<lambda>i. Uninit), validity = None\<rparr>"

text \<open>\<open>vector::resize\<close>: cut or pad with default-constructed elements.\<close>

definition resize :: "'a list \<Rightarrow> nat \<Rightarrow> 'a \<Rightarrow> 'a list" where
  "resize xs n d = take n xs @ replicate (n - length xs) d"

text \<open>
  \<open>InitializeChunkState\<close> pins the blocks of a chunk for the calls that follow; with
  the memory kept in the descriptors there is nothing to pin.
\<close>

definition InitializeAppend ::
  "bool \<Rightarrow> nat \<Rightarrow> ColumnDataCollection \<Rightarrow> ColumnDataAppendState \<Rightarrow>
   fault + (ColumnDataCollection \<times> ColumnDataAppendState)" where
  "InitializeAppend dbg svs c state =
     (case D_ASSERT dbg (\<not> finished_append c) of
        Inl e \<Rightarrow> Inl e
      | Inr _ \<Rightarrow>
     (let state1 = state\<lparr>state_vector_data :=
                     resize (state_vector_data state) (length (types c)) default_VectorData\<rparr>;
          c1 = (if segments c = [] then CreateSegment c else c)
      in case segments_back c1 of
           Inl e \<Rightarrow> Inl e
         | Inr segment \<Rightarrow>
             (let segment1 = (if chunk_data segment = [] then AllocateNewChunk svs segment
                              else segment)
              in Inr (set_segments_back c1 segment1, state1))))"

text \<open>
  The first loop of \<open>Append\<close>: flatten every column of the input into the state.
  \<open>Normalify\<close> rewrites the vector of the caller's batch in place, so the loop returns
  the batch as well, and the copy functions are given its vectors.
\<close>

definition Append_orrify ::
  "nat \<Rightarrow> ColumnDataAppendState \<Rightarrow> DataChunk \<Rightarrow> fault + (ColumnDataAppendState \<times> DataChunk)" where
  "Append_orrify ncols state input =
     for_loop 0 ncols
       (\<lambda>vector_idx (st, inp).
          if vector_idx < length (chunk_vectors inp) \<and>
             vector_idx < length (state_vector_data st) then
            (let v = chunk_vectors inp ! vector_idx;
                 v1 = (if IsComplexType (GetType v) then Normalify v (chunk_size inp) else v)
             in Inr (st\<lparr>state_vector_data := (state_vector_data st)[vector_idx := Orrify v1]\<rparr>,
                     inp\<lparr>chunk_vectors := (chunk_vectors inp)[vector_idx := v1]\<rparr>))
          else Inl OutOfBounds)
       (state, input)"

text \<open>
  The body of the inner loop: one call through the copy function of each column, against
  the last chunk of the segment.
\<close>

definition Append_columns ::
  "nat \<Rightarrow> ColumnDataCopyFunction list \<Rightarrow> nat \<Rightarrow> ColumnDataAppendState \<Rightarrow> DataChunk \<Rightarrow>
   nat \<Rightarrow> nat \<Rightarrow> ColumnDataCollectionSegment \<Rightarrow> ColumnDataCollectionSegment result" where
  "Append_columns svs copy_fns ncols state input offset append_amount segment =
     for_loop_r 0 ncols
       (\<lambda>vector_idx s.
          if chunk_data s = [] then Some (Inl OutOfBounds)
          else if vector_idx < length copy_fns \<and>
                  vector_idx < length (chunk_vector_data (last (chunk_data s))) \<and>
                  vector_idx < length (state_vector_data state) \<and>
                  vector_idx < length (chunk_vectors input) then
            call_copy svs (copy_fns ! vector_idx)
              (child_meta_data (chunk_vector_data (last (chunk_data s)) ! vector_idx))
              (state_vector_data state ! vector_idx) (chunk_vectors input ! vector_idx)
              offset append_amount s
          else Some (Inl OutOfBounds))
       segment"

partial_function (option) Append_loop ::
  "nat \<Rightarrow> ColumnDataCopyFunction list \<Rightarrow> nat \<Rightarrow> ColumnDataAppendState \<Rightarrow> DataChunk \<Rightarrow>
   ColumnDataCollectionSegment \<times> nat \<Rightarrow> ColumnDataCollectionSegment result" where
  "Append_loop svs copy_fns ncols state input st =
     (case st of (segment, remaining) \<Rightarrow>
      if remaining > 0 then
        (if chunk_data segment = [] then Some (Inl OutOfBounds)
         else
           (let append_amount =
                  min remaining (idx_sub svs (chunk_count (last (chunk_data segment))))
            in case (if append_amount > 0 then
                       (case Append_columns svs copy_fns ncols state input
                               (chunk_size input - remaining) append_amount segment of
                          None \<Rightarrow> None
                        | Some (Inl e) \<Rightarrow> Some (Inl e)
                        | Some (Inr s1) \<Rightarrow>
                            if chunk_data s1 = [] then Some (Inl OutOfBounds)
                            else Some (Inr (s1\<lparr>chunk_data := butlast (chunk_data s1) @
                                     [(last (chunk_data s1))\<lparr>chunk_count :=
                                         chunk_count (last (chunk_data s1)) + append_amount\<rparr>]\<rparr>)))
                     else Some (Inr segment)) of
                 None \<Rightarrow> None
               | Some (Inl e) \<Rightarrow> Some (Inl e)
               | Some (Inr segment1) \<Rightarrow>
                   if remaining - append_amount > 0
                   then Append_loop svs copy_fns ncols state input
                          (AllocateNewChunk svs segment1, remaining - append_amount)
                   else Append_loop svs copy_fns ncols state input
                          (segment1, remaining - append_amount)))
      else Some (Inr segment))"

declare Append_loop.simps [code]

text \<open>
  \<open>Append(ColumnDataAppendState &state, DataChunk &input)\<close>: returns the collection,
  the state and the batch as the call leaves them.
\<close>

definition Append ::
  "bool \<Rightarrow> nat \<Rightarrow> ColumnDataCollection \<Rightarrow> ColumnDataAppendState \<Rightarrow> DataChunk \<Rightarrow>
   (ColumnDataCollection \<times> ColumnDataAppendState \<times> DataChunk) result" where
  "Append dbg svs c state input =
     (case D_ASSERT dbg (\<not> finished_append c) of
        Inl e \<Rightarrow> Some (Inl e)
      | Inr _ \<Rightarrow>
     (case D_ASSERT dbg (types c = GetTypes input) of
        Inl e \<Rightarrow> Some (Inl e)
      | Inr _ \<Rightarrow>
     (case segments_back c of
        Inl e \<Rightarrow> Some (Inl e)
      | Inr segment \<Rightarrow>
     (case Append_orrify (length (types c)) state input of
        Inl e \<Rightarrow> Some (Inl e)
      | Inr (state1, input1) \<Rightarrow>
     (case Append_loop svs (copy_functions c) (length (types c)) state1 input1
             (segment, chunk_size input1) of
        None \<Rightarrow> None
      | Some (Inl e) \<Rightarrow> Some (Inl e)
      | Some (Inr segment1) \<Rightarrow>
          Some (Inr ((set_segments_back c
                        (segment1\<lparr>seg_count := seg_count segment1 + chunk_size input1\<rparr>))
                       \<lparr>count := count c + chunk_size input1\<rparr>,
                     state1, input1)))))))"

text \<open>\<open>Append(DataChunk &input)\<close>.\<close>

definition Append_chunk ::
  "bool \<Rightarrow> nat \<Rightarrow> ColumnDataCollection \<Rightarrow> DataChunk \<Rightarrow> ColumnDataCollection result" where
  "Append_chunk dbg svs c input =
     (case InitializeAppend dbg svs c \<lparr>state_vector_data = []\<rparr> of
        Inl e \<Rightarrow> Some (Inl e)
      | Inr (c1, state) \<Rightarrow>
          (case Append dbg svs c1 state input of
             None \<Rightarrow> None
           | Some (Inl e) \<Rightarrow> Some (Inl e)
           | Some (Inr (c2, state2, input2)) \<Rightarrow> Some (Inr c2)))"


subsection \<open>Reading a chunk back\<close>

text \<open>
  Modelled from the spec: \<open>ReadChunk\<close>, the inverse of append, which is part of the
  missing segment. What it materializes is given here as the rows it yields, each a
  value with its nullability: \<open>Null\<close>, the slot of a fixed-width column, the bytes of
  a string, the elements of a list, or the fields of a struct. The bytes of a string that
  is not inlined are read from the heap of the segment, at the position that the slot
  points to; a slot that points anywhere else cannot be read. A list's elements are the
  rows of its child storage, the chain of child vectors linked by \<open>next_data\<close>, from
  the entry's offset on. Reading outside the written part of a vector is a fault.
\<close>

datatype Value =
    Null
  | CellValue cell
  | StringValue string
  | ListValue "Value list"
  | StructValue "Value list"

fun read_string :: "string list \<Rightarrow> string_t \<Rightarrow> fault + string" where
  "read_string blobs (Inlined s) = Inr s"
| "read_string blobs (External s) = Inl DanglingPointer"
| "read_string blobs (InHeap i) = (if i < length blobs then Inr (blobs ! i) else Inl OutOfBounds)"

definition read_cell :: "string list \<Rightarrow> cell \<Rightarrow> fault + Value" where
  "read_cell blobs c =
     (case c of
        String s \<Rightarrow> (case read_string blobs s of
                      Inl e \<Rightarrow> Inl e
                    | Inr bytes \<Rightarrow> Inr (StringValue bytes))
      | _ \<Rightarrow> Inr (CellValue c))"

record ScanChunk =
  columns :: "Value list list"
  cardinality :: nat

text \<open>The rows of one vector, given what a valid row \<open>i\<close> holding the slot \<open>c\<close> reads as.\<close>

definition read_rows ::
  "VectorMetaData \<Rightarrow> (nat \<Rightarrow> cell \<Rightarrow> fault + Value) \<Rightarrow> fault + Value list" where
  "read_rows v row_value =
     (if vcount v \<le> length (vdata v) \<and> vcount v \<le> length (vvalidity v)
      then collect (map (\<lambda>i. if vvalidity v ! i then row_value i (vdata v ! i) else Inr Null)
                      [0..<vcount v])
      else Inl OutOfBounds)"

partial_function (option) read_chain ::
  "(ColumnDataCollectionSegment \<Rightarrow> nat \<Rightarrow> Value list result) \<Rightarrow> ColumnDataCollectionSegment \<Rightarrow>
   nat option \<times> Value list \<Rightarrow> Value list result" where
  "read_chain read_slot segment st =
     (case st of
        (None, acc) \<Rightarrow> Some (Inr acc)
      | (Some index, acc) \<Rightarrow>
          (case read_slot segment index of
             None \<Rightarrow> None
           | Some (Inl e) \<Rightarrow> Some (Inl e)
           | Some (Inr rows) \<Rightarrow>
               (case GetVectorData segment index of
                  Inl e \<Rightarrow> Some (Inl e)
                | Inr v \<Rightarrow> read_chain read_slot segment (next_data v, acc @ rows))))"

declare read_chain.simps [code]

definition list_row_value :: "Value list \<Rightarrow> nat \<Rightarrow> cell \<Rightarrow> fault + Value" where
  "list_row_value elements i c =
     (case c of
        ListEntry offset len \<Rightarrow>
          if offset + len \<le> length elements
          then Inr (ListValue (take len (drop offset elements)))
          else Inl OutOfBounds
      | _ \<Rightarrow> Inl OutOfBounds)"

definition struct_row_value :: "Value list list \<Rightarrow> nat \<Rightarrow> cell \<Rightarrow> fault + Value" where
  "struct_row_value field_rows i c =
     (if \<forall>f \<in> set field_rows. i < length f then Inr (StructValue (map (\<lambda>f. f ! i) field_rows))
      else Inl (InternalException ''Column Data Collection: mismatch in struct child sizes''))"

fun collect_r :: "'a result list \<Rightarrow> 'a list result" where
  "collect_r [] = Some (Inr [])"
| "collect_r (x # xs) =
     (case x of
        None \<Rightarrow> None
      | Some (Inl e) \<Rightarrow> Some (Inl e)
      | Some (Inr y) \<Rightarrow>
          (case collect_r xs of
             None \<Rightarrow> None
           | Some (Inl e) \<Rightarrow> Some (Inl e)
           | Some (Inr ys) \<Rightarrow> Some (Inr (y # ys))))"

primrec ReadVector ::
  "LogicalType \<Rightarrow> ColumnDataCollectionSegment \<Rightarrow> nat \<Rightarrow> Value list result" where
  "ReadVector (Scalar p) =
     (\<lambda>segment index.
        case GetVectorData segment index of
          Inl e \<Rightarrow> Some (Inl e)
        | Inr v \<Rightarrow> Some (read_rows v (\<lambda>i c. read_cell (heap segment) c)))"
| "ReadVector (STRUCT child_types) =
     (\<lambda>segment index.
        case GetVectorData segment index of
          Inl e \<Rightarrow> Some (Inl e)
        | Inr v \<Rightarrow>
            if vcount v = 0 then Some (Inr [])
            else
            (case child_index v of
               None \<Rightarrow> Some (Inl OutOfBounds)
             | Some base \<Rightarrow>
                 (case collect_r
                         (map (\<lambda>(read_child, child_idx).
                                 case GetChildIndex segment base child_idx of
                                   Inl e \<Rightarrow> Some (Inl e)
                                 | Inr ci \<Rightarrow> read_child segment ci)
                              (zip (map ReadVector child_types) [0..<length child_types])) of
                    None \<Rightarrow> None
                  | Some (Inl e) \<Rightarrow> Some (Inl e)
                  | Some (Inr field_rows) \<Rightarrow> Some (read_rows v (struct_row_value field_rows)))))"
| "ReadVector (LIST child_type) =
     (\<lambda>segment index.
        case GetVectorData segment index of
          Inl e \<Rightarrow> Some (Inl e)
        | Inr v \<Rightarrow>
            if vcount v = 0 then Some (Inr [])
            else
            (case child_index v of
               None \<Rightarrow> Some (Inl OutOfBounds)
             | Some base \<Rightarrow>
                 (case GetChildIndex segment base 0 of
                    Inl e \<Rightarrow> Some (Inl e)
                  | Inr ci \<Rightarrow>
                      (case read_chain (ReadVector child_type) segment (Some ci, []) of
                         None \<Rightarrow> None
                       | Some (Inl e) \<Rightarrow> Some (Inl e)
                       | Some (Inr elements) \<Rightarrow> Some (read_rows v (list_row_value elements))))))"

definition ReadChunk :: "ColumnDataCollectionSegment \<Rightarrow> nat \<Rightarrow> ScanChunk result" where
  "ReadChunk segment chunk_idx =
     (if chunk_idx < length (chunk_data segment) then
        (let chunk_meta = chunk_data segment ! chunk_idx
         in if length (chunk_vector_data chunk_meta) = length (seg_types segment) then
              (case collect_r (map (\<lambda>(t, index). ReadVector t segment index)
                                 (zip (seg_types segment) (chunk_vector_data chunk_meta))) of
                 None \<Rightarrow> None
               | Some (Inl e) \<Rightarrow> Some (Inl e)
               | Some (Inr cols) \<Rightarrow>
                   Some (Inr \<lparr>columns = cols, cardinality = chunk_count chunk_meta\<rparr>))
            else Some (Inl OutOfBounds))
      else Some (Inl OutOfBounds))"

subsection \<open>Scan\<close>

definition InitializeScan :: "ColumnDataScanState" where
  "InitializeScan =
     \<lparr>chunk_index = 0, segment_index = 0, current_row_index = 0, next_row_index = 0\<rparr>"

text \<open>
  The while loop of \<open>NextScanIndex\<close>, entered with \<open>segment_index\<close> in range. It
  returns whether a chunk is left, and the cursor.
\<close>

function NextScanIndex_while ::
  "ColumnDataCollection \<Rightarrow> ColumnDataScanState \<Rightarrow> fault + (bool \<times> ColumnDataScanState)" where
  "NextScanIndex_while c state =
     (if segment_index state < length (segments c) then
        (case segments c ! segment_index state of
           None \<Rightarrow> Inl NullPointer
         | Some segment \<Rightarrow>
             if chunk_index state \<ge> length (chunk_data segment) then
               (let state1 = state\<lparr>chunk_index := 0, segment_index := segment_index state + 1\<rparr>
                in if segment_index state1 \<ge> length (segments c) then Inr (False, state1)
                   else NextScanIndex_while c state1)
             else Inr (True, state))
      else Inl OutOfBounds)"
  by pat_completeness auto
termination
  by (relation "measure (\<lambda>(c, state). length (segments c) - segment_index state)") auto

declare NextScanIndex_while.simps [simp del]

text \<open>
  \<open>NextScanIndex\<close> returns the boolean, the cursor and the three output parameters
  \<open>chunk_index\<close>, \<open>segment_index\<close>, \<open>row_index\<close> (the first two are unset when it
  returns false, and 0 here).
\<close>

definition NextScanIndex ::
  "ColumnDataCollection \<Rightarrow> ColumnDataScanState \<Rightarrow>
   fault + (bool \<times> ColumnDataScanState \<times> nat \<times> nat \<times> nat)" where
  "NextScanIndex c state =
     (let state0 = state\<lparr>current_row_index := next_row_index state\<rparr>;
          row_index = next_row_index state
      in if segment_index state0 \<ge> length (segments c) then Inr (False, state0, 0, 0, row_index)
         else
           (case NextScanIndex_while c state0 of
              Inl e \<Rightarrow> Inl e
            | Inr (False, state1) \<Rightarrow> Inr (False, state1, 0, 0, row_index)
            | Inr (True, state1) \<Rightarrow>
                (case segments c ! segment_index state1 of
                   None \<Rightarrow> Inl NullPointer
                 | Some segment \<Rightarrow>
                     Inr (True,
                          state1\<lparr>next_row_index := next_row_index state1 +
                                    chunk_count (chunk_data segment ! chunk_index state1),
                                  chunk_index := chunk_index state1 + 1\<rparr>,
                          chunk_index state1, segment_index state1, row_index))))"

text \<open>
  \<open>Scan(ColumnDataScanState &state, DataChunk &result)\<close>: the cursor, and the chunk
  when there is one.
\<close>

definition Scan ::
  "ColumnDataCollection \<Rightarrow> ColumnDataScanState \<Rightarrow> (ColumnDataScanState \<times> ScanChunk option) result" where
  "Scan c state =
     (case NextScanIndex c state of
        Inl e \<Rightarrow> Some (Inl e)
      | Inr (False, state1, chunk_idx, segment_idx, row_index) \<Rightarrow> Some (Inr (state1, None))
      | Inr (True, state1, chunk_idx, segment_idx, row_index) \<Rightarrow>
          (if segment_idx < length (segments c) then
             (case segments c ! segment_idx of
                None \<Rightarrow> Some (Inl NullPointer)
              | Some segment \<Rightarrow>
                  (case ReadChunk segment chunk_idx of
                     None \<Rightarrow> None
                   | Some (Inl e) \<Rightarrow> Some (Inl e)
                   | Some (Inr chunk) \<Rightarrow> Some (Inr (state1, Some chunk))))
           else Some (Inl OutOfBounds)))"

text \<open>
  \<open>Scan(callback)\<close>: the loop \<open>while (Scan(state, chunk)) callback(chunk)\<close>, with the
  callback collecting the chunks in order.
\<close>

partial_function (option) Scan_loop ::
  "ColumnDataCollection \<Rightarrow> ColumnDataScanState \<times> ScanChunk list \<Rightarrow> ScanChunk list result" where
  "Scan_loop c st =
     (case st of (state, acc) \<Rightarrow>
        (case Scan c state of
           None \<Rightarrow> None
         | Some (Inl e) \<Rightarrow> Some (Inl e)
         | Some (Inr (state1, None)) \<Rightarrow> Some (Inr acc)
         | Some (Inr (state1, Some chunk)) \<Rightarrow> Scan_loop c (state1, acc @ [chunk])))"

declare Scan_loop.simps [code]

definition Scan_all :: "ColumnDataCollection \<Rightarrow> ScanChunk list result" where
  "Scan_all c = Scan_loop c (InitializeScan, [])"

subsection \<open>Combine, Verify, ChunkCount, Reset\<close>

text \<open>Modelled from the spec: the debug check of a segment, that its chunk counts add up to its count.\<close>

definition Segment_Verify :: "bool \<Rightarrow> ColumnDataCollectionSegment \<Rightarrow> fault + unit" where
  "Segment_Verify dbg segment =
     D_ASSERT dbg (sum_list (map chunk_count (chunk_data segment)) = seg_count segment)"

fun Verify_loop :: "bool \<Rightarrow> ColumnDataCollectionSegment option list \<Rightarrow> nat \<Rightarrow> fault + nat" where
  "Verify_loop dbg [] total_segment_count = Inr total_segment_count"
| "Verify_loop dbg (s # ss) total_segment_count =
     (case s of
        None \<Rightarrow> Inl NullPointer
      | Some segment \<Rightarrow>
          (case Segment_Verify dbg segment of
             Inl e \<Rightarrow> Inl e
           | Inr _ \<Rightarrow> Verify_loop dbg ss (total_segment_count + seg_count segment)))"

definition Verify :: "bool \<Rightarrow> ColumnDataCollection \<Rightarrow> fault + unit" where
  "Verify dbg c =
     (if dbg then
        (case Verify_loop dbg (segments c) 0 of
           Inl e \<Rightarrow> Inl e
         | Inr total_segment_count \<Rightarrow> D_ASSERT dbg (total_segment_count = count c))
      else Inr ())"

text \<open>
  \<open>ColumnDataCollection::Combine\<close>: returns this collection and \<open>other\<close> as the call
  leaves them. Every \<open>unique_ptr\<close> of \<open>other.segments\<close> is moved from, so it is null
  afterwards; nothing else of \<open>other\<close> is assigned.
\<close>

definition ColumnDataCollection_Combine ::
  "bool \<Rightarrow> ColumnDataCollection \<Rightarrow> ColumnDataCollection \<Rightarrow>
   fault + (ColumnDataCollection \<times> ColumnDataCollection)" where
  "ColumnDataCollection_Combine dbg this other =
     (if types this \<noteq> types other then
        Inl (InternalException
               ''Attempting to combine ColumnDataCollections with mismatching types'')
      else
        (let this1 = this\<lparr>count := count this + count other,
                          segments := segments this @ segments other\<rparr>;
             other1 = other\<lparr>segments := map (\<lambda>other_seg. None) (segments other)\<rparr>
         in case Verify dbg this1 of
              Inl e \<Rightarrow> Inl e
            | Inr _ \<Rightarrow> Inr (this1, other1)))"

definition ChunkCount :: "ColumnDataCollection \<Rightarrow> fault + nat" where
  "ChunkCount c = Inl (InternalException ''FIXME: chunk count'')"

definition Reset :: "ColumnDataCollection \<Rightarrow> ColumnDataCollection" where
  "Reset c = c\<lparr>count := 0, segments := []\<rparr>"

text \<open>Modelled from the spec: \<open>Count()\<close>, the row count that a collection reports.\<close>

definition Count :: "ColumnDataCollection \<Rightarrow> nat" where
  "Count c = count c"

subsection \<open>The rows of an input\<close>

text \<open>
  What the rows \<open>offset, \<dots>, offset + n - 1\<close> of an input vector are, as values with
  their nullability: the reading of the flattening contract that the round trip is
  stated against. The slot of a row is read through the selection of the vector. A
  string is its bytes, which the slot holds or points to in the memory of the input. A
  struct's fields are the rows of its child vectors at the entry that the selection of
  the struct vector gives; a list's elements are the rows of its child vector.
\<close>

definition input_cell :: "cell \<Rightarrow> Value" where
  "input_cell c =
     (case c of
        String (Inlined s) \<Rightarrow> StringValue s
      | String (External s) \<Rightarrow> StringValue s
      | _ \<Rightarrow> CellValue c)"

primrec vector_rows :: "LogicalType \<Rightarrow> Vector \<Rightarrow> nat \<Rightarrow> nat \<Rightarrow> Value list" where
  "vector_rows (Scalar p) =
     (\<lambda>v offset n.
        map (\<lambda>i. let idx = sel (Orrify v) (offset + i)
                  in if validity_RowIsValid (Orrify v) idx then input_cell (data (Orrify v) idx)
                     else Null)
            [0..<n])"
| "vector_rows (STRUCT child_types) =
     (\<lambda>v offset n.
        map (\<lambda>i. let idx = sel (Orrify v) (offset + i)
                  in if validity_RowIsValid (Orrify v) idx
                     then StructValue (map (\<lambda>(rows_of, child). hd (rows_of child idx 1))
                                         (zip (map vector_rows child_types) (GetEntries v)))
                     else Null)
            [0..<n])"
| "vector_rows (LIST child_type) =
     (\<lambda>v offset n.
        let elements = (case GetEntries v of
                          [] \<Rightarrow> []
                        | child # _ \<Rightarrow> vector_rows child_type child 0 (GetListSize v))
        in map (\<lambda>i. let idx = sel (Orrify v) (offset + i)
                     in if validity_RowIsValid (Orrify v) idx
                        then (case data (Orrify v) idx of
                                ListEntry off len \<Rightarrow> ListValue (take len (drop off elements))
                              | c \<Rightarrow> CellValue c)
                        else Null)
               [0..<n])"

subsection \<open>Concrete collections\<close>

text \<open>
  A batch of one \<open>INT32\<close> column, and the collections of that schema with one segment
  list, as they are after appends with \<open>STANDARD_VECTOR_SIZE = 2\<close>.
\<close>

definition int_column :: "int list \<Rightarrow> Vector" where
  "int_column xs =
     Vector (Scalar INT32) \<lparr>sel = (\<lambda>i. i), data = (\<lambda>i. Fixed (xs ! i)), validity = None\<rparr> [] 0"

definition int_batch :: "int list \<Rightarrow> DataChunk" where
  "int_batch xs = \<lparr>chunk_vectors = [int_column xs], chunk_size = length xs\<rparr>"

definition int_segment :: "cell list \<Rightarrow> nat \<Rightarrow> ColumnDataCollectionSegment" where
  "int_segment cells n =
     \<lparr>seg_types = [Scalar INT32], seg_count = n,
      chunk_data = [\<lparr>chunk_vector_data = [0], chunk_count = n\<rparr>],
      vector_data = [\<lparr>vcount = n, child_index = None, next_data = None,
                      vdata = cells, vvalidity = [True, True]\<rparr>],
      child_indices = [], heap = []\<rparr>"

definition int_collection ::
  "bool \<Rightarrow> nat \<Rightarrow> ColumnDataCollectionSegment option list \<Rightarrow> ColumnDataCollection" where
  "int_collection fin n segs =
     \<lparr>types = [Scalar INT32], count = n, segments = segs, finished_append = fin,
      copy_functions = [ColumnDataCopyFunction CopyStandard []], allocator = 0\<rparr>"

subsection \<open>What the vectors of a segment hold\<close>

text \<open>
  The statements about appending and scanning rest on a description of what a vector
  of the pool holds. \<open>src_valid\<close> is the validity of a row of the flattened input.
  \<open>slot_ok\<close> says that a vector has room for \<open>STANDARD_VECTOR_SIZE\<close> rows and that,
  once it has rows, the validity bits behind them are set (\<open>ColumnDataCopyValidity\<close>
  sets all of them at the first copy).
\<close>

definition src_valid :: "VectorData \<Rightarrow> nat \<Rightarrow> bool" where
  "src_valid sd k = validity_RowIsValid sd (sel sd k)"

definition slot_ok :: "nat \<Rightarrow> VectorMetaData \<Rightarrow> bool" where
  "slot_ok svs v =
     (vcount v \<le> svs \<and> length (vdata v) = svs \<and> length (vvalidity v) = svs \<and>
      (0 < vcount v \<longrightarrow> (\<forall>j. vcount v \<le> j \<and> j < svs \<longrightarrow> vvalidity v ! j)))"

definition fresh_vector :: "nat \<Rightarrow> VectorMetaData" where
  "fresh_vector svs = \<lparr>vcount = 0, child_index = None, next_data = None,
          vdata = replicate svs Uninit, vvalidity = replicate svs False\<rparr>"

text \<open>
  A chain of vectors linked by \<open>next_data\<close>, from \<open>x\<close> on: every vector but the last
  is full, the vectors own disjoint parts of the pool, and the rows of the chain are the
  rows of its vectors in order.
\<close>

inductive chain ::
  "nat \<Rightarrow> VectorMetaData list \<Rightarrow> (nat \<Rightarrow> nat set \<Rightarrow> Value list \<Rightarrow> bool) \<Rightarrow>
   nat \<Rightarrow> nat set \<Rightarrow> Value list \<Rightarrow> bool"
  for svs :: nat and pool :: "VectorMetaData list" and P :: "nat \<Rightarrow> nat set \<Rightarrow> Value list \<Rightarrow> bool" where
  chain_last:
    "P x F rows \<Longrightarrow> x < length pool \<Longrightarrow> next_data (pool ! x) = None \<Longrightarrow> chain svs pool P x F rows"
| chain_cons:
    "P x F rows \<Longrightarrow> x < length pool \<Longrightarrow> vcount (pool ! x) = svs \<Longrightarrow>
     next_data (pool ! x) = Some y \<Longrightarrow> chain svs pool P y F' rows' \<Longrightarrow> F \<inter> F' = {} \<Longrightarrow>
     chain svs pool P x (F \<union> F') (rows @ rows')"

text \<open>
  \<open>stored svs ty seg idx F rows\<close>: the vector \<open>idx\<close> of the segment holds the rows
  \<open>rows\<close> of type \<open>ty\<close>, and \<open>F\<close> is the set of vectors of the pool that it and its
  children occupy. A struct vector has one child per field, with as many rows as itself; a
  list vector has a chain of child vectors, and its entries index the rows of the chain.
\<close>

primrec stored ::
  "nat \<Rightarrow> LogicalType \<Rightarrow> ColumnDataCollectionSegment \<Rightarrow> nat \<Rightarrow> nat set \<Rightarrow> Value list \<Rightarrow> bool" where
  "stored svs (Scalar p) =
     (\<lambda>seg idx F rows.
        idx < length (vector_data seg) \<and> slot_ok svs (vector_data seg ! idx) \<and> F = {idx} \<and>
        read_rows (vector_data seg ! idx) (\<lambda>i c. read_cell (heap seg) c) = Inr rows)"
| "stored svs (STRUCT child_types) =
     (\<lambda>seg idx F rows.
        idx < length (vector_data seg) \<and> slot_ok svs (vector_data seg ! idx) \<and>
        (case child_index (vector_data seg ! idx) of
           None \<Rightarrow> vcount (vector_data seg ! idx) = 0 \<and> F = {idx} \<and> rows = []
         | Some base \<Rightarrow>
             (\<exists>cs Fs rs.
                length cs = length child_types \<and> length Fs = length child_types \<and>
                length rs = length child_types \<and>
                base + length child_types \<le> length (child_indices seg) \<and>
                (\<forall>k<length child_types.
                   child_indices seg ! (base + k) = Some (cs ! k) \<and>
                   (map (stored svs) child_types ! k) seg (cs ! k) (Fs ! k) (rs ! k) \<and>
                   length (rs ! k) = vcount (vector_data seg ! idx) \<and> idx \<notin> Fs ! k) \<and>
                (\<forall>j k. j < k \<and> k < length child_types \<longrightarrow> Fs ! j \<inter> Fs ! k = {}) \<and>
                F = insert idx (\<Union>(set Fs)) \<and>
                read_rows (vector_data seg ! idx) (struct_row_value rs) = Inr rows)))"
| "stored svs (LIST child_type) =
     (\<lambda>seg idx F rows.
        idx < length (vector_data seg) \<and> slot_ok svs (vector_data seg ! idx) \<and>
        (case child_index (vector_data seg ! idx) of
           None \<Rightarrow> vcount (vector_data seg ! idx) = 0 \<and> F = {idx} \<and> rows = []
         | Some ci \<Rightarrow>
             (\<exists>root Fc elems.
                ci < length (child_indices seg) \<and> child_indices seg ! ci = Some root \<and>
                chain svs (vector_data seg) (stored svs child_type seg) root Fc elems \<and>
                idx \<notin> Fc \<and> F = insert idx Fc \<and>
                read_rows (vector_data seg ! idx) (list_row_value elems) = Inr rows)))"

text \<open>
  \<open>input_ok ty v rows\<close>: the input vector \<open>v\<close>, in whatever representation, is a
  vector of type \<open>ty\<close> at the rows \<open>rows\<close>. A string slot that is not inlined
  belongs to a \<open>VARCHAR\<close> column and points into the memory of the input, not into a
  heap (\<open>cell_ok\<close>). A struct has one child per field, which is checked at the entries
  that the selection of the struct gives for the rows. A list has a child vector, which
  is checked at all of its rows, and the valid list entries among the rows lie inside
  the child vector.
\<close>

definition cell_ok :: "PhysicalType \<Rightarrow> cell \<Rightarrow> bool" where
  "cell_ok p c =
     (case c of
        String (Inlined s) \<Rightarrow> True
      | String (External s) \<Rightarrow> p = VARCHAR
      | String (InHeap i) \<Rightarrow> False
      | _ \<Rightarrow> True)"

primrec input_ok :: "LogicalType \<Rightarrow> Vector \<Rightarrow> nat list \<Rightarrow> bool" where
  "input_ok (Scalar p) =
     (\<lambda>v rows.
        GetType v = Scalar p \<and>
        list_all (\<lambda>r. let idx = sel (Orrify v) r
                       in validity_RowIsValid (Orrify v) idx \<longrightarrow> cell_ok p (data (Orrify v) idx))
                 rows)"
| "input_ok (STRUCT child_types) =
     (\<lambda>v rows.
        GetType v = STRUCT child_types \<and> length (GetEntries v) = length child_types \<and>
        list_all (\<lambda>(ok, child). ok child (map (sel (Orrify v)) rows))
                 (zip (map input_ok child_types) (GetEntries v)))"
| "input_ok (LIST child_type) =
     (\<lambda>v rows.
        GetType v = LIST child_type \<and>
        (case GetEntries v of
           [] \<Rightarrow> False
         | child # _ \<Rightarrow> input_ok child_type child [0..<GetListSize v]) \<and>
        list_all (\<lambda>r. let idx = sel (Orrify v) r
                       in validity_RowIsValid (Orrify v) idx \<longrightarrow>
                          (case data (Orrify v) idx of
                             ListEntry off len \<Rightarrow> off + len \<le> GetListSize v
                           | _ \<Rightarrow> False))
                 rows)"

text \<open>
  \<open>vector_ok ty v offset n\<close>: what a copy function needs of its source at the rows
  \<open>offset, \<dots>, offset + n - 1\<close>. It asks what \<open>input_ok\<close> asks at these rows, and
  that every struct vector in \<open>v\<close> has the identity selection there, so that its
  children are checked at the rows themselves: \<open>ColumnDataCopyStruct\<close> hands the rows
  \<open>offset, \<dots>\<close> of the struct to the children as they are, through the selection of
  each child and not through its own. \<open>Append\<close> flattens the vectors of the types that
  have a struct inside before it copies them.
\<close>

primrec vector_ok :: "LogicalType \<Rightarrow> Vector \<Rightarrow> nat \<Rightarrow> nat \<Rightarrow> bool" where
  "vector_ok (Scalar p) =
     (\<lambda>v offset n.
        GetType v = Scalar p \<and>
        list_all (\<lambda>i. let idx = sel (Orrify v) (offset + i)
                       in validity_RowIsValid (Orrify v) idx \<longrightarrow> cell_ok p (data (Orrify v) idx))
                 [0..<n])"
| "vector_ok (STRUCT child_types) =
     (\<lambda>v offset n.
        GetType v = STRUCT child_types \<and> length (GetEntries v) = length child_types \<and>
        list_all (\<lambda>i. sel (Orrify v) (offset + i) = offset + i) [0..<n] \<and>
        list_all (\<lambda>(ok, child). ok child offset n) (zip (map vector_ok child_types) (GetEntries v)))"
| "vector_ok (LIST child_type) =
     (\<lambda>v offset n.
        GetType v = LIST child_type \<and>
        (case GetEntries v of [] \<Rightarrow> False | child # _ \<Rightarrow> vector_ok child_type child 0 (GetListSize v)) \<and>
        list_all (\<lambda>i. let idx = sel (Orrify v) (offset + i)
                       in validity_RowIsValid (Orrify v) idx \<longrightarrow>
                          (case data (Orrify v) idx of
                             ListEntry off len \<Rightarrow> off + len \<le> GetListSize v
                           | _ \<Rightarrow> False))
                 [0..<n])"

text \<open>
  \<open>frame seg seg' F\<close>: from \<open>seg\<close> to \<open>seg'\<close> the pool, the child indices and
  the heap only grow, and the vectors outside \<open>F\<close> are as they were.
\<close>

definition frame ::
  "ColumnDataCollectionSegment \<Rightarrow> ColumnDataCollectionSegment \<Rightarrow> nat set \<Rightarrow> bool" where
  "frame seg seg' F =
     (length (vector_data seg) \<le> length (vector_data seg') \<and>
      (\<forall>j<length (vector_data seg). j \<notin> F \<longrightarrow> vector_data seg' ! j = vector_data seg ! j) \<and>
      take (length (child_indices seg)) (child_indices seg') = child_indices seg \<and>
      take (length (heap seg)) (heap seg') = heap seg \<and>
      chunk_data seg' = chunk_data seg \<and> seg_types seg' = seg_types seg \<and>
      seg_count seg' = seg_count seg)"

text \<open>
  What a copy function has to do for the vector it is pointed at: append the rows of the
  input and leave the rest of the segment alone.
\<close>

definition copy_post ::
  "nat \<Rightarrow> LogicalType \<Rightarrow> ColumnDataCollectionSegment \<Rightarrow> nat \<Rightarrow> nat set \<Rightarrow> Value list \<Rightarrow>
   ColumnDataCollectionSegment \<Rightarrow> nat set \<Rightarrow> bool" where
  "copy_post svs ty seg idx F rows seg' F' =
     (stored svs ty seg' idx F' rows \<and> F \<subseteq> F' \<and>
      F' \<subseteq> F \<union> {length (vector_data seg)..<length (vector_data seg')} \<and>
      frame seg seg' F \<and>
      next_data (vector_data seg' ! idx) = next_data (vector_data seg ! idx))"

definition copy_ok :: "nat \<Rightarrow> LogicalType \<Rightarrow> ColumnDataCopyFunction \<Rightarrow> bool" where
  "copy_ok svs ty cf =
     (\<forall>seg idx F rows n v off meta.
        stored svs ty seg idx F rows \<longrightarrow> length rows + n \<le> svs \<longrightarrow> 0 < n \<longrightarrow>
        vector_ok ty v off n \<longrightarrow> vector_data_index meta = idx \<longrightarrow>
        (\<exists>seg' F'. call_copy svs cf meta (Orrify v) v off n seg = Some (Inr seg') \<and>
                   copy_post svs ty seg idx F (rows @ vector_rows ty v off n) seg' F'))"

text \<open>
  Modelled from the spec: the flattened child storage of a list vector, which is the rows
  of its chain of child vectors in order, and nothing when the list vector has no child
  yet. \<open>child_rows\<close> is the child storage of an input list vector.
\<close>

definition child_storage ::
  "LogicalType \<Rightarrow> ColumnDataCollectionSegment \<Rightarrow> nat \<Rightarrow> Value list result" where
  "child_storage child_type segment index =
     (case GetVectorData segment index of
        Inl e \<Rightarrow> Some (Inl e)
      | Inr v \<Rightarrow>
          (case child_index v of
             None \<Rightarrow> Some (Inr [])
           | Some base \<Rightarrow>
               (case GetChildIndex segment base 0 of
                  Inl e \<Rightarrow> Some (Inl e)
                | Inr ci \<Rightarrow> read_chain (ReadVector child_type) segment (Some ci, []))))"

definition child_rows :: "LogicalType \<Rightarrow> Vector \<Rightarrow> Value list" where
  "child_rows child_type v =
     (case GetEntries v of
        [] \<Rightarrow> []
      | child # _ \<Rightarrow> vector_rows child_type child 0 (GetListSize v))"

text \<open>
  A sequence of calls of one copy function on one vector of the segment, each with its
  source vector, the offset of its first row and its number of rows, as \<open>Append\<close>
  makes them for a column while a chunk has room. \<open>call_rows\<close> and \<open>call_values\<close>
  count the rows that the calls copy and the child values that their list vectors
  have; \<open>calls_child_rows\<close> and \<open>calls_rows\<close> are these child values and these
  rows, in the order of the calls.
\<close>

fun copy_calls ::
  "nat \<Rightarrow> ColumnDataCopyFunction \<Rightarrow> ColumnDataMetaData \<Rightarrow> (Vector \<times> nat \<times> nat) list \<Rightarrow>
   ColumnDataCollectionSegment \<Rightarrow> ColumnDataCollectionSegment result" where
  "copy_calls svs cf meta_data [] segment = Some (Inr segment)"
| "copy_calls svs cf meta_data ((v, offset, n) # calls) segment =
     (case call_copy svs cf meta_data (Orrify v) v offset n segment of
        None \<Rightarrow> None
      | Some (Inl e) \<Rightarrow> Some (Inl e)
      | Some (Inr segment1) \<Rightarrow> copy_calls svs cf meta_data calls segment1)"

definition call_rows :: "(Vector \<times> nat \<times> nat) list \<Rightarrow> nat" where
  "call_rows calls = sum_list (map (\<lambda>(v, offset, n). n) calls)"

definition call_values :: "(Vector \<times> nat \<times> nat) list \<Rightarrow> nat" where
  "call_values calls = sum_list (map (\<lambda>(v, offset, n). GetListSize v) calls)"

definition calls_child_rows :: "LogicalType \<Rightarrow> (Vector \<times> nat \<times> nat) list \<Rightarrow> Value list" where
  "calls_child_rows child_type calls = concat (map (\<lambda>(v, offset, n). child_rows child_type v) calls)"

definition calls_rows :: "LogicalType \<Rightarrow> (Vector \<times> nat \<times> nat) list \<Rightarrow> Value list" where
  "calls_rows ty calls = concat (map (\<lambda>(v, offset, n). vector_rows ty v offset n) calls)"

subsection \<open>What the chunks of a segment hold\<close>

text \<open>
  \<open>slots svs tys seg chunks\<close>: the chunk \<open>ci\<close> of the segment has one vector per
  column, the vector of column \<open>k\<close> holds the rows \<open>chunks ! ci ! k\<close>, and no two
  vectors share a part of the pool. \<open>chunks_ok\<close> adds the counts: every chunk holds
  at most \<open>STANDARD_VECTOR_SIZE\<close> rows, as many as each of its columns, and every
  chunk but the last is full.
\<close>

definition slots ::
  "nat \<Rightarrow> LogicalType list \<Rightarrow> ColumnDataCollectionSegment \<Rightarrow> Value list list list \<Rightarrow> bool" where
  "slots svs tys seg chunks =
     (length (chunk_data seg) = length chunks \<and>
      (\<forall>ci<length chunks.
         length (chunk_vector_data (chunk_data seg ! ci)) = length tys \<and>
         length (chunks ! ci) = length tys) \<and>
      (\<exists>FP. (\<forall>ci<length chunks. \<forall>k<length tys.
                 stored svs (tys ! k) seg (chunk_vector_data (chunk_data seg ! ci) ! k)
                   (FP ci k) (chunks ! ci ! k)) \<and>
            (\<forall>ci k cj l. ci < length chunks \<and> k < length tys \<and> cj < length chunks \<and>
                 l < length tys \<and> (ci \<noteq> cj \<or> k \<noteq> l) \<longrightarrow> FP ci k \<inter> FP cj l = {})))"

definition chunks_ok ::
  "nat \<Rightarrow> LogicalType list \<Rightarrow> ColumnDataCollectionSegment \<Rightarrow> Value list list list \<Rightarrow> bool" where
  "chunks_ok svs tys seg chunks =
     (slots svs tys seg chunks \<and> seg_types seg = tys \<and>
      (\<forall>ci<length chunks.
         chunk_count (chunk_data seg ! ci) \<le> svs \<and>
         (\<forall>k<length tys. length (chunks ! ci ! k) = chunk_count (chunk_data seg ! ci))) \<and>
      (\<forall>ci. Suc ci < length chunks \<longrightarrow> chunk_count (chunk_data seg ! ci) = svs))"

definition column_rows :: "nat \<Rightarrow> Value list list list \<Rightarrow> Value list" where
  "column_rows k chunks = concat (map (\<lambda>c. c ! k) chunks)"

text \<open>
  A well-formed input batch of a schema, a sequence of calls of \<open>Append(DataChunk &)\<close>,
  and the rows of column \<open>k\<close> of a sequence of batches.
\<close>

definition batch_ok :: "LogicalType list \<Rightarrow> DataChunk \<Rightarrow> bool" where
  "batch_ok tys b =
     (GetTypes b = tys \<and>
      list_all (\<lambda>(ty, v). input_ok ty v [0..<chunk_size b]) (zip tys (chunk_vectors b)))"

fun Append_all ::
  "bool \<Rightarrow> nat \<Rightarrow> ColumnDataCollection \<Rightarrow> DataChunk list \<Rightarrow> ColumnDataCollection result" where
  "Append_all dbg svs c [] = Some (Inr c)"
| "Append_all dbg svs c (b # bs) =
     (case Append_chunk dbg svs c b of
        None \<Rightarrow> None
      | Some (Inl e) \<Rightarrow> Some (Inl e)
      | Some (Inr c1) \<Rightarrow> Append_all dbg svs c1 bs)"

definition input_rows :: "LogicalType list \<Rightarrow> nat \<Rightarrow> DataChunk list \<Rightarrow> Value list" where
  "input_rows tys k bs =
     concat (map (\<lambda>b. vector_rows (tys ! k) (chunk_vectors b ! k) 0 (chunk_size b)) bs)"

text \<open>
  A collection that was made by the constructor and appended to: it is not finished, its
  copy functions are those of its types, and it has no segment and no rows, or one
  segment whose counts add up.
\<close>

definition collection_ok ::
  "nat \<Rightarrow> LogicalType list \<Rightarrow> ColumnDataCollection \<Rightarrow> Value list list list \<Rightarrow> bool" where
  "collection_ok svs tys c chunks =
     (types c = tys \<and> \<not> finished_append c \<and> length (copy_functions c) = length tys \<and>
      (\<forall>k<length tys. copy_ok svs (tys ! k) (copy_functions c ! k)) \<and>
      (if chunks = [] then segments c = [] \<and> count c = 0
       else (\<exists>seg. segments c = [Some seg] \<and> chunks_ok svs tys seg chunks \<and>
                   sum_list (map chunk_count (chunk_data seg)) = seg_count seg \<and>
                   seg_count seg = count c)))"

subsection \<open>Concrete list collections\<close>

text \<open>
  A batch of one column of lists of \<open>INT32\<close>, flat or constant (every row is the
  entry 0, the whole child vector), and the segment and the collection of that schema as
  they are after appends with \<open>STANDARD_VECTOR_SIZE = 2\<close>: the list vector followed by
  the vectors of its child chain. \<open>split_list_segment\<close> has two chunks, each with its
  list vector and the chain of that vector.
\<close>

definition list_column :: "cell list \<Rightarrow> int list \<Rightarrow> Vector" where
  "list_column entries xs =
     Vector (LIST (Scalar INT32)) \<lparr>sel = (\<lambda>i. i), data = (\<lambda>i. entries ! i), validity = None\<rparr>
       [int_column xs] (length xs)"

definition list_batch :: "cell list \<Rightarrow> int list \<Rightarrow> DataChunk" where
  "list_batch entries xs = \<lparr>chunk_vectors = [list_column entries xs], chunk_size = length entries\<rparr>"

definition constant_list_batch :: "int list \<Rightarrow> nat \<Rightarrow> DataChunk" where
  "constant_list_batch xs n =
     \<lparr>chunk_vectors =
        [Vector (LIST (Scalar INT32))
           \<lparr>sel = (\<lambda>i. 0), data = (\<lambda>i. ListEntry 0 (length xs)), validity = None\<rparr>
           [int_column xs] (length xs)],
      chunk_size = n\<rparr>"

definition int_slot :: "int list \<Rightarrow> nat option \<Rightarrow> VectorMetaData" where
  "int_slot xs next_idx =
     \<lparr>vcount = length xs, child_index = None, next_data = next_idx,
      vdata = map Fixed xs @ replicate (2 - length xs) Uninit, vvalidity = [True, True]\<rparr>"

definition list_slot :: "nat \<Rightarrow> nat \<Rightarrow> cell list \<Rightarrow> VectorMetaData" where
  "list_slot n ci entries =
     \<lparr>vcount = n, child_index = Some ci, next_data = None,
      vdata = entries, vvalidity = [True, True]\<rparr>"

definition list_segment ::
  "nat \<Rightarrow> cell list \<Rightarrow> VectorMetaData list \<Rightarrow> ColumnDataCollectionSegment" where
  "list_segment n entries children =
     \<lparr>seg_types = [LIST (Scalar INT32)], seg_count = n,
      chunk_data = [\<lparr>chunk_vector_data = [0], chunk_count = n\<rparr>],
      vector_data = list_slot n 0 entries # children,
      child_indices = [Some 1], heap = []\<rparr>"

definition three_ints :: "VectorMetaData list" where
  "three_ints = [int_slot [1, 2] (Some 2), int_slot [3] None]"

definition split_list_segment :: ColumnDataCollectionSegment where
  "split_list_segment =
     \<lparr>seg_types = [LIST (Scalar INT32)], seg_count = 3,
      chunk_data = [\<lparr>chunk_vector_data = [0], chunk_count = 2\<rparr>,
                    \<lparr>chunk_vector_data = [3], chunk_count = 1\<rparr>],
      vector_data =
        [list_slot 2 0 [ListEntry 0 1, ListEntry 1 1], int_slot [1, 2] (Some 2), int_slot [3] None,
         list_slot 1 1 [ListEntry 2 1, Uninit], int_slot [1, 2] (Some 5), int_slot [3] None],
      child_indices = [Some 1, Some 4], heap = []\<rparr>"

definition list_collection :: "nat \<Rightarrow> ColumnDataCollectionSegment option list \<Rightarrow> ColumnDataCollection" where
  "list_collection n segs =
     \<lparr>types = [LIST (Scalar INT32)], count = n, segments = segs, finished_append = False,
      copy_functions = [ColumnDataCopyFunction CopyList [ColumnDataCopyFunction CopyStandard []]],
      allocator = 0\<rparr>"

text \<open>
  The valid entries of a stored list vector in row order, the positions of the child
  storage that an entry indexes, and the two properties that the specification states
  of the entries of a vector against a child storage of \<open>n\<close> values: no position is
  indexed twice, and every position is indexed.
\<close>

definition stored_entries :: "ColumnDataCollectionSegment \<Rightarrow> nat \<Rightarrow> cell list" where
  "stored_entries segment index =
     (let v = vector_data segment ! index
      in map (\<lambda>i. vdata v ! i) (filter (\<lambda>i. vvalidity v ! i) [0..<vcount v]))"

definition entry_indices :: "cell \<Rightarrow> nat list" where
  "entry_indices c = (case c of ListEntry offset len \<Rightarrow> [offset..<offset + len] | _ \<Rightarrow> [])"

definition no_overlap :: "cell list \<Rightarrow> bool" where
  "no_overlap entries = distinct (concat (map entry_indices entries))"

definition no_gap :: "cell list \<Rightarrow> nat \<Rightarrow> bool" where
  "no_gap entries n = list_all (\<lambda>k. k \<in> set (concat (map entry_indices entries))) [0..<n]"

subsection \<open>A concrete collection of structs\<close>

text \<open>
  A batch of one column of structs with one \<open>VARCHAR\<close> field, given by the selection
  and the validity of the struct vector and by the strings of its child vector, and the
  collection of that schema.
\<close>

definition string_column :: "string_t list \<Rightarrow> Vector" where
  "string_column xs =
     Vector (Scalar VARCHAR) \<lparr>sel = (\<lambda>i. i), data = (\<lambda>i. String (xs ! i)), validity = None\<rparr> [] 0"

definition name_batch :: "(nat \<Rightarrow> nat) \<Rightarrow> (nat \<Rightarrow> bool) \<Rightarrow> string_t list \<Rightarrow> nat \<Rightarrow> DataChunk" where
  "name_batch s valid xs n =
     \<lparr>chunk_vectors =
        [Vector (STRUCT [Scalar VARCHAR]) \<lparr>sel = s, data = (\<lambda>i. Uninit), validity = Some valid\<rparr>
           [string_column xs] 0],
      chunk_size = n\<rparr>"

definition name_collection :: "nat \<Rightarrow> ColumnDataCollectionSegment option list \<Rightarrow> ColumnDataCollection" where
  "name_collection n segs =
     \<lparr>types = [STRUCT [Scalar VARCHAR]], count = n, segments = segs, finished_append = False,
      copy_functions = [ColumnDataCopyFunction CopyStruct [ColumnDataCopyFunction CopyString []]],
      allocator = 0\<rparr>"




section \<open>Properties of the validity mask\<close>

subsection \<open>Loads, stores and the loops\<close>

lemma load_Inr: "a < length (arrays h) \<Longrightarrow> i < length (arrays h ! a) \<Longrightarrow> load h a i = Inr (arrays h ! a ! i)"
  by (simp add: load_def)

lemma store_Inr: "a < length (arrays h) \<Longrightarrow> i < length (arrays h ! a) \<Longrightarrow>
  store h a i v = Inr (h\<lparr>arrays := (arrays h)[a := (arrays h ! a)[i := v]]\<rparr>)"
  by (simp add: store_def)


lemma entry_lt: "i < cnt \<Longrightarrow> i div LENGTH('w::len) < EntryCount TYPE('w) cnt"
proof -
  assume a: "i < cnt"
  let ?L = "LENGTH('w)"
  have L: "0 < ?L" by simp
  have "?L * (i div ?L) \<le> i" by simp
  then have "?L * (i div ?L) + ?L \<le> cnt + (?L - 1)" using a L by linarith
  then have "?L * (Suc (i div ?L)) \<le> cnt + (?L - 1)" by simp
  then have "Suc (i div ?L) \<le> (cnt + (?L - 1)) div ?L"
    using L by (metis div_le_mono nonzero_mult_div_cancel_left less_numeral_extra(3))
  then show ?thesis by (simp add: EntryCount_def BITS_PER_VALUE_def)
qed


subsection \<open>Combine\<close>



subsection \<open>Resize\<close>

lemma Resize_copy_correct:
  assumes "nd < length (arrays h)" "vm < length (arrays h)" "nd \<noteq> vm"
    and "n \<le> length (arrays h ! vm)" "n \<le> length (arrays h ! nd)"
  shows "\<exists>h'. Resize_copy h nd vm i n = Inr h' \<and> buffers h' = buffers h \<and>
     length (arrays h') = length (arrays h) \<and>
     (\<forall>a. a \<noteq> nd \<longrightarrow> arrays h' ! a = arrays h ! a) \<and>
     length (arrays h' ! nd) = length (arrays h ! nd) \<and>
     (\<forall>j. j < i \<or> n \<le> j \<longrightarrow> arrays h' ! nd ! j = arrays h ! nd ! j) \<and>
     (\<forall>j. i \<le> j \<and> j < n \<longrightarrow> arrays h' ! nd ! j = arrays h ! vm ! j)"
  using assms
proof (induction h nd vm i n rule: Resize_copy.induct)
  case (1 h nd vm i n)
  show ?case
  proof (cases "i < n")
    case False
    then show ?thesis by (subst Resize_copy.simps) auto
  next
    case True
    let ?x = "arrays h ! vm ! i"
    let ?h' = "h\<lparr>arrays := (arrays h)[nd := (arrays h ! nd)[i := ?x]]\<rparr>"
    have l1: "load h vm i = Inr ?x" using 1(2-) True by (simp add: load_Inr)
    have s: "store h nd i ?x = Inr ?h'" using 1(2-) True by (simp add: store_Inr)
    have unf: "Resize_copy h nd vm i n = Resize_copy ?h' nd vm (Suc i) n"
      using True l1 s by (subst Resize_copy.simps) simp
    have IH: "\<exists>h'. Resize_copy ?h' nd vm (Suc i) n = Inr h' \<and> buffers h' = buffers ?h' \<and>
     length (arrays h') = length (arrays ?h') \<and>
     (\<forall>a. a \<noteq> nd \<longrightarrow> arrays h' ! a = arrays ?h' ! a) \<and>
     length (arrays h' ! nd) = length (arrays ?h' ! nd) \<and>
     (\<forall>j. j < Suc i \<or> n \<le> j \<longrightarrow> arrays h' ! nd ! j = arrays ?h' ! nd ! j) \<and>
     (\<forall>j. Suc i \<le> j \<and> j < n \<longrightarrow> arrays h' ! nd ! j = arrays ?h' ! vm ! j)"
      using 1(2-) True by (intro 1(1)[OF True l1 s]) auto
    then obtain h' where h': "Resize_copy ?h' nd vm (Suc i) n = Inr h'" "buffers h' = buffers ?h'"
     "length (arrays h') = length (arrays ?h')"
     "\<forall>a. a \<noteq> nd \<longrightarrow> arrays h' ! a = arrays ?h' ! a"
     "length (arrays h' ! nd) = length (arrays ?h' ! nd)"
     "\<forall>j. j < Suc i \<or> n \<le> j \<longrightarrow> arrays h' ! nd ! j = arrays ?h' ! nd ! j"
     "\<forall>j. Suc i \<le> j \<and> j < n \<longrightarrow> arrays h' ! nd ! j = arrays ?h' ! vm ! j"
      by blast
    have a: "\<forall>j. j < i \<or> n \<le> j \<longrightarrow> arrays h' ! nd ! j = arrays h ! nd ! j"
      using h'(6) 1(2-) True by auto
    have b: "\<forall>j. i \<le> j \<and> j < n \<longrightarrow> arrays h' ! nd ! j = arrays h ! vm ! j"
    proof (intro allI impI)
      fix j assume j: "i \<le> j \<and> j < n"
      show "arrays h' ! nd ! j = arrays h ! vm ! j"
      proof (cases "j = i")
        case True
        then show ?thesis using h'(6) 1(2-) j by auto
      next
        case False
        then show ?thesis using h'(7) 1(2-) j by auto
      qed
    qed
    show ?thesis unfolding unf using h'(1-5) a b 1(2-) by auto
  qed
qed

lemma Resize_fill_correct:
  assumes "nd < length (arrays h)" "n \<le> length (arrays h ! nd)"
  shows "\<exists>h'. Resize_fill h nd i n = Inr h' \<and> buffers h' = buffers h \<and>
     length (arrays h') = length (arrays h) \<and>
     (\<forall>a. a \<noteq> nd \<longrightarrow> arrays h' ! a = arrays h ! a) \<and>
     length (arrays h' ! nd) = length (arrays h ! nd) \<and>
     (\<forall>j. j < i \<or> n \<le> j \<longrightarrow> arrays h' ! nd ! j = arrays h ! nd ! j) \<and>
     (\<forall>j. i \<le> j \<and> j < n \<longrightarrow> arrays h' ! nd ! j = MAX_ENTRY)"
  using assms
proof (induction h nd i n rule: Resize_fill.induct)
  case (1 h nd i n)
  show ?case
  proof (cases "i < n")
    case False
    then show ?thesis by (subst Resize_fill.simps) auto
  next
    case True
    let ?h' = "h\<lparr>arrays := (arrays h)[nd := (arrays h ! nd)[i := MAX_ENTRY]]\<rparr>"
    have s: "store h nd i MAX_ENTRY = Inr ?h'" using 1(2-) True by (simp add: store_Inr)
    have unf: "Resize_fill h nd i n = Resize_fill ?h' nd (Suc i) n"
      using True s by (subst Resize_fill.simps) simp
    have IH: "\<exists>h'. Resize_fill ?h' nd (Suc i) n = Inr h' \<and> buffers h' = buffers ?h' \<and>
     length (arrays h') = length (arrays ?h') \<and>
     (\<forall>a. a \<noteq> nd \<longrightarrow> arrays h' ! a = arrays ?h' ! a) \<and>
     length (arrays h' ! nd) = length (arrays ?h' ! nd) \<and>
     (\<forall>j. j < Suc i \<or> n \<le> j \<longrightarrow> arrays h' ! nd ! j = arrays ?h' ! nd ! j) \<and>
     (\<forall>j. Suc i \<le> j \<and> j < n \<longrightarrow> arrays h' ! nd ! j = MAX_ENTRY)"
      using 1(2-) True by (intro 1(1)[OF True s]) auto
    then obtain h' where h': "Resize_fill ?h' nd (Suc i) n = Inr h'" "buffers h' = buffers ?h'"
     "length (arrays h') = length (arrays ?h')"
     "\<forall>a. a \<noteq> nd \<longrightarrow> arrays h' ! a = arrays ?h' ! a"
     "length (arrays h' ! nd) = length (arrays ?h' ! nd)"
     "\<forall>j. j < Suc i \<or> n \<le> j \<longrightarrow> arrays h' ! nd ! j = arrays ?h' ! nd ! j"
     "\<forall>j. Suc i \<le> j \<and> j < n \<longrightarrow> arrays h' ! nd ! j = MAX_ENTRY"
      by blast
    have a: "\<forall>j. j < i \<or> n \<le> j \<longrightarrow> arrays h' ! nd ! j = arrays h ! nd ! j"
      using h'(6) 1(2-) True by auto
    have b: "\<forall>j. i \<le> j \<and> j < n \<longrightarrow> arrays h' ! nd ! j = MAX_ENTRY"
    proof (intro allI impI)
      fix j assume j: "i \<le> j \<and> j < n"
      show "arrays h' ! nd ! j = MAX_ENTRY"
      proof (cases "j = i")
        case True
        then show ?thesis using h'(6) 1(2-) j by auto
      next
        case False
        then show ?thesis using h'(7) 1(2-) j by auto
      qed
    qed
    show ?thesis unfolding unf using h'(1-5) a b 1(2-) by auto
  qed
qed

lemma EntryCount_mono: "a \<le> b \<Longrightarrow> EntryCount w a \<le> EntryCount w b"
  by (simp add: EntryCount_def div_le_mono)

lemma size_le_entries: "cnt \<le> EntryCount TYPE('w::len) cnt * LENGTH('w)"
proof (cases cnt)
  case 0
  then show ?thesis by simp
next
  case (Suc k)
  have "k div LENGTH('w) < EntryCount TYPE('w) cnt" using Suc by (intro entry_lt) simp
  then have "k < EntryCount TYPE('w) cnt * LENGTH('w)"
    by (simp add: div_less_iff_less_mult)
  then show ?thesis using Suc by simp
qed

text \<open>
  Claim C8, as the code has it. Let \<open>old_size \<le> new_size\<close>, and let the mask be the
  all-valid sentinel or own an array with a word for each of \<open>old_size\<close> rows. Then
  \<open>Resize(old_size, new_size)\<close> returns; on the sentinel it changes nothing; every row
  below \<open>old_size\<close> keeps its validity, and so does every other row of the words that
  were copied (the rows below \<open>EntryCount(old_size) * BITS_PER_VALUE\<close>); every row from
  that word boundary up to \<open>new_size\<close> is valid. The array that the mask had is
  released: no word of it can be read afterwards, so a mask that shares it reads a fault
  and no row. Every other array is as it was.
\<close>

theorem Resize_rows:
  fixes h :: "'w::len heap"
  assumes le: "old_size \<le> new_size" and own: "owns h m old_size"
  shows "\<exists>h' m'. Resize h m old_size new_size = Inr (h', m') \<and>
     (AllValid m \<longrightarrow> h' = h \<and> m' = m) \<and>
     (\<forall>i < old_size. RowIsValid h' m' i = RowIsValid h m i) \<and>
     (\<forall>i < EntryCount TYPE('w) old_size * BITS_PER_VALUE TYPE('w).
         RowIsValid h' m' i = RowIsValid h m i) \<and>
     (\<forall>i. EntryCount TYPE('w) old_size * BITS_PER_VALUE TYPE('w) \<le> i \<and> i < new_size \<longrightarrow>
         RowIsValid h' m' i = Inr True) \<and>
     (\<forall>a. validity_mask m = Some a \<longrightarrow> (\<forall>i. load h' a i = Inl OutOfBounds)) \<and>
     (\<forall>a<length (arrays h). validity_mask m \<noteq> Some a \<longrightarrow> arrays h' ! a = arrays h ! a)"
proof (cases "validity_mask m")
  case None
  then have "Resize h m old_size new_size = Inr (h, m)" by (simp add: Resize_def)
  then show ?thesis using None by (simp add: RowIsValid_def)
next
  case (Some vm)
  let ?L = "LENGTH('w)"
  let ?n = "EntryCount TYPE('w) new_size" and ?o = "EntryCount TYPE('w) old_size"
  let ?nd = "length (arrays h)"
  let ?h1 = "h\<lparr>arrays := arrays h @ [replicate ?n 0]\<rparr>"
  obtain b where b: "validity_data m = Some b" "b < length (buffers h)" "buffers h ! b = vm"
    and vm: "vm < ?nd" "?o \<le> length (arrays h ! vm)"
    using own Some by (auto simp: owns_def split: option.splits)
  have on: "?o \<le> ?n" using le by (rule EntryCount_mono)
  have "\<exists>h'. Resize_copy ?h1 ?nd vm 0 ?o = Inr h' \<and> buffers h' = buffers ?h1 \<and>
     length (arrays h') = length (arrays ?h1) \<and>
     (\<forall>a. a \<noteq> ?nd \<longrightarrow> arrays h' ! a = arrays ?h1 ! a) \<and>
     length (arrays h' ! ?nd) = length (arrays ?h1 ! ?nd) \<and>
     (\<forall>j. j < 0 \<or> ?o \<le> j \<longrightarrow> arrays h' ! ?nd ! j = arrays ?h1 ! ?nd ! j) \<and>
     (\<forall>j. 0 \<le> j \<and> j < ?o \<longrightarrow> arrays h' ! ?nd ! j = arrays ?h1 ! vm ! j)"
    using vm on by (intro Resize_copy_correct) (auto simp: nth_append)
  then obtain h2 where h2: "Resize_copy ?h1 ?nd vm 0 ?o = Inr h2" "buffers h2 = buffers h"
     "length (arrays h2) = Suc ?nd"
     "\<forall>a. a \<noteq> ?nd \<longrightarrow> arrays h2 ! a = arrays ?h1 ! a"
     "length (arrays h2 ! ?nd) = ?n"
     "\<forall>j. j < ?o \<longrightarrow> arrays h2 ! ?nd ! j = arrays h ! vm ! j"
    using vm by (auto simp: nth_append)
  have "\<exists>h'. Resize_fill h2 ?nd ?o ?n = Inr h' \<and> buffers h' = buffers h2 \<and>
     length (arrays h') = length (arrays h2) \<and>
     (\<forall>a. a \<noteq> ?nd \<longrightarrow> arrays h' ! a = arrays h2 ! a) \<and>
     length (arrays h' ! ?nd) = length (arrays h2 ! ?nd) \<and>
     (\<forall>j. j < ?o \<or> ?n \<le> j \<longrightarrow> arrays h' ! ?nd ! j = arrays h2 ! ?nd ! j) \<and>
     (\<forall>j. ?o \<le> j \<and> j < ?n \<longrightarrow> arrays h' ! ?nd ! j = MAX_ENTRY)"
    using h2(3,5) by (intro Resize_fill_correct) auto
  then obtain h3 where h3: "Resize_fill h2 ?nd ?o ?n = Inr h3" "buffers h3 = buffers h"
     "length (arrays h3) = Suc ?nd"
     "\<forall>a. a \<noteq> ?nd \<longrightarrow> arrays h3 ! a = arrays h2 ! a"
     "length (arrays h3 ! ?nd) = ?n"
     "\<forall>j. j < ?o \<longrightarrow> arrays h3 ! ?nd ! j = arrays h ! vm ! j"
     "\<forall>j. ?o \<le> j \<and> j < ?n \<longrightarrow> arrays h3 ! ?nd ! j = MAX_ENTRY"
    using h2(2,3,5,6) by auto
  let ?h' = "(delete_array h3 vm)\<lparr>buffers := (buffers h3)[b := ?nd]\<rparr>"
  let ?m' = "m\<lparr>validity_mask := Some ?nd\<rparr>"
  have r: "Resize h m old_size new_size = Inr (?h', ?m')"
    using Some b h2(1) h3(1,2) by (simp add: Resize_def new_array_def Let_def)
  have new: "arrays ?h' ! ?nd = arrays h3 ! ?nd" "length (arrays ?h') = Suc ?nd"
    using vm(1) h3(3) by (simp_all add: delete_array_def)
  have old: "\<forall>a<?nd. a \<noteq> vm \<longrightarrow> arrays ?h' ! a = arrays h ! a"
    using h3(4) h2(4) by (auto simp: nth_append delete_array_def)
  have gone: "\<forall>i. load ?h' vm i = Inl OutOfBounds"
    using vm(1) h3(3) by (simp add: load_def delete_array_def)
  have low: "RowIsValid ?h' ?m' i = RowIsValid h m i" if i: "i < ?o * ?L" for i
  proof -
    have e: "i div ?L < ?o" using i by (simp add: less_mult_imp_div_less)
    then show ?thesis using Some vm h3(5,6) new on
      by (simp add: RowIsValid_def load_def BITS_PER_VALUE_def)
  qed
  have high: "RowIsValid ?h' ?m' i = Inr True" if i: "?o * ?L \<le> i" "i < new_size" for i
  proof -
    have e1: "?o \<le> i div ?L" using i(1) by (simp add: less_eq_div_iff_mult_less_eq)
    have e2: "i div ?L < ?n" using i(2) by (rule entry_lt)
    have "arrays h3 ! ?nd ! (i div ?L) = MAX_ENTRY" using h3(7) e1 e2 by blast
    then show ?thesis using e2 h3(5) new
      by (simp add: RowIsValid_def load_def BITS_PER_VALUE_def MAX_ENTRY_def bit_not_iff)
  qed
  have below: "RowIsValid ?h' ?m' i = RowIsValid h m i" if i: "i < old_size" for i
    using low [of i] i size_le_entries [of old_size, where 'w = 'w] by simp
  show ?thesis unfolding r using Some low high old below gone
    by (auto simp: AllValid_def BITS_PER_VALUE_def)
qed

text \<open>
  Whole words are copied, so a row between \<open>old_size\<close> and the next word boundary
  keeps the bit it had: with row 1 invalid in a mask resized from 1 row to 2 rows, the
  newly added row 1 is invalid afterwards.
\<close>

theorem Resize_new_row_counterexample:
  "(1::nat) \<le> 2 \<and>
   Resize rz_heap rz_mask 1 2 =
     Inr (\<lparr>arrays = [[], [NOT 2]], buffers = [1]\<rparr>,
          \<lparr>validity_mask = Some 1, validity_data = Some 0\<rparr>) \<and>
   RowIsValid \<lparr>arrays = [[], [NOT 2 :: 64 word]], buffers = [1]\<rparr>
      \<lparr>validity_mask = Some 1, validity_data = Some 0\<rparr> 1 = Inr False"
  by code_simp

theorem Resize_rows_witness:
  "(1::nat) \<le> 70 \<and> owns rz_heap rz_mask 1 \<and>
   (\<exists>h' m'. Resize rz_heap rz_mask 1 70 = Inr (h', m') \<and>
      RowIsValid h' m' 0 = Inr True \<and> RowIsValid h' m' 1 = Inr False \<and>
      RowIsValid h' m' 69 = Inr True \<and>
      RowIsValid h' (Initialize_other rz_mask) 0 = Inl OutOfBounds)"
proof -
  have le: "(1::nat) \<le> 70" by simp
  have own: "owns rz_heap rz_mask 1"
    by (simp add: owns_def rz_heap_def rz_mask_def EntryCount_def BITS_PER_VALUE_def)
  have e: "EntryCount TYPE(64) 1 * BITS_PER_VALUE TYPE(64) = 64"
    by (simp add: EntryCount_def BITS_PER_VALUE_def)
  have r0: "RowIsValid rz_heap rz_mask 0 = Inr True" and r1: "RowIsValid rz_heap rz_mask 1 = Inr False"
    by (simp_all add: RowIsValid_def rz_heap_def rz_mask_def load_def BITS_PER_VALUE_def)
  have vm: "validity_mask rz_mask = Some 0" by (simp add: rz_mask_def)
  from Resize_rows [OF le own] obtain h' m' where
    r: "Resize rz_heap rz_mask 1 70 = Inr (h', m')"
    and low: "\<forall>i < 1. RowIsValid h' m' i = RowIsValid rz_heap rz_mask i"
    and word: "\<forall>i < EntryCount TYPE(64) 1 * BITS_PER_VALUE TYPE(64).
         RowIsValid h' m' i = RowIsValid rz_heap rz_mask i"
    and high: "\<forall>i. EntryCount TYPE(64) 1 * BITS_PER_VALUE TYPE(64) \<le> i \<and> i < 70 \<longrightarrow>
         RowIsValid h' m' i = Inr True"
    and gone: "\<forall>a. validity_mask rz_mask = Some a \<longrightarrow> (\<forall>i. load h' a i = Inl OutOfBounds)"
    by (elim exE conjE) (rule that)
  have a: "RowIsValid h' m' 0 = Inr True" using low r0 by simp
  have b: "RowIsValid h' m' 1 = Inr False" using word e r1 by simp
  have c: "RowIsValid h' m' 69 = Inr True" using high e by simp
  have d: "RowIsValid h' (Initialize_other rz_mask) 0 = Inl OutOfBounds"
    using gone vm by (simp add: RowIsValid_def Initialize_other_def)
  have "\<exists>h' m'. Resize rz_heap rz_mask 1 70 = Inr (h', m') \<and>
      RowIsValid h' m' 0 = Inr True \<and> RowIsValid h' m' 1 = Inr False \<and>
      RowIsValid h' m' 69 = Inr True \<and>
      RowIsValid h' (Initialize_other rz_mask) 0 = Inl OutOfBounds"
    by (rule exI[of _ h'], rule exI[of _ m']) (intro conjI r a b c d)
  then show ?thesis by (intro conjI le own)
qed

subsection \<open>Slice\<close>

text \<open>
  Claim C3 at a concrete mask: 2048 rows, only row 64 invalid, sliced at offset 64. Row 0
  of the slice should read as row 64 of the mask, which is invalid; the code computes
  \<open>entire_units = 1\<close> and \<open>sub_units = 64 - 1 % 64 = 63\<close>, shifts by 63 bits
  more, and row 0 of the result is valid.
\<close>

theorem Slice_offset_64_row_0:
  "RowIsValid slice_heap slice_other (0 + 64) = Inr False \<and>
   (case Slice 2048 slice_heap slice_self slice_other 64 of
      Inr (h', m') \<Rightarrow> RowIsValid h' m' 0
    | Inl e \<Rightarrow> Inl e) = Inr True"
  by code_simp

text \<open>The two fast paths of \<open>Slice\<close> do what the claim says of them.\<close>

lemma Slice_fast_paths:
  "AllValid other \<Longrightarrow> \<exists>m'. Slice svs h self other k = Inr (h, m') \<and> AllValid m'"
  "\<not> AllValid other \<Longrightarrow> Slice svs h self other 0 = Inr (h, other)"
  by (auto simp: Slice_def AllValid_def Initialize_other_def)

section \<open>Properties of the collection\<close>

text \<open>
  Claim C10. For every collection, \<open>ChunkCount()\<close> throws an internal exception; it never
  returns a count.
\<close>

theorem ChunkCount_throws: "ChunkCount c = Inl (InternalException ''FIXME: chunk count'')"
  by (simp add: ChunkCount_def)

subsection \<open>Appending to a finished collection\<close>

text \<open>
  Claim C7, as the code has it. Constructing a collection from another one marks the
  other one as finished. In a build that compiles \<open>D_ASSERT\<close> in, every way of
  appending to a finished collection (\<open>InitializeAppend\<close> and both overloads of
  \<open>Append\<close>) stops with a failed assertion.
\<close>

theorem use_after_finished_debug:
  "(ColumnDataCollection_from other = Inr (this, other') \<longrightarrow> finished_append other') \<and>
   (finished_append c \<longrightarrow>
      InitializeAppend True svs c state = Inl AssertionFailed \<and>
      Append True svs c state input = Some (Inl AssertionFailed) \<and>
      Append_chunk True svs c input = Some (Inl AssertionFailed))"
  by (auto simp: ColumnDataCollection_from_def InitializeAppend_def Append_def Append_chunk_def
        D_ASSERT_def split: sum.splits)

text \<open>How the concrete collections come about.\<close>

lemma ex_new: "ColumnDataCollection_new 0 [Scalar INT32] = Inr (int_collection False 0 [])"
  by (simp add: ColumnDataCollection_new_def int_collection_def)

lemma ex_append: "Append_chunk True 2 (int_collection False 0 []) (int_batch [7]) =
    Some (Inr (int_collection False 1 [Some (int_segment [Fixed 7, Uninit] 1)]))"
  by code_simp

theorem use_after_finished_debug_witness:
  "ColumnDataCollection_from (int_collection False 1 [Some (int_segment [Fixed 7, Uninit] 1)]) =
     Inr (int_collection False 0 [],
          int_collection True 1 [Some (int_segment [Fixed 7, Uninit] 1)]) \<and>
   finished_append (int_collection True 1 [Some (int_segment [Fixed 7, Uninit] 1)]) \<and>
   Append_chunk True 2 (int_collection True 1 [Some (int_segment [Fixed 7, Uninit] 1)])
     (int_batch [8]) = Some (Inl AssertionFailed)"
proof -
  have a: "ColumnDataCollection_from (int_collection False 1 [Some (int_segment [Fixed 7, Uninit] 1)]) =
     Inr (int_collection False 0 [],
          int_collection True 1 [Some (int_segment [Fixed 7, Uninit] 1)])"
    by (simp add: ColumnDataCollection_from_def ColumnDataCollection_new_def int_collection_def)
  have b: "finished_append (int_collection True 1 [Some (int_segment [Fixed 7, Uninit] 1)])"
    using use_after_finished_debug [of "int_collection False 1 [Some (int_segment [Fixed 7, Uninit] 1)]"
        "int_collection False 0 []" "int_collection True 1 [Some (int_segment [Fixed 7, Uninit] 1)]"] a
    by simp
  from use_after_finished_debug [of _ _ _ "int_collection True 1 [Some (int_segment [Fixed 7, Uninit] 1)]" 2
       _ "int_batch [8]"] a b
  show ?thesis by simp
qed

text \<open>
  In a build that compiles \<open>D_ASSERT\<close> out, nothing checks the flag: appending a row to
  the collection that the constructor has just marked as finished succeeds and stores the
  row.
\<close>

theorem use_after_finished_release_counterexample:
  "ColumnDataCollection_from (int_collection False 1 [Some (int_segment [Fixed 7, Uninit] 1)]) =
     Inr (int_collection False 0 [],
          int_collection True 1 [Some (int_segment [Fixed 7, Uninit] 1)]) \<and>
   Append_chunk False 2 (int_collection True 1 [Some (int_segment [Fixed 7, Uninit] 1)])
     (int_batch [8]) =
     Some (Inr (int_collection True 2 [Some (int_segment [Fixed 7, Fixed 8] 2)]))"
  by code_simp

subsection \<open>Combine\<close>

text \<open>
  Claim C2 at two collections of one row each: after \<open>X.Combine(Y)\<close> the collection
  \<open>X\<close> has two rows in two segments, but \<open>Y\<close> still reports one row and its segment
  list still has one entry, a null pointer. This holds with and without assertions.
\<close>

theorem Combine_leaves_other:
  "ColumnDataCollection_Combine True
       (int_collection False 1 [Some (int_segment [Fixed 7, Uninit] 1)])
       (int_collection False 1 [Some (int_segment [Fixed 8, Uninit] 1)]) =
     Inr (int_collection False 2 [Some (int_segment [Fixed 7, Uninit] 1),
                                  Some (int_segment [Fixed 8, Uninit] 1)],
          int_collection False 1 [None]) \<and>
   ColumnDataCollection_Combine False
       (int_collection False 1 [Some (int_segment [Fixed 7, Uninit] 1)])
       (int_collection False 1 [Some (int_segment [Fixed 8, Uninit] 1)]) =
     Inr (int_collection False 2 [Some (int_segment [Fixed 7, Uninit] 1),
                                  Some (int_segment [Fixed 8, Uninit] 1)],
          int_collection False 1 [None]) \<and>
   Count (int_collection False 1 [None]) = 1 \<and>
   segments (int_collection False 1 [None]) = [None]"
  by code_simp

text \<open>
  In general: when \<open>Combine\<close> returns, this collection has the rows and the segments
  of both, in order, and \<open>other\<close> keeps its count and a list of null pointers; with
  different types \<open>Combine\<close> throws.
\<close>

lemma Combine_general:
  "ColumnDataCollection_Combine dbg this other = Inr (this', other') \<Longrightarrow>
     types this = types other \<and> count this' = count this + count other \<and>
     segments this' = segments this @ segments other \<and>
     count other' = count other \<and> segments other' = replicate (length (segments other)) None"
  by (auto simp: ColumnDataCollection_Combine_def Let_def map_replicate_const split: if_splits sum.splits)

lemma Combine_mismatch:
  "types this \<noteq> types other \<Longrightarrow> \<exists>msg. ColumnDataCollection_Combine dbg this other = Inl (InternalException msg)"
  by (simp add: ColumnDataCollection_Combine_def)

section \<open>Appending and scanning\<close>

subsection \<open>The bounded loops and the copy of the validity\<close>

lemma for_loop_rule:
  assumes "I i s" and "i \<le> n"
    and step: "\<And>k t. k < n \<Longrightarrow> I k t \<Longrightarrow> \<exists>t'. body k t = Inr t' \<and> I (Suc k) t'"
  shows "\<exists>s'. for_loop i n body s = Inr s' \<and> I n s'"
  using assms(1,2)
proof (induction "n - i" arbitrary: i s)
  case 0
  then have "i = n" by simp
  then show ?case using 0 by (subst for_loop.simps) simp
next
  case (Suc d)
  then have lt: "i < n" by simp
  from step[OF lt Suc.prems(1)] obtain t' where t': "body i s = Inr t'" "I (Suc i) t'" by auto
  have "\<exists>s'. for_loop (Suc i) n body t' = Inr s' \<and> I n s'"
  proof (rule Suc.hyps(1))
    show "d = n - Suc i" using Suc.hyps(2) by simp
    show "I (Suc i) t'" by fact
    show "Suc i \<le> n" using lt by simp
  qed
  then show ?case using lt t' by (subst for_loop.simps) simp
qed

lemma for_loop_r_rule:
  assumes "I i s" and "i \<le> n"
    and step: "\<And>k t. k < n \<Longrightarrow> I k t \<Longrightarrow> \<exists>t'. body k t = Some (Inr t') \<and> I (Suc k) t'"
  shows "\<exists>s'. for_loop_r i n body s = Some (Inr s') \<and> I n s'"
  using assms(1,2)
proof (induction "n - i" arbitrary: i s)
  case 0
  then have "i = n" by simp
  then show ?case using 0 by (subst for_loop_r.simps) simp
next
  case (Suc d)
  then have lt: "i < n" by simp
  from step[OF lt Suc.prems(1)] obtain t' where t': "body i s = Some (Inr t')" "I (Suc i) t'" by auto
  have "\<exists>s'. for_loop_r (Suc i) n body t' = Some (Inr s') \<and> I n s'"
  proof (rule Suc.hyps(1))
    show "d = n - Suc i" using Suc.hyps(2) by simp
    show "I (Suc i) t'" by fact
    show "Suc i \<le> n" using lt by simp
  qed
  then show ?case using lt t' by (subst for_loop_r.simps) simp
qed

lemma validity_AllValid_src_valid: "validity_AllValid sd \<Longrightarrow> src_valid sd k"
  by (simp add: validity_AllValid_def src_valid_def validity_RowIsValid_def)

lemma ColumnDataCopyValidity_correct:
  assumes len: "length target = svs" and fit: "c + n \<le> svs"
    and tail: "0 < c \<Longrightarrow> \<forall>j. c \<le> j \<and> j < svs \<longrightarrow> target ! j"
  shows "\<exists>m. ColumnDataCopyValidity svs sd target off c n = Inr m \<and> length m = svs \<and>
           (\<forall>j<c. m ! j = target ! j) \<and>
           (\<forall>i<n. m ! (c + i) = src_valid sd (off + i)) \<and>
           (\<forall>j. c + n \<le> j \<and> j < svs \<longrightarrow> m ! j)"
proof -
  define base where "base = (if c = 0 then replicate svs True else target)"
  have base: "(if c = 0 then SetAllValid target svs else Inr target) = Inr base"
    using len by (simp add: base_def SetAllValid_def)
  have blen: "length base = svs" using len by (simp add: base_def)
  have btail: "\<forall>j. c \<le> j \<and> j < svs \<longrightarrow> base ! j" using tail by (auto simp: base_def)
  have blow: "\<forall>j<c. base ! j = target ! j" by (simp add: base_def)
  show ?thesis
  proof (cases "validity_AllValid sd")
    case True
    then have "ColumnDataCopyValidity svs sd target off c n = Inr base"
      using base by (simp add: ColumnDataCopyValidity_def)
    then show ?thesis using blen btail blow True fit
      by (auto simp: validity_AllValid_src_valid)
  next
    case False
    let ?body = "\<lambda>i vmask. let idx = sel sd (off + i)
                 in if \<not> validity_RowIsValid sd idx
                    then SetInvalid vmask (c + i) else Inr vmask"
    let ?I = "\<lambda>k m. length m = svs \<and> (\<forall>j<c. m ! j = target ! j) \<and>
           (\<forall>i<k. m ! (c + i) = src_valid sd (off + i)) \<and>
           (\<forall>j. c + k \<le> j \<and> j < svs \<longrightarrow> m ! j)"
    have "\<exists>m. for_loop 0 n ?body base = Inr m \<and> ?I n m"
    proof (rule for_loop_rule)
      show "?I 0 base" using blen btail blow by simp
      show "0 \<le> n" by simp
    next
      fix k t assume k: "k < n" and I: "?I k t"
      show "\<exists>t'. ?body k t = Inr t' \<and> ?I (Suc k) t'"
      proof (cases "src_valid sd (off + k)")
        case True
        then have "?body k t = Inr t" by (simp add: src_valid_def)
        moreover have "?I (Suc k) t" using I True k fit
          by (auto simp: less_Suc_eq)
        ultimately show ?thesis by blast
      next
        case False
        have ck: "c + k < length t" using I k fit by simp
        then have "?body k t = Inr (t[c + k := False])" using False
          by (simp add: src_valid_def SetInvalid_def)
        moreover have "?I (Suc k) (t[c + k := False])" using I False k fit ck
          by (auto simp: less_Suc_eq nth_list_update)
        ultimately show ?thesis by blast
      qed
    qed
    then show ?thesis using False base by (auto simp: ColumnDataCopyValidity_def)
  qed
qed

subsection \<open>The copy of a flat column\<close>

lemma GetVectorData_Inr: "i < length (vector_data s) \<Longrightarrow> GetVectorData s i = Inr (vector_data s ! i)"
  by (simp add: GetVectorData_def)

lemma TemplatedColumnDataCopy_correct:
  assumes OP: "\<And>s c. cok c \<Longrightarrow>
                 \<exists>hs c'. OP meta s c = Inr (s\<lparr>heap := heap s @ hs\<rparr>, c') \<and> R (heap s @ hs) c c'"
    and mono: "\<And>h hs c c'. R h c c' \<Longrightarrow> R (h @ hs) c c'"
    and cok: "\<forall>i<n. src_valid sd (off + i) \<longrightarrow> cok (data sd (sel sd (off + i)))"
    and idx: "idx = vector_data_index meta" "idx < length (vector_data seg)"
    and v: "v = vector_data seg ! idx"
    and sizes: "length (vdata v) = svs" "length (vvalidity v) = svs" "vcount v + n \<le> svs"
    and tail: "0 < vcount v \<Longrightarrow> \<forall>j. vcount v \<le> j \<and> j < svs \<longrightarrow> vvalidity v ! j"
  shows "\<exists>hs v'. TemplatedColumnDataCopy svs OP meta sd off n seg =
            Inr (seg\<lparr>vector_data := (vector_data seg)[idx := v'], heap := heap seg @ hs\<rparr>) \<and>
      vcount v' = vcount v + n \<and> child_index v' = child_index v \<and> next_data v' = next_data v \<and>
      length (vdata v') = svs \<and> length (vvalidity v') = svs \<and>
      (\<forall>j<vcount v. vvalidity v' ! j = vvalidity v ! j \<and> vdata v' ! j = vdata v ! j) \<and>
      (\<forall>i<n. vvalidity v' ! (vcount v + i) = src_valid sd (off + i) \<and>
              (src_valid sd (off + i) \<longrightarrow>
                 R (heap seg @ hs) (data sd (sel sd (off + i))) (vdata v' ! (vcount v + i)))) \<and>
      (\<forall>j. vcount v + n \<le> j \<and> j < svs \<longrightarrow> vvalidity v' ! j)"
proof -
  let ?c = "vcount v"
  from ColumnDataCopyValidity_correct[OF sizes(2) sizes(3) tail, of sd off]
  obtain m where m: "ColumnDataCopyValidity svs sd (vvalidity v) off ?c n = Inr m" "length m = svs"
    "\<forall>j<?c. m ! j = vvalidity v ! j" "\<forall>i<n. m ! (?c + i) = src_valid sd (off + i)"
    "\<forall>j. ?c + n \<le> j \<and> j < svs \<longrightarrow> m ! j" by blast
  let ?body = "\<lambda>i segment.
                let source_idx = sel sd (off + i)
                in if validity_RowIsValid sd source_idx then
                     (case OP meta segment (data sd source_idx) of
                        Inl e \<Rightarrow> Inl e
                      | Inr (segment1, x) \<Rightarrow>
                          write_result_data segment1 (vector_data_index meta) (?c + i) x)
                   else Inr segment"
  let ?I = "\<lambda>k s. \<exists>hs d. s = seg\<lparr>vector_data := (vector_data seg)[idx := v\<lparr>vvalidity := m, vdata := d\<rparr>],
                              heap := heap seg @ hs\<rparr> \<and>
        length d = svs \<and> (\<forall>j<?c. d ! j = vdata v ! j) \<and>
        (\<forall>i<k. src_valid sd (off + i) \<longrightarrow> R (heap seg @ hs) (data sd (sel sd (off + i))) (d ! (?c + i)))"
  let ?s0 = "SetVectorData seg (vector_data_index meta) (v\<lparr>vvalidity := m\<rparr>)"
  have "\<exists>s'. for_loop 0 n ?body ?s0 = Inr s' \<and> ?I n s'"
  proof (rule for_loop_rule)
    have "?s0 = seg\<lparr>vector_data := (vector_data seg)[idx := v\<lparr>vvalidity := m, vdata := vdata v\<rparr>],
                     heap := heap seg @ []\<rparr>"
      using idx by (simp add: SetVectorData_def)
    moreover have "length (vdata v) = svs \<and> (\<forall>j<?c. vdata v ! j = vdata v ! j) \<and>
        (\<forall>i<0. src_valid sd (off + i) \<longrightarrow> R (heap seg @ []) (data sd (sel sd (off + i))) (vdata v ! (?c + i)))"
      using sizes by simp
    ultimately show "?I 0 ?s0" by blast
    show "0 \<le> n" by simp
  next
    fix k t assume k: "k < n" and I: "?I k t"
    then obtain hs d where t: "t = seg\<lparr>vector_data := (vector_data seg)[idx := v\<lparr>vvalidity := m, vdata := d\<rparr>],
                                      heap := heap seg @ hs\<rparr>"
      and d: "length d = svs" "\<forall>j<?c. d ! j = vdata v ! j"
        "\<forall>i<k. src_valid sd (off + i) \<longrightarrow> R (heap seg @ hs) (data sd (sel sd (off + i))) (d ! (?c + i))"
      by (elim exE conjE) (rule that)
    show "\<exists>t'. ?body k t = Inr t' \<and> ?I (Suc k) t'"
    proof (cases "src_valid sd (off + k)")
      case False
      then have "?body k t = Inr t" by (simp add: src_valid_def)
      moreover have "?I (Suc k) t" using t d False by (auto simp: less_Suc_eq)
      ultimately show ?thesis by blast
    next
      case True
      let ?x = "data sd (sel sd (off + k))"
      have ht: "heap t = heap seg @ hs" using t by simp
      have "cok ?x" using cok k True by blast
      from OP[OF this, of t] obtain hs' x' where
        h': "OP meta t ?x = Inr (t\<lparr>heap := heap t @ hs'\<rparr>, x')" and R': "R (heap t @ hs') ?x x'"
        by (elim exE conjE) (rule that)
      let ?d' = "d[?c + k := x']"
      let ?t' = "seg\<lparr>vector_data := (vector_data seg)[idx := v\<lparr>vvalidity := m, vdata := ?d'\<rparr>],
                     heap := heap seg @ (hs @ hs')\<rparr>"
      have pos: "?c + k < length d" using d k sizes by simp
      have "write_result_data (t\<lparr>heap := heap t @ hs'\<rparr>) (vector_data_index meta) (?c + k) x' = Inr ?t'"
        using t idx pos by (simp add: write_result_data_def GetVectorData_def SetVectorData_def)
      then have "?body k t = Inr ?t'" using True h' by (simp add: src_valid_def)
      moreover have "?I (Suc k) ?t'"
      proof -
        have "length ?d' = svs" using d by simp
        moreover have "\<forall>j<?c. ?d' ! j = vdata v ! j" using d by simp
        moreover have "\<forall>i<Suc k. src_valid sd (off + i) \<longrightarrow>
                         R (heap seg @ (hs @ hs')) (data sd (sel sd (off + i))) (?d' ! (?c + i))"
        proof (intro allI impI)
          fix i assume i: "i < Suc k" and sv: "src_valid sd (off + i)"
          show "R (heap seg @ (hs @ hs')) (data sd (sel sd (off + i))) (?d' ! (?c + i))"
          proof (cases "i = k")
            case True
            then show ?thesis using R' ht pos by simp
          next
            case False
            then have "i < k" using i by simp
            then have "R (heap seg @ hs) (data sd (sel sd (off + i))) (d ! (?c + i))" using d(3) sv by blast
            from mono[OF this, of hs'] show ?thesis using False by simp
          qed
        qed
        ultimately show ?thesis by blast
      qed
      ultimately show ?thesis by blast
    qed
  qed
  then obtain hs d where s': "for_loop 0 n ?body ?s0 =
       Inr (seg\<lparr>vector_data := (vector_data seg)[idx := v\<lparr>vvalidity := m, vdata := d\<rparr>],
                heap := heap seg @ hs\<rparr>)"
    and d: "length d = svs" "\<forall>j<?c. d ! j = vdata v ! j"
        "\<forall>i<n. src_valid sd (off + i) \<longrightarrow> R (heap seg @ hs) (data sd (sel sd (off + i))) (d ! (?c + i))"
    by (elim exE conjE) (rule that, simp_all)
  let ?v' = "v\<lparr>vvalidity := m, vdata := d, vcount := ?c + n\<rparr>"
  have "TemplatedColumnDataCopy svs OP meta sd off n seg =
            Inr (seg\<lparr>vector_data := (vector_data seg)[idx := ?v'], heap := heap seg @ hs\<rparr>)"
  proof -
    have g1: "GetVectorData seg (vector_data_index meta) = Inr v"
      using idx v by (simp add: GetVectorData_def)
    have g2: "GetVectorData (seg\<lparr>vector_data := (vector_data seg)[idx := v\<lparr>vvalidity := m, vdata := d\<rparr>],
                                 heap := heap seg @ hs\<rparr>)
                (vector_data_index meta) = Inr (v\<lparr>vvalidity := m, vdata := d\<rparr>)"
      using idx by (simp add: GetVectorData_def)
    show ?thesis
      unfolding TemplatedColumnDataCopy_def g1 sum.case m(1) s' g2
      using idx by (simp add: SetVectorData_def)
  qed
  moreover have "vcount ?v' = ?c + n \<and> child_index ?v' = child_index v \<and> next_data ?v' = next_data v \<and>
      length (vdata ?v') = svs \<and> length (vvalidity ?v') = svs" using d m by simp
  moreover have "\<forall>j<?c. vvalidity ?v' ! j = vvalidity v ! j \<and> vdata ?v' ! j = vdata v ! j"
    using d m by simp
  moreover have "\<forall>i<n. vvalidity ?v' ! (?c + i) = src_valid sd (off + i) \<and>
              (src_valid sd (off + i) \<longrightarrow> R (heap seg @ hs) (data sd (sel sd (off + i))) (vdata ?v' ! (?c + i)))"
    using d m by simp
  moreover have "\<forall>j. ?c + n \<le> j \<and> j < svs \<longrightarrow> vvalidity ?v' ! j" using m by simp
  ultimately show ?thesis by blast
qed

subsection \<open>Reading what is stored\<close>

lemma collect_Inr_D:
  "collect xs = Inr ys \<Longrightarrow> length ys = length xs \<and> (\<forall>i<length xs. xs ! i = Inr (ys ! i))"
proof (induction xs arbitrary: ys)
  case Nil
  then show ?case by simp
next
  case (Cons x xs)
  from Cons.prems obtain y zs where x: "x = Inr y" and zs: "collect xs = Inr zs" and ys: "ys = y # zs"
    by (auto split: sum.splits)
  from Cons.IH[OF zs] show ?case using x ys by (auto simp: nth_Cons split: nat.splits)
qed

lemma collect_Inr_I:
  "length ys = length xs \<Longrightarrow> \<forall>i<length xs. xs ! i = Inr (ys ! i) \<Longrightarrow> collect xs = Inr ys"
proof (induction ys xs rule: list_induct2)
  case Nil
  then show ?case by simp
next
  case (Cons y ys x xs)
  have "x = Inr y" using Cons.prems by auto
  moreover have "\<forall>i<length xs. xs ! i = Inr (ys ! i)" using Cons.prems by auto
  then have "collect xs = Inr ys" by (rule Cons.IH)
  ultimately show ?case by simp
qed

lemma collect_Inr_iff:
  "collect xs = Inr ys \<longleftrightarrow> length ys = length xs \<and> (\<forall>i<length xs. xs ! i = Inr (ys ! i))"
  using collect_Inr_D collect_Inr_I by blast

lemma read_rows_Inr_iff:
  "read_rows v f = Inr rows \<longleftrightarrow>
     vcount v \<le> length (vdata v) \<and> vcount v \<le> length (vvalidity v) \<and> length rows = vcount v \<and>
     (\<forall>i<vcount v. (if vvalidity v ! i then f i (vdata v ! i) else Inr Null) = Inr (rows ! i))"
  by (auto simp: read_rows_def collect_Inr_iff)

lemma length_vector_rows [simp]: "length (vector_rows ty v off n) = n"
  by (cases ty) (simp_all add: Let_def)

lemma stored_basic:
  assumes "stored svs ty seg idx F rows"
  shows "idx < length (vector_data seg)" "slot_ok svs (vector_data seg ! idx)"
    "length rows = vcount (vector_data seg ! idx)" "idx \<in> F"
  using assms
  by (cases ty; auto simp: read_rows_Inr_iff split: option.splits)+

lemma chain_subset:
  assumes "chain svs pool P x F rows" and "\<And>y Fy r. P y Fy r \<Longrightarrow> Fy \<subseteq> A"
  shows "F \<subseteq> A"
  using assms by (induction rule: chain.induct) auto

lemma stored_subset: "stored svs ty seg idx F rows \<Longrightarrow> F \<subseteq> {..<length (vector_data seg)}"
proof (induction ty arbitrary: idx F rows)
  case (Scalar p)
  then show ?case by simp
next
  case (STRUCT tys)
  show ?case
  proof (cases "child_index (vector_data seg ! idx)")
    case None
    then show ?thesis using STRUCT.prems by simp
  next
    case (Some base)
    with STRUCT.prems obtain cs Fs rs where
      l: "length cs = length tys" "length Fs = length tys" "length rs = length tys"
      and ch: "\<forall>k<length tys. stored svs (tys ! k) seg (cs ! k) (Fs ! k) (rs ! k)"
      and F: "F = insert idx (\<Union>(set Fs))" and idx: "idx < length (vector_data seg)"
      by auto
    have "\<Union>(set Fs) \<subseteq> {..<length (vector_data seg)}"
    proof
      fix x assume "x \<in> \<Union>(set Fs)"
      then obtain k where k: "k < length Fs" "x \<in> Fs ! k" by (auto simp: in_set_conv_nth)
      then have "stored svs (tys ! k) seg (cs ! k) (Fs ! k) (rs ! k)" using ch l by simp
      moreover have "tys ! k \<in> set tys" using k l by simp
      ultimately have "Fs ! k \<subseteq> {..<length (vector_data seg)}" using STRUCT.IH by blast
      then show "x \<in> {..<length (vector_data seg)}" using k by blast
    qed
    then show ?thesis using F idx by auto
  qed
next
  case (LIST ty)
  show ?case
  proof (cases "child_index (vector_data seg ! idx)")
    case None
    then show ?thesis using LIST.prems by simp
  next
    case (Some ci)
    with LIST.prems obtain root Fc elems where
      c: "chain svs (vector_data seg) (stored svs ty seg) root Fc elems"
      and F: "F = insert idx Fc" and idx: "idx < length (vector_data seg)"
      by auto
    have "Fc \<subseteq> {..<length (vector_data seg)}"
      using c LIST.IH by (rule chain_subset)
    then show ?thesis using F idx by auto
  qed
qed

lemma chain_frame:
  assumes "chain svs pool P x F rows"
    and PQ: "\<And>y Fy r. P y Fy r \<Longrightarrow> Fy \<subseteq> F \<Longrightarrow> Q y Fy r"
    and mem: "\<And>y Fy r. P y Fy r \<Longrightarrow> y \<in> Fy"
    and same: "\<forall>i\<in>F. pool' ! i = pool ! i" and len: "length pool \<le> length pool'"
  shows "chain svs pool' Q x F rows"
  using assms
proof (induction rule: chain.induct)
  case (chain_last x F rows)
  have "x \<in> F" using chain_last.hyps(1) chain_last.prems(2) by blast
  then have "pool' ! x = pool ! x" using chain_last.prems(3) by blast
  then show ?case using chain_last by (auto intro!: chain.chain_last)
next
  case (chain_cons x F rows y F' rows')
  have "x \<in> F" using chain_cons.hyps(1) chain_cons.prems(2) by blast
  then have x: "pool' ! x = pool ! x" using chain_cons.prems(3) by blast
  have q: "Q x F rows" using chain_cons.hyps(1) chain_cons.prems(1) by blast
  have "chain svs pool' Q y F' rows'"
  proof (rule chain_cons.IH)
    show "\<And>y Fy r. P y Fy r \<Longrightarrow> Fy \<subseteq> F' \<Longrightarrow> Q y Fy r"
      using chain_cons.prems(1) by (meson le_supI2)
    show "\<And>y Fy r. P y Fy r \<Longrightarrow> y \<in> Fy" using chain_cons.prems(2) .
    show "\<forall>i\<in>F'. pool' ! i = pool ! i" using chain_cons.prems(3) by blast
    show "length pool \<le> length pool'" by fact
  qed
  then show ?case using chain_cons.hyps x q chain_cons.prems(4)
    by (auto intro!: chain.chain_cons)
qed

lemma take_prefixD:
  assumes "take (length a) b = a"
  shows "length a \<le> length b" "\<And>j. j < length a \<Longrightarrow> b ! j = a ! j"
proof -
  have "length (take (length a) b) = length a" using assms by simp
  then show "length a \<le> length b" by simp
  fix j assume "j < length a"
  then have "take (length a) b ! j = b ! j" by simp
  then show "b ! j = a ! j" using assms by simp
qed

lemma read_string_mono:
  assumes "read_string h s = Inr x" "take (length h) h' = h"
  shows "read_string h' s = Inr x"
proof (cases s)
  case (InHeap i)
  then have i: "i < length h" "x = h ! i" using assms(1) by (auto split: if_splits)
  from take_prefixD[OF assms(2)] i have "i < length h'" "h' ! i = h ! i" by auto
  then show ?thesis using InHeap i by simp
qed (use assms in auto)

lemma read_cell_mono:
  assumes "read_cell h c = Inr x" "take (length h) h' = h"
  shows "read_cell h' c = Inr x"
proof (cases c)
  case (String s)
  then obtain b where b: "read_string h s = Inr b" "x = StringValue b"
    using assms(1) by (auto simp: read_cell_def split: sum.splits)
  from read_string_mono[OF b(1) assms(2)] show ?thesis using String b by (simp add: read_cell_def)
qed (use assms in \<open>auto simp: read_cell_def\<close>)

lemma read_cell_app: "read_cell h c = Inr x \<Longrightarrow> read_cell (h @ hs) c = Inr x"
  by (erule read_cell_mono) simp

lemma read_rows_mono:
  assumes "read_rows v f = Inr rows" and "\<And>i c x. f i c = Inr x \<Longrightarrow> f' i c = Inr x"
  shows "read_rows v f' = Inr rows"
  using assms unfolding read_rows_Inr_iff by (auto split: if_splits)

lemma stored_frame:
  assumes "stored svs ty seg idx F rows"
    and "\<forall>i\<in>F. vector_data seg' ! i = vector_data seg ! i"
    and "length (vector_data seg) \<le> length (vector_data seg')"
    and "take (length (child_indices seg)) (child_indices seg') = child_indices seg"
    and "take (length (heap seg)) (heap seg') = heap seg"
  shows "stored svs ty seg' idx F rows"
  using assms
proof (induction ty arbitrary: idx F rows)
  case (Scalar p)
  have rr: "read_rows (vector_data seg ! idx) (\<lambda>i c. read_cell (heap seg) c) = Inr rows"
    and b: "idx < length (vector_data seg)" "slot_ok svs (vector_data seg ! idx)" "F = {idx}"
    using Scalar.prems(1) by auto
  have "read_rows (vector_data seg ! idx) (\<lambda>i c. read_cell (heap seg') c) = Inr rows"
    using rr by (rule read_rows_mono) (rule read_cell_mono[OF _ Scalar.prems(5)])
  then show ?case using b Scalar.prems(2,3) by auto
next
  case (STRUCT tys)
  have ci: "\<And>j. j < length (child_indices seg) \<Longrightarrow> child_indices seg' ! j = child_indices seg ! j"
    using take_prefixD(2)[OF STRUCT.prems(4)] .
  have cl: "length (child_indices seg) \<le> length (child_indices seg')"
    using take_prefixD(1)[OF STRUCT.prems(4)] .
  have idx: "idx < length (vector_data seg)" "idx \<in> F" using stored_basic[OF STRUCT.prems(1)] by auto
  then have v: "vector_data seg' ! idx = vector_data seg ! idx" using STRUCT.prems(2) by blast
  show ?case
  proof (cases "child_index (vector_data seg ! idx)")
    case None
    then show ?thesis using STRUCT.prems v by auto
  next
    case (Some base)
    with STRUCT.prems(1) obtain cs Fs rs where
      l: "length cs = length tys" "length Fs = length tys" "length rs = length tys"
      and b: "base + length tys \<le> length (child_indices seg)"
      and ch: "\<forall>k<length tys. child_indices seg ! (base + k) = Some (cs ! k) \<and>
                   stored svs (tys ! k) seg (cs ! k) (Fs ! k) (rs ! k) \<and>
                   length (rs ! k) = vcount (vector_data seg ! idx) \<and> idx \<notin> Fs ! k"
      and dj: "\<forall>j k. j < k \<and> k < length tys \<longrightarrow> Fs ! j \<inter> Fs ! k = {}"
      and F: "F = insert idx (\<Union>(set Fs))"
      and rr: "read_rows (vector_data seg ! idx) (struct_row_value rs) = Inr rows"
      and so: "slot_ok svs (vector_data seg ! idx)"
      by auto
    have ch': "\<forall>k<length tys. child_indices seg' ! (base + k) = Some (cs ! k) \<and>
                   stored svs (tys ! k) seg' (cs ! k) (Fs ! k) (rs ! k) \<and>
                   length (rs ! k) = vcount (vector_data seg' ! idx) \<and> idx \<notin> Fs ! k"
    proof (intro allI impI)
      fix k assume k: "k < length tys"
      have "Fs ! k \<subseteq> F" using F k l by auto
      then have "\<forall>i\<in>Fs ! k. vector_data seg' ! i = vector_data seg ! i" using STRUCT.prems(2) by blast
      moreover have "tys ! k \<in> set tys" using k by simp
      ultimately have "stored svs (tys ! k) seg' (cs ! k) (Fs ! k) (rs ! k)"
        using STRUCT.IH[of "tys ! k" "cs ! k" "Fs ! k" "rs ! k"] ch k STRUCT.prems(3,4,5) by blast
      then show "child_indices seg' ! (base + k) = Some (cs ! k) \<and>
                   stored svs (tys ! k) seg' (cs ! k) (Fs ! k) (rs ! k) \<and>
                   length (rs ! k) = vcount (vector_data seg' ! idx) \<and> idx \<notin> Fs ! k"
        using ch k ci[of "base + k"] b v by auto
    qed
    have "\<exists>cs Fs rs.
                length cs = length tys \<and> length Fs = length tys \<and>
                length rs = length tys \<and>
                base + length tys \<le> length (child_indices seg') \<and>
                (\<forall>k<length tys.
                   child_indices seg' ! (base + k) = Some (cs ! k) \<and>
                   (map (stored svs) tys ! k) seg' (cs ! k) (Fs ! k) (rs ! k) \<and>
                   length (rs ! k) = vcount (vector_data seg' ! idx) \<and> idx \<notin> Fs ! k) \<and>
                (\<forall>j k. j < k \<and> k < length tys \<longrightarrow> Fs ! j \<inter> Fs ! k = {}) \<and>
                F = insert idx (\<Union>(set Fs)) \<and>
                read_rows (vector_data seg' ! idx) (struct_row_value rs) = Inr rows"
      apply (rule exI[of _ cs], rule exI[of _ Fs], rule exI[of _ rs])
      using l b cl ch' dj F rr v by simp
    then show ?thesis using Some v so idx STRUCT.prems(3) by simp
  qed
next
  case (LIST ty)
  have ci: "\<And>j. j < length (child_indices seg) \<Longrightarrow> child_indices seg' ! j = child_indices seg ! j"
    using take_prefixD(2)[OF LIST.prems(4)] .
  have cl: "length (child_indices seg) \<le> length (child_indices seg')"
    using take_prefixD(1)[OF LIST.prems(4)] .
  have idx: "idx < length (vector_data seg)" "idx \<in> F" using stored_basic[OF LIST.prems(1)] by auto
  then have v: "vector_data seg' ! idx = vector_data seg ! idx" using LIST.prems(2) by blast
  show ?case
  proof (cases "child_index (vector_data seg ! idx)")
    case None
    then show ?thesis using LIST.prems v by auto
  next
    case (Some c)
    with LIST.prems(1) obtain root Fc elems where
      c: "c < length (child_indices seg)" "child_indices seg ! c = Some root"
      and chn: "chain svs (vector_data seg) (stored svs ty seg) root Fc elems"
      and F: "idx \<notin> Fc" "F = insert idx Fc"
      and rr: "read_rows (vector_data seg ! idx) (list_row_value elems) = Inr rows"
      and so: "slot_ok svs (vector_data seg ! idx)"
      by auto
    have "chain svs (vector_data seg') (stored svs ty seg') root Fc elems"
    proof (rule chain_frame[OF chn])
      fix y Fy r assume "stored svs ty seg y Fy r" "Fy \<subseteq> Fc"
      then show "stored svs ty seg' y Fy r"
        using LIST.IH[of y Fy r] LIST.prems(2,3,4,5) F by blast
    next
      fix y Fy r assume "stored svs ty seg y Fy r"
      then show "y \<in> Fy" by (rule stored_basic)
    next
      show "\<forall>i\<in>Fc. vector_data seg' ! i = vector_data seg ! i" using LIST.prems(2) F by blast
      show "length (vector_data seg) \<le> length (vector_data seg')" by fact
    qed
    then show ?thesis using Some v so idx LIST.prems(3) c ci[of c] cl F rr by auto
  qed
qed

lemma stored_frame_self:
  assumes st: "stored svs ty seg idx F rows"
    and same: "\<forall>i\<in>F. i \<noteq> idx \<longrightarrow> vector_data seg' ! i = vector_data seg ! i"
    and self: "vcount (vector_data seg' ! idx) = vcount (vector_data seg ! idx)"
      "child_index (vector_data seg' ! idx) = child_index (vector_data seg ! idx)"
      "vdata (vector_data seg' ! idx) = vdata (vector_data seg ! idx)"
      "vvalidity (vector_data seg' ! idx) = vvalidity (vector_data seg ! idx)"
    and len: "length (vector_data seg) \<le> length (vector_data seg')"
    and pre: "take (length (child_indices seg)) (child_indices seg') = child_indices seg"
    and hp: "take (length (heap seg)) (heap seg') = heap seg"
  shows "stored svs ty seg' idx F rows"
proof -
  have ci: "\<And>j. j < length (child_indices seg) \<Longrightarrow> child_indices seg' ! j = child_indices seg ! j"
    using take_prefixD(2)[OF pre] .
  have cl: "length (child_indices seg) \<le> length (child_indices seg')"
    using take_prefixD(1)[OF pre] .
  have idx: "idx < length (vector_data seg)" using stored_basic[OF st] by auto
  have so: "slot_ok svs (vector_data seg' ! idx) = slot_ok svs (vector_data seg ! idx)"
    by (simp only: slot_ok_def self)
  have rr: "\<And>f. read_rows (vector_data seg' ! idx) f = read_rows (vector_data seg ! idx) f"
    by (simp only: read_rows_def self)
  show ?thesis
  proof (cases ty)
    case (Scalar p)
    have r0: "read_rows (vector_data seg ! idx) (\<lambda>i c. read_cell (heap seg) c) = Inr rows"
      and b: "slot_ok svs (vector_data seg ! idx)" "F = {idx}"
      using st Scalar by auto
    have "read_rows (vector_data seg ! idx) (\<lambda>i c. read_cell (heap seg') c) = Inr rows"
      using r0 by (rule read_rows_mono) (rule read_cell_mono[OF _ hp])
    then show ?thesis using Scalar b so rr idx len by auto
  next
    case (STRUCT tys)
    show ?thesis
    proof (cases "child_index (vector_data seg ! idx)")
      case None
      then show ?thesis using st STRUCT so self len by auto
    next
      case (Some base)
      with st STRUCT obtain cs Fs rs where
        l: "length cs = length tys" "length Fs = length tys" "length rs = length tys"
        and b: "base + length tys \<le> length (child_indices seg)"
        and ch: "\<forall>k<length tys. child_indices seg ! (base + k) = Some (cs ! k) \<and>
                   stored svs (tys ! k) seg (cs ! k) (Fs ! k) (rs ! k) \<and>
                   length (rs ! k) = vcount (vector_data seg ! idx) \<and> idx \<notin> Fs ! k"
        and dj: "\<forall>j k. j < k \<and> k < length tys \<longrightarrow> Fs ! j \<inter> Fs ! k = {}"
        and F: "F = insert idx (\<Union>(set Fs))"
        and r: "read_rows (vector_data seg ! idx) (struct_row_value rs) = Inr rows"
        and s: "slot_ok svs (vector_data seg ! idx)"
        by auto
      have ch': "\<forall>k<length tys. child_indices seg' ! (base + k) = Some (cs ! k) \<and>
                   stored svs (tys ! k) seg' (cs ! k) (Fs ! k) (rs ! k) \<and>
                   length (rs ! k) = vcount (vector_data seg' ! idx) \<and> idx \<notin> Fs ! k"
      proof (intro allI impI)
        fix k assume k: "k < length tys"
        have sub: "Fs ! k \<subseteq> F" using F k l by auto
        have "idx \<notin> Fs ! k" using ch k by blast
        then have "\<forall>i\<in>Fs ! k. vector_data seg' ! i = vector_data seg ! i" using same sub by (metis subsetD)
        then have "stored svs (tys ! k) seg' (cs ! k) (Fs ! k) (rs ! k)"
          using stored_frame[of svs "tys ! k" seg "cs ! k" "Fs ! k" "rs ! k" seg'] ch k len pre hp by blast
        then show "child_indices seg' ! (base + k) = Some (cs ! k) \<and>
                   stored svs (tys ! k) seg' (cs ! k) (Fs ! k) (rs ! k) \<and>
                   length (rs ! k) = vcount (vector_data seg' ! idx) \<and> idx \<notin> Fs ! k"
          using ch k ci[of "base + k"] b self by auto
      qed
      have "\<exists>cs Fs rs.
                length cs = length tys \<and> length Fs = length tys \<and>
                length rs = length tys \<and>
                base + length tys \<le> length (child_indices seg') \<and>
                (\<forall>k<length tys.
                   child_indices seg' ! (base + k) = Some (cs ! k) \<and>
                   (map (stored svs) tys ! k) seg' (cs ! k) (Fs ! k) (rs ! k) \<and>
                   length (rs ! k) = vcount (vector_data seg' ! idx) \<and> idx \<notin> Fs ! k) \<and>
                (\<forall>j k. j < k \<and> k < length tys \<longrightarrow> Fs ! j \<inter> Fs ! k = {}) \<and>
                F = insert idx (\<Union>(set Fs)) \<and>
                read_rows (vector_data seg' ! idx) (struct_row_value rs) = Inr rows"
        apply (rule exI[of _ cs], rule exI[of _ Fs], rule exI[of _ rs])
        using l b cl ch' dj F r rr by simp
      then show ?thesis using Some STRUCT s so self idx len by simp
    qed
  next
    case (LIST cty)
    show ?thesis
    proof (cases "child_index (vector_data seg ! idx)")
      case None
      then show ?thesis using st LIST so self len by auto
    next
      case (Some c)
      with st LIST obtain root Fc elems where
        c: "c < length (child_indices seg)" "child_indices seg ! c = Some root"
        and chn: "chain svs (vector_data seg) (stored svs cty seg) root Fc elems"
        and F: "idx \<notin> Fc" "F = insert idx Fc"
        and r: "read_rows (vector_data seg ! idx) (list_row_value elems) = Inr rows"
        and s: "slot_ok svs (vector_data seg ! idx)"
        by auto
      have "chain svs (vector_data seg') (stored svs cty seg') root Fc elems"
      proof (rule chain_frame[OF chn])
        fix y Fy r assume a: "stored svs cty seg y Fy r" "Fy \<subseteq> Fc"
        have "\<forall>i\<in>Fy. vector_data seg' ! i = vector_data seg ! i" using a(2) same F by auto
        then show "stored svs cty seg' y Fy r"
          using stored_frame[OF a(1) _ len pre hp] by blast
      next
        fix y Fy r assume "stored svs cty seg y Fy r"
        then show "y \<in> Fy" by (rule stored_basic)
      next
        show "\<forall>i\<in>Fc. vector_data seg' ! i = vector_data seg ! i" using same F by auto
        show "length (vector_data seg) \<le> length (vector_data seg')" by fact
      qed
      then show ?thesis using Some LIST s so self idx len c ci[of c] cl F r rr by auto
    qed
  qed
qed

lemma collect_r_Some_Inr:
  "length ys = length xs \<Longrightarrow> \<forall>i<length xs. xs ! i = Some (Inr (ys ! i)) \<Longrightarrow> collect_r xs = Some (Inr ys)"
proof (induction ys xs rule: list_induct2)
  case Nil
  then show ?case by simp
next
  case (Cons y ys x xs)
  have "x = Some (Inr y)" using Cons.prems by auto
  moreover have "\<forall>i<length xs. xs ! i = Some (Inr (ys ! i))" using Cons.prems by auto
  then have "collect_r xs = Some (Inr ys)" by (rule Cons.IH)
  ultimately show ?case by simp
qed

lemma read_chain_correct:
  assumes "chain svs (vector_data seg) P x F rows"
    and "\<And>y Fy r. P y Fy r \<Longrightarrow> rd seg y = Some (Inr r)"
  shows "read_chain rd seg (Some x, acc) = Some (Inr (acc @ rows))"
  using assms
proof (induction arbitrary: acc rule: chain.induct)
  case (chain_last x F rows)
  have "rd seg x = Some (Inr rows)" using chain_last by blast
  then show ?case using chain_last.hyps
    by (subst read_chain.simps, simp add: GetVectorData_def, subst read_chain.simps, simp)
next
  case (chain_cons x F rows y F' rows')
  have "rd seg x = Some (Inr rows)" using chain_cons by blast
  moreover have "read_chain rd seg (Some y, acc @ rows) = Some (Inr ((acc @ rows) @ rows'))"
    using chain_cons.IH chain_cons.prems by blast
  ultimately show ?case using chain_cons.hyps
    by (subst read_chain.simps) (simp add: GetVectorData_def)
qed

lemma ReadVector_stored:
  "stored svs ty seg idx F rows \<Longrightarrow> ReadVector ty seg idx = Some (Inr rows)"
proof (induction ty arbitrary: idx F rows)
  case (Scalar p)
  then show ?case by (simp add: GetVectorData_def)
next
  case (STRUCT tys)
  have idx: "idx < length (vector_data seg)" and len: "length rows = vcount (vector_data seg ! idx)"
    using stored_basic[OF STRUCT.prems] by auto
  show ?case
  proof (cases "vcount (vector_data seg ! idx) = 0")
    case True
    then show ?thesis using idx len by (simp add: GetVectorData_def)
  next
    case False
    then obtain base where base: "child_index (vector_data seg ! idx) = Some base"
      using STRUCT.prems by (auto split: option.splits)
    with STRUCT.prems obtain cs Fs rs where
      l: "length cs = length tys" "length Fs = length tys" "length rs = length tys"
      and b: "base + length tys \<le> length (child_indices seg)"
      and ch: "\<forall>k<length tys. child_indices seg ! (base + k) = Some (cs ! k) \<and>
                   stored svs (tys ! k) seg (cs ! k) (Fs ! k) (rs ! k)"
      and r: "read_rows (vector_data seg ! idx) (struct_row_value rs) = Inr rows"
      by auto
    let ?xs = "map (\<lambda>(read_child, child_idx).
                                 case GetChildIndex seg base child_idx of
                                   Inl e \<Rightarrow> Some (Inl e)
                                 | Inr ci \<Rightarrow> read_child seg ci)
                              (zip (map ReadVector tys) [0..<length tys])"
    have "collect_r ?xs = Some (Inr rs)"
    proof (rule collect_r_Some_Inr)
      show "length rs = length ?xs" using l by simp
      show "\<forall>i<length ?xs. ?xs ! i = Some (Inr (rs ! i))"
      proof (intro allI impI)
        fix i assume "i < length ?xs"
        then have i: "i < length tys" by simp
        have g: "GetChildIndex seg base i = Inr (cs ! i)"
          using ch i b by (simp add: GetChildIndex_def)
        have "ReadVector (tys ! i) seg (cs ! i) = Some (Inr (rs ! i))"
          using STRUCT.IH[of "tys ! i" "cs ! i" "Fs ! i" "rs ! i"] ch i by simp
        then show "?xs ! i = Some (Inr (rs ! i))" using i g by simp
      qed
    qed
    then show ?thesis using False base idx r by (simp add: GetVectorData_def)
  qed
next
  case (LIST ty)
  have idx: "idx < length (vector_data seg)" and len: "length rows = vcount (vector_data seg ! idx)"
    using stored_basic[OF LIST.prems] by auto
  show ?case
  proof (cases "vcount (vector_data seg ! idx) = 0")
    case True
    then show ?thesis using idx len by (simp add: GetVectorData_def)
  next
    case False
    then obtain c where c: "child_index (vector_data seg ! idx) = Some c"
      using LIST.prems by (auto split: option.splits)
    with LIST.prems obtain root Fc elems where
      ci: "c < length (child_indices seg)" "child_indices seg ! c = Some root"
      and chn: "chain svs (vector_data seg) (stored svs ty seg) root Fc elems"
      and r: "read_rows (vector_data seg ! idx) (list_row_value elems) = Inr rows"
      by auto
    have "read_chain (ReadVector ty) seg (Some root, []) = Some (Inr ([] @ elems))"
      using chn LIST.IH by (rule read_chain_correct)
    then show ?thesis using False c idx ci r by (simp add: GetVectorData_def GetChildIndex_def)
  qed
qed

lemma read_rows_empty: "vcount v = 0 \<Longrightarrow> read_rows v f = Inr []"
  by (simp add: read_rows_def)

lemma AllocateVector_props:
  assumes "AllocateVector svs t seg = (seg', i)"
  shows "i = length (vector_data seg)"
    "vector_data seg' = vector_data seg @ [\<lparr>vcount = 0, child_index = None, next_data = None,
          vdata = replicate svs Uninit, vvalidity = replicate svs False\<rparr>]"
    "child_indices seg' = child_indices seg" "chunk_data seg' = chunk_data seg"
    "seg_types seg' = seg_types seg" "seg_count seg' = seg_count seg" "heap seg' = heap seg"
  using assms by (auto simp: AllocateVector_def)

lemma AllocateVector_stored:
  assumes "AllocateVector svs t seg = (seg', i)"
  shows "stored svs ty seg' i {i} []"
  using assms
  by (cases ty; auto simp: AllocateVector_def slot_ok_def read_rows_empty)

subsection \<open>Rows and frames\<close>

lemma read_rows_append:
  assumes old: "read_rows v f = Inr rows"
    and cnt: "vcount v' = vcount v + n" "vcount v' \<le> length (vdata v')"
      "vcount v' \<le> length (vvalidity v')"
    and keep: "\<forall>j<vcount v. vvalidity v' ! j = vvalidity v ! j \<and> vdata v' ! j = vdata v ! j"
    and f': "\<forall>j<vcount v. vvalidity v ! j \<longrightarrow> f' j (vdata v ! j) = f j (vdata v ! j)"
    and new: "length new = n"
      "\<forall>i<n. (if vvalidity v' ! (vcount v + i)
               then f' (vcount v + i) (vdata v' ! (vcount v + i)) else Inr Null) = Inr (new ! i)"
  shows "read_rows v' f' = Inr (rows @ new)"
proof -
  from old have o: "length rows = vcount v"
    "\<forall>i<vcount v. (if vvalidity v ! i then f i (vdata v ! i) else Inr Null) = Inr (rows ! i)"
    by (auto simp: read_rows_Inr_iff)
  have "\<forall>i<vcount v'. (if vvalidity v' ! i then f' i (vdata v' ! i) else Inr Null) = Inr ((rows @ new) ! i)"
  proof (intro allI impI)
    fix i assume i: "i < vcount v'"
    show "(if vvalidity v' ! i then f' i (vdata v' ! i) else Inr Null) = Inr ((rows @ new) ! i)"
    proof (cases "i < vcount v")
      case True
      then show ?thesis using o keep f' by (auto simp: nth_append)
    next
      case False
      then obtain k where k: "i = vcount v + k" "k < n" using i cnt(1)
        by (metis add_diff_inverse_nat nat_add_left_cancel_less)
      from new(2) k(2) have "(if vvalidity v' ! (vcount v + k)
               then f' (vcount v + k) (vdata v' ! (vcount v + k)) else Inr Null) = Inr (new ! k)"
        by blast
      then show ?thesis using k(1) o(1) by (auto simp: nth_append split: if_splits)
    qed
  qed
  then show ?thesis using cnt new(1) o(1) by (simp add: read_rows_Inr_iff)
qed

lemma map_upt_split:
  "map f [0..<a + b] = map f [0..<a] @ map (\<lambda>i. f (a + i)) [0..<b]"
proof -
  have "[0..<a + b] = [0..<a] @ [a..<a + b]"
    using upt_add_eq_append[of 0 a b] by simp
  also have "[a..<a + b] = map (\<lambda>i. a + i) [0..<b]"
    using map_add_upt[of a b] by (simp add: add.commute)
  finally show ?thesis by (simp add: comp_def)
qed

lemma vector_rows_split:
  "vector_rows ty v off (a + b) = vector_rows ty v off a @ vector_rows ty v (off + a) b"
proof (cases ty)
  case (Scalar p)
  show ?thesis unfolding Scalar vector_rows.simps map_upt_split by (simp add: add.assoc)
next
  case (STRUCT tys)
  show ?thesis unfolding STRUCT vector_rows.simps map_upt_split by (simp add: add.assoc)
next
  case (LIST cty)
  show ?thesis unfolding LIST vector_rows.simps map_upt_split Let_def by (simp add: add.assoc)
qed

lemma vector_rows_nth:
  "i < n \<Longrightarrow> vector_rows ty v off n ! i = hd (vector_rows ty v (off + i) 1)"
  by (cases ty) (simp_all add: Let_def)

lemma vector_rows_0 [simp]: "vector_rows ty v off 0 = []"
  by (cases ty) simp_all

lemma vector_ok_sub:
  "vector_ok ty v off n \<Longrightarrow> off \<le> off' \<Longrightarrow> off' + n' \<le> off + n \<Longrightarrow> vector_ok ty v off' n'"
proof (induction ty arbitrary: v off n off' n')
  case (Scalar p)
  let ?P = "\<lambda>r. let idx = sel (Orrify v) r
                 in validity_RowIsValid (Orrify v) idx \<longrightarrow> cell_ok p (data (Orrify v) idx)"
  have a: "\<forall>j<n. ?P (off + j)" using Scalar.prems(1) by (simp add: list_all_length)
  have "\<forall>i<n'. ?P (off' + i)"
  proof (intro allI impI)
    fix i assume "i < n'"
    then have "off' + i - off < n" "off' + i = off + (off' + i - off)"
      using Scalar.prems(2,3) by auto
    then show "?P (off' + i)" using a by metis
  qed
  then have "list_all (\<lambda>i. ?P (off' + i)) [0..<n']" by (simp add: list_all_length)
  then show ?case using Scalar.prems(1) by simp
next
  case (STRUCT tys)
  have l: "length (GetEntries v) = length tys" and t: "GetType v = STRUCT tys"
    using STRUCT.prems(1) by auto
  have a: "\<forall>j<n. sel (Orrify v) (off + j) = off + j"
    using STRUCT.prems(1) by (simp add: list_all_length)
  have fl: "\<forall>i<n'. sel (Orrify v) (off' + i) = off' + i"
  proof (intro allI impI)
    fix i assume "i < n'"
    then have "off' + i - off < n" "off' + i = off + (off' + i - off)"
      using STRUCT.prems(2,3) by auto
    then show "sel (Orrify v) (off' + i) = off' + i" using a by metis
  qed
  have "\<forall>k<length tys. vector_ok (tys ! k) (GetEntries v ! k) off' n'"
  proof (intro allI impI)
    fix k assume k: "k < length tys"
    have "vector_ok (tys ! k) (GetEntries v ! k) off n"
      using STRUCT.prems(1) k l by (simp add: list_all_length)
    then show "vector_ok (tys ! k) (GetEntries v ! k) off' n'"
      using STRUCT.IH[of "tys ! k"] k STRUCT.prems(2,3) by simp
  qed
  then show ?case using l t fl by (simp add: list_all_length)
next
  case (LIST ty)
  let ?P = "\<lambda>r. let idx = sel (Orrify v) r
                 in validity_RowIsValid (Orrify v) idx \<longrightarrow>
                    (case data (Orrify v) idx of
                       ListEntry off len \<Rightarrow> off + len \<le> GetListSize v
                     | _ \<Rightarrow> False)"
  have a: "\<forall>j<n. ?P (off + j)" using LIST.prems(1) by (simp add: list_all_length)
  have "\<forall>i<n'. ?P (off' + i)"
  proof (intro allI impI)
    fix i assume "i < n'"
    then have "off' + i - off < n" "off' + i = off + (off' + i - off)"
      using LIST.prems(2,3) by auto
    then show "?P (off' + i)" using a by metis
  qed
  then have "list_all (\<lambda>i. ?P (off' + i)) [0..<n']" by (simp add: list_all_length)
  then show ?case using LIST.prems(1) by simp
qed

lemma frame_refl: "frame seg seg F"
  by (simp add: frame_def)

lemma frame_mono: "frame seg seg' F \<Longrightarrow> F \<subseteq> G \<Longrightarrow> frame seg seg' G"
  by (auto simp: frame_def)

lemma frame_trans:
  assumes "frame a b F" "frame b c G" and G: "G \<subseteq> F \<union> {length (vector_data a)..}"
  shows "frame a c F"
proof -
  have p1: "length (child_indices a) \<le> length (child_indices b)"
    "\<And>j. j < length (child_indices a) \<Longrightarrow> child_indices b ! j = child_indices a ! j"
    using take_prefixD[of "child_indices a" "child_indices b"] assms(1) by (auto simp: frame_def)
  have p2: "length (child_indices b) \<le> length (child_indices c)"
    "\<And>j. j < length (child_indices b) \<Longrightarrow> child_indices c ! j = child_indices b ! j"
    using take_prefixD[of "child_indices b" "child_indices c"] assms(2) by (auto simp: frame_def)
  have "take (length (child_indices a)) (child_indices c) = child_indices a"
    using p1 p2 by (auto intro!: nth_equalityI)
  moreover have "take (length (heap a)) (heap c) = heap a"
  proof -
    have q1: "length (heap a) \<le> length (heap b)"
      "\<And>j. j < length (heap a) \<Longrightarrow> heap b ! j = heap a ! j"
      using take_prefixD[of "heap a" "heap b"] assms(1) by (auto simp: frame_def)
    have q2: "length (heap b) \<le> length (heap c)"
      "\<And>j. j < length (heap b) \<Longrightarrow> heap c ! j = heap b ! j"
      using take_prefixD[of "heap b" "heap c"] assms(2) by (auto simp: frame_def)
    show ?thesis using q1 q2 by (auto intro!: nth_equalityI)
  qed
  moreover have "\<forall>j<length (vector_data a). j \<notin> F \<longrightarrow> vector_data c ! j = vector_data a ! j"
  proof (intro allI impI)
    fix j assume j: "j < length (vector_data a)" "j \<notin> F"
    then have "j \<notin> G" using G by auto
    then have "vector_data c ! j = vector_data b ! j" using assms(1,2) j by (auto simp: frame_def)
    then show "vector_data c ! j = vector_data a ! j" using assms(1) j by (auto simp: frame_def)
  qed
  ultimately show ?thesis using assms(1,2) by (auto simp: frame_def)
qed

lemma frame_stored:
  assumes "frame seg seg' G" "stored svs ty seg idx F rows" "F \<inter> G = {}"
  shows "stored svs ty seg' idx F rows"
proof (rule stored_frame[OF assms(2)])
  have "F \<subseteq> {..<length (vector_data seg)}" using assms(2) by (rule stored_subset)
  then show "\<forall>i\<in>F. vector_data seg' ! i = vector_data seg ! i"
    using assms(1,3) by (auto simp: frame_def)
  show "length (vector_data seg) \<le> length (vector_data seg')" using assms(1) by (simp add: frame_def)
  show "take (length (child_indices seg)) (child_indices seg') = child_indices seg"
    using assms(1) by (simp add: frame_def)
  show "take (length (heap seg)) (heap seg') = heap seg"
    using assms(1) by (simp add: frame_def)
qed

subsection \<open>The child chain of a list\<close>

lemma idx_sub_le: "b \<le> a \<Longrightarrow> idx_sub a b = a - b"
  by (simp add: idx_sub_def)

lemma list_child_loop_done:
  "list_child_loop svs cfn cvd cv ls cty (seg, x, 0, cls) = Some (Inr (seg, cls))"
  by (subst list_child_loop.simps) simp

lemma list_child_loop_step:
  assumes "0 < rem" and g: "GetVectorData seg x = Inr vd"
    and a: "a = min (idx_sub svs (vcount vd)) rem"
    and call: "(if a > 0 then cfn (child_meta_data x) cvd cv (ls - rem) a seg else Some (Inr seg))
                 = Some (Inr sg)"
  shows "list_child_loop svs cfn cvd cv ls cty (seg, x, rem, cls) =
     (if rem - a > 0 then
        (case GetVectorData sg x of
           Inl e \<Rightarrow> Some (Inl e)
         | Inr vd1 \<Rightarrow>
             (case next_data vd1 of
                None \<Rightarrow>
                  (let (segment2, next_idx) = AllocateVector svs cty sg;
                       segment3 = SetVectorData segment2 x (vd1\<lparr>next_data := Some next_idx\<rparr>)
                   in list_child_loop svs cfn cvd cv ls cty
                        (segment3, next_idx, rem - a, cls + vcount vd))
              | Some next_idx \<Rightarrow>
                  list_child_loop svs cfn cvd cv ls cty (sg, next_idx, rem - a, cls + vcount vd)))
      else Some (Inr (sg, cls + vcount vd)))"
  using assms(1) g call unfolding a
  by (subst list_child_loop.simps) (simp add: Let_def list_child_loop_done)

lemma list_child_loop_last:
  assumes svs: "0 < svs" and ok: "copy_ok svs cty cfc" and vok: "vector_ok cty child 0 ls"
  shows "stored svs cty seg x F rows \<Longrightarrow> next_data (vector_data seg ! x) = None \<Longrightarrow>
     0 < rem \<Longrightarrow> rem \<le> ls \<Longrightarrow>
     \<exists>seg' F'. list_child_loop svs (call_copy svs cfc) (Orrify child) child ls ct (seg, x, rem, cls)
                  = Some (Inr (seg', cls + length rows)) \<and>
        chain svs (vector_data seg') (stored svs cty seg') x F'
          (rows @ vector_rows cty child (ls - rem) rem) \<and>
        F \<subseteq> F' \<and> F' \<subseteq> F \<union> {length (vector_data seg)..<length (vector_data seg')} \<and>
        frame seg seg' F"
proof (induction "2 * rem + (if length rows = svs then 1 else 0 :: nat)"
        arbitrary: seg x F rows rem cls rule: less_induct)
  case less
  note st = less.prems(1) and nx = less.prems(2) and rem = less.prems(3,4)
  let ?pool = "vector_data seg"
  let ?c = "vcount (?pool ! x)"
  have xl: "x < length ?pool" and so: "slot_ok svs (?pool ! x)" and lr: "length rows = ?c"
    and xF: "x \<in> F"
    using stored_basic[OF st] by auto
  have cle: "?c \<le> svs" using so by (simp add: slot_ok_def)
  have Fsub: "F \<subseteq> {..<length ?pool}" using st by (rule stored_subset)
  define a where "a = min (idx_sub svs ?c) rem"
  have a: "a = min (svs - ?c) rem" using cle by (simp add: a_def idx_sub_le)
  have g: "GetVectorData seg x = Inr (?pool ! x)" using xl by (simp add: GetVectorData_def)
  \<comment> \<open>the call of the child function, or no call\<close>
  have "\<exists>seg1 F1. (if a > 0 then call_copy svs cfc (child_meta_data x) (Orrify child) child (ls - rem) a seg
                    else Some (Inr seg)) = Some (Inr seg1) \<and>
          copy_post svs cty seg x F (rows @ vector_rows cty child (ls - rem) a) seg1 F1"
  proof (cases "a > 0")
    case True
    have v: "vector_ok cty child (ls - rem) a"
    proof (rule vector_ok_sub[OF vok])
      show "0 \<le> ls - rem" by simp
      show "ls - rem + a \<le> 0 + ls" using rem a by simp
    qed
    have fit: "length rows + a \<le> svs" using a lr cle by simp
    have mi: "vector_data_index (child_meta_data x) = x" by (simp add: child_meta_data_def)
    have "\<exists>seg' F'. call_copy svs cfc (child_meta_data x) (Orrify child) child (ls - rem) a seg
                     = Some (Inr seg') \<and>
                   copy_post svs cty seg x F (rows @ vector_rows cty child (ls - rem) a) seg' F'"
      using ok st fit True v mi unfolding copy_ok_def by blast
    then show ?thesis using True by simp
  next
    case False
    then have "a = 0" by simp
    moreover have "copy_post svs cty seg x F rows seg F"
      using st by (simp add: copy_post_def frame_refl)
    ultimately show ?thesis by auto
  qed
  then obtain seg1 F1 where call: "(if a > 0 then call_copy svs cfc (child_meta_data x) (Orrify child) child (ls - rem) a seg
                    else Some (Inr seg)) = Some (Inr seg1)"
    and post: "copy_post svs cty seg x F (rows @ vector_rows cty child (ls - rem) a) seg1 F1" by blast
  let ?rows1 = "rows @ vector_rows cty child (ls - rem) a"
  let ?pool1 = "vector_data seg1"
  have st1: "stored svs cty seg1 x F1 ?rows1" and FF1: "F \<subseteq> F1"
    and F1sub: "F1 \<subseteq> F \<union> {length ?pool..<length ?pool1}" and fr1: "frame seg seg1 F"
    and nx1: "next_data (?pool1 ! x) = None"
    using post nx by (auto simp: copy_post_def)
  have xl1: "x < length ?pool1" and c1: "vcount (?pool1 ! x) = ?c + a"
    using stored_basic[OF st1] lr by auto
  have F1sub': "F1 \<subseteq> {..<length ?pool1}" using st1 by (rule stored_subset)
  have step: "list_child_loop svs (call_copy svs cfc) (Orrify child) child ls ct (seg, x, rem, cls) =
     (if rem - a > 0 then
        (case GetVectorData seg1 x of
           Inl e \<Rightarrow> Some (Inl e)
         | Inr vd1 \<Rightarrow>
             (case next_data vd1 of
                None \<Rightarrow>
                  (let (segment2, next_idx) = AllocateVector svs ct seg1;
                       segment3 = SetVectorData segment2 x (vd1\<lparr>next_data := Some next_idx\<rparr>)
                   in list_child_loop svs (call_copy svs cfc) (Orrify child) child ls ct
                        (segment3, next_idx, rem - a, cls + ?c))
              | Some next_idx \<Rightarrow>
                  list_child_loop svs (call_copy svs cfc) (Orrify child) child ls ct
                    (seg1, next_idx, rem - a, cls + ?c)))
      else Some (Inr (seg1, cls + ?c)))"
    using list_child_loop_step[where cfn = "call_copy svs cfc" and cvd = "Orrify child"
        and cv = child and ls = ls and cty = ct and cls = cls and svs = svs and seg = seg
        and x = x and rem = rem and a = a and sg = seg1 and vd = "vector_data seg ! x",
        OF rem(1) g a_def call] .
  show ?case
  proof (cases "rem - a > 0")
    case False
    then have ar: "a = rem" using a by simp
    have "list_child_loop svs (call_copy svs cfc) (Orrify child) child ls ct (seg, x, rem, cls)
            = Some (Inr (seg1, cls + length rows))"
      using step False lr by simp
    moreover have "chain svs ?pool1 (stored svs cty seg1) x F1 (rows @ vector_rows cty child (ls - rem) rem)"
      using st1 xl1 nx1 ar by (auto intro: chain.chain_last)
    ultimately show ?thesis using FF1 F1sub fr1 by blast
  next
    case True
    then have afull: "a = svs - ?c" "a < rem" using a by auto
    have full1: "vcount (?pool1 ! x) = svs" using c1 afull cle by simp
    let ?y = "length ?pool1"
    let ?fresh = "\<lparr>vcount = 0, child_index = None, next_data = None,
          vdata = replicate svs Uninit, vvalidity = replicate svs False\<rparr>"
    obtain seg2 y where al: "AllocateVector svs ct seg1 = (seg2, y)" by (cases "AllocateVector svs ct seg1")
    note A = AllocateVector_props[OF al] AllocateVector_stored[OF al, where ty = cty]
    have y: "y = ?y" using A(1) .
    define seg3 where "seg3 = SetVectorData seg2 x ((?pool1 ! x)\<lparr>next_data := Some y\<rparr>)"
    have pool3: "vector_data seg3 = (?pool1 @ [?fresh])[x := (?pool1 ! x)\<lparr>next_data := Some y\<rparr>]"
      using A(2) by (simp add: seg3_def SetVectorData_def)
    have ci3: "child_indices seg3 = child_indices seg1" "chunk_data seg3 = chunk_data seg1"
      "seg_types seg3 = seg_types seg1" "seg_count seg3 = seg_count seg1"
      "heap seg3 = heap seg1" "heap seg3 = heap seg2"
      using A by (simp_all add: seg3_def SetVectorData_def)
    have len3: "length (vector_data seg3) = Suc ?y" using pool3 by simp
    have step2: "list_child_loop svs (call_copy svs cfc) (Orrify child) child ls ct (seg, x, rem, cls) =
        list_child_loop svs (call_copy svs cfc) (Orrify child) child ls ct (seg3, y, rem - a, cls + ?c)"
      using step True xl1 nx1 al by (simp add: GetVectorData_def seg3_def)
    \<comment> \<open>the slot x in seg3\<close>
    have st3x: "stored svs cty seg3 x F1 ?rows1"
    proof (rule stored_frame_self[OF st1])
      show "\<forall>i\<in>F1. i \<noteq> x \<longrightarrow> vector_data seg3 ! i = ?pool1 ! i"
        using F1sub' pool3 by (auto simp: nth_append)
      show "vcount (vector_data seg3 ! x) = vcount (?pool1 ! x)"
        "child_index (vector_data seg3 ! x) = child_index (?pool1 ! x)"
        "vdata (vector_data seg3 ! x) = vdata (?pool1 ! x)"
        "vvalidity (vector_data seg3 ! x) = vvalidity (?pool1 ! x)"
        using pool3 xl1 by simp_all
      show "length ?pool1 \<le> length (vector_data seg3)" using len3 by simp
      show "take (length (child_indices seg1)) (child_indices seg3) = child_indices seg1"
        using ci3 by simp
      show "take (length (heap seg1)) (heap seg3) = heap seg1" using ci3 by simp
    qed
    have st3y: "stored svs cty seg3 y {y} []"
    proof (rule stored_frame[OF A(8)])
      show "\<forall>i\<in>{y}. vector_data seg3 ! i = vector_data seg2 ! i"
        using pool3 A(2) y xl1 by simp
      show "length (vector_data seg2) \<le> length (vector_data seg3)" using A(2) len3 by simp
      show "take (length (child_indices seg2)) (child_indices seg3) = child_indices seg2"
        using A(3) ci3 by simp
      show "take (length (heap seg2)) (heap seg3) = heap seg2" using ci3 by simp
    qed
    have nx3: "next_data (vector_data seg3 ! y) = None" using pool3 y xl1 by (simp add: nth_append)
    have r1: "0 < rem - a" "rem - a \<le> ls" using True rem by auto
    have meas: "2 * (rem - a) + (if length ([]::Value list) = svs then 1 else 0)
                  < 2 * rem + (if length rows = svs then 1 else 0)"
    proof (cases "a = 0")
      case True
      then have "?c = svs" using afull cle by simp
      then show ?thesis using True svs lr by simp
    next
      case False
      then show ?thesis using svs afull by simp
    qed
    from less.hyps[OF meas st3y nx3 r1, of "cls + ?c"]
    obtain seg' Fy where
      res: "list_child_loop svs (call_copy svs cfc) (Orrify child) child ls ct (seg3, y, rem - a, cls + ?c)
              = Some (Inr (seg', cls + ?c + length ([]::Value list)))"
      and chy: "chain svs (vector_data seg') (stored svs cty seg') y Fy
                  ([] @ vector_rows cty child (ls - (rem - a)) (rem - a))"
      and Fy: "{y} \<subseteq> Fy" "Fy \<subseteq> {y} \<union> {length (vector_data seg3)..<length (vector_data seg')}"
      and fr3: "frame seg3 seg' {y}" by blast
    let ?pool' = "vector_data seg'"
    have len': "Suc ?y \<le> length ?pool'" using fr3 len3 by (simp add: frame_def)
    have F1lt: "\<forall>i\<in>F1. i < ?y" using F1sub' by auto
    have Fyge: "\<forall>i\<in>Fy. ?y \<le> i \<and> i < length ?pool'"
    proof
      fix i assume "i \<in> Fy"
      then have "i \<in> {y} \<union> {length (vector_data seg3)..<length (vector_data seg')}"
        using Fy(2) by blast
      then show "?y \<le> i \<and> i < length ?pool'" using y len3 len' by auto
    qed
    have dis: "F1 \<inter> Fy = {}" using F1lt Fyge by fastforce
    have "F1 \<inter> {y} = {}" using F1sub' y by auto
    then have stx': "stored svs cty seg' x F1 ?rows1" using frame_stored[OF fr3 st3x] by simp
    have px': "?pool' ! x = vector_data seg3 ! x"
      using fr3 xl1 len3 y by (auto simp: frame_def)
    have "chain svs ?pool' (stored svs cty seg') x (F1 \<union> Fy)
            (?rows1 @ ([] @ vector_rows cty child (ls - (rem - a)) (rem - a)))"
    proof (rule chain.chain_cons[OF stx' _ _ _ chy dis])
      show "x < length ?pool'" using xl1 len' by simp
      show "vcount (?pool' ! x) = svs" using px' pool3 xl1 full1 by simp
      show "next_data (?pool' ! x) = Some y" using px' pool3 xl1 by simp
    qed
    moreover have "ls - (rem - a) = (ls - rem) + a" using rem afull by simp
    moreover have "rem = a + (rem - a)" using afull by simp
    ultimately have ch: "chain svs ?pool' (stored svs cty seg') x (F1 \<union> Fy)
            (rows @ vector_rows cty child (ls - rem) rem)"
      using vector_rows_split[of cty child "ls - rem" a "rem - a"] by simp
    have sub1: "F \<subseteq> F1 \<union> Fy" using FF1 by auto
    have l01: "length ?pool \<le> ?y" using fr1 by (simp add: frame_def)
    have sub2: "F1 \<union> Fy \<subseteq> F \<union> {length ?pool..<length ?pool'}"
    proof
      fix i assume "i \<in> F1 \<union> Fy"
      then show "i \<in> F \<union> {length ?pool..<length ?pool'}"
      proof
        assume "i \<in> F1"
        then have "i \<in> F \<union> {length ?pool..<length ?pool1}" using F1sub by blast
        then show ?thesis using len' by auto
      next
        assume "i \<in> Fy"
        then show ?thesis using Fyge l01 by auto
      qed
    qed
    have fr13: "frame seg1 seg3 {x}"
      using pool3 ci3 xl1 by (auto simp: frame_def nth_append)
    have fr03: "frame seg seg3 F"
    proof (rule frame_trans[OF fr1 fr13])
      show "{x} \<subseteq> F \<union> {length ?pool..}" using xF by simp
    qed
    have fr: "frame seg seg' F"
    proof (rule frame_trans[OF fr03 fr3])
      show "{y} \<subseteq> F \<union> {length ?pool..}" using y l01 by simp
    qed
    show ?thesis using step2 res ch sub1 sub2 fr lr by auto
  qed
qed

lemma list_child_loop_chain:
  assumes svs: "0 < svs" and ok: "copy_ok svs cty cfc" and vok: "vector_ok cty child 0 ls"
    and ch: "chain svs (vector_data seg) (stored svs cty seg) x Fc elems"
    and rem: "0 < rem" "rem \<le> ls"
  shows "\<exists>seg' Fc'. list_child_loop svs (call_copy svs cfc) (Orrify child) child ls ct (seg, x, rem, cls)
                  = Some (Inr (seg', cls + length elems)) \<and>
        chain svs (vector_data seg') (stored svs cty seg') x Fc'
          (elems @ vector_rows cty child (ls - rem) rem) \<and>
        Fc \<subseteq> Fc' \<and> Fc' \<subseteq> Fc \<union> {length (vector_data seg)..<length (vector_data seg')} \<and>
        frame seg seg' Fc"
  using ch
proof (induction arbitrary: cls rule: chain.induct)
  case (chain_last x F rows)
  from list_child_loop_last[OF svs ok vok chain_last.hyps(1,3) rem, of ct cls]
  show ?case .
next
  case (chain_cons x F rows y F' rows')
  let ?pool = "vector_data seg"
  have lr: "length rows = svs" and xF: "x \<in> F"
    using stored_basic[OF chain_cons.hyps(1)] chain_cons.hyps(3) by auto
  have Fsub: "F \<subseteq> {..<length ?pool}" using chain_cons.hyps(1) by (rule stored_subset)
  have g: "GetVectorData seg x = Inr (?pool ! x)"
    using chain_cons.hyps(2) by (simp add: GetVectorData_def)
  have a: "(0::nat) = min (idx_sub svs (vcount (?pool ! x))) rem"
    using chain_cons.hyps(3) by (simp add: idx_sub_def)
  have call: "(if (0::nat) > 0 then call_copy svs cfc (child_meta_data x) (Orrify child) child (ls - rem) 0 seg
                 else Some (Inr seg)) = Some (Inr seg)" by simp
  have step: "list_child_loop svs (call_copy svs cfc) (Orrify child) child ls ct (seg, x, rem, cls) =
        list_child_loop svs (call_copy svs cfc) (Orrify child) child ls ct (seg, y, rem, cls + svs)"
    using list_child_loop_step[where cfn = "call_copy svs cfc" and cvd = "Orrify child"
        and cv = child and ls = ls and cty = ct and cls = cls and svs = svs and seg = seg
        and x = x and rem = rem and a = 0 and sg = seg and vd = "vector_data seg ! x",
        OF rem(1) g a call] rem(1) g chain_cons.hyps(3,4)
    by simp
  from chain_cons.IH[of "cls + svs"] obtain seg' Fy where
    res: "list_child_loop svs (call_copy svs cfc) (Orrify child) child ls ct (seg, y, rem, cls + svs)
            = Some (Inr (seg', cls + svs + length rows'))"
    and chy: "chain svs (vector_data seg') (stored svs cty seg') y Fy
                (rows' @ vector_rows cty child (ls - rem) rem)"
    and Fy: "F' \<subseteq> Fy" "Fy \<subseteq> F' \<union> {length ?pool..<length (vector_data seg')}"
    and fr: "frame seg seg' F'" by blast
  let ?pool' = "vector_data seg'"
  have len: "length ?pool \<le> length ?pool'" using fr by (simp add: frame_def)
  have stx: "stored svs cty seg' x F rows"
    using frame_stored[OF fr chain_cons.hyps(1)] chain_cons.hyps(6) by simp
  have "x \<notin> F'" using xF chain_cons.hyps(6) by auto
  then have px: "?pool' ! x = ?pool ! x" using fr chain_cons.hyps(2) by (simp add: frame_def)
  have dis: "F \<inter> Fy = {}"
  proof -
    have "\<forall>i\<in>Fy. i \<in> F' \<or> length ?pool \<le> i" using Fy(2) by auto
    moreover have "\<forall>i\<in>F. i < length ?pool \<and> i \<notin> F'" using Fsub chain_cons.hyps(6) by auto
    ultimately show ?thesis by fastforce
  qed
  have "chain svs ?pool' (stored svs cty seg') x (F \<union> Fy)
          (rows @ (rows' @ vector_rows cty child (ls - rem) rem))"
  proof (rule chain.chain_cons[OF stx _ _ _ chy dis])
    show "x < length ?pool'" using chain_cons.hyps(2) len by simp
    show "vcount (?pool' ! x) = svs" using px chain_cons.hyps(3) by simp
    show "next_data (?pool' ! x) = Some y" using px chain_cons.hyps(4) by simp
  qed
  moreover have "F \<union> F' \<subseteq> F \<union> Fy" using Fy(1) by auto
  moreover have "F \<union> Fy \<subseteq> F \<union> F' \<union> {length ?pool..<length ?pool'}" using Fy(2) by auto
  moreover have "frame seg seg' (F \<union> F')" using fr by (rule frame_mono) simp
  ultimately show ?case using step res lr by auto
qed

lemma chain_stored_frame:
  assumes "chain svs (vector_data s) (stored svs cty s) x Fc e"
    and "\<forall>i\<in>Fc. vector_data s' ! i = vector_data s ! i"
    and "length (vector_data s) \<le> length (vector_data s')"
    and "take (length (child_indices s)) (child_indices s') = child_indices s"
    and "take (length (heap s)) (heap s') = heap s"
  shows "chain svs (vector_data s') (stored svs cty s') x Fc e"
proof (rule chain_frame[OF assms(1)])
  fix y Fy r assume a: "stored svs cty s y Fy r" "Fy \<subseteq> Fc"
  have "\<forall>i\<in>Fy. vector_data s' ! i = vector_data s ! i" using a(2) assms(2) by auto
  then show "stored svs cty s' y Fy r" using stored_frame[OF a(1) _ assms(3,4,5)] by blast
next
  fix y Fy r assume "stored svs cty s y Fy r"
  then show "y \<in> Fy" by (rule stored_basic)
qed (use assms in auto)

lemma chain_subset_stored:
  "chain svs (vector_data s) (stored svs cty s) x Fc e \<Longrightarrow> Fc \<subseteq> {..<length (vector_data s)}"
  by (erule chain_subset) (rule stored_subset)

lemma StandardValueCopy_frame:
  assumes "cell_ok p c" "p \<noteq> VARCHAR"
  shows "\<exists>hs c'. StandardValueCopy meta s c = Inr (s\<lparr>heap := heap s @ hs\<rparr>, c') \<and>
                 read_cell (heap s @ hs) c' = Inr (input_cell c)"
proof -
  have "read_cell (heap s @ []) c = Inr (input_cell c)"
    using assms by (cases c) (auto simp: cell_ok_def read_cell_def input_cell_def split: string_t.splits)
  moreover have "StandardValueCopy meta s c = Inr (s\<lparr>heap := heap s @ []\<rparr>, c)"
    by (simp add: StandardValueCopy_def)
  ultimately show ?thesis by blast
qed

lemma StringValueCopy_frame:
  assumes "cell_ok p c"
  shows "\<exists>hs c'. StringValueCopy meta s c = Inr (s\<lparr>heap := heap s @ hs\<rparr>, c') \<and>
                 read_cell (heap s @ hs) c' = Inr (input_cell c)"
proof -
  have keep: "StringValueCopy meta s c = Inr (s, c) \<Longrightarrow> read_cell (heap s) c = Inr (input_cell c) \<Longrightarrow> ?thesis"
  proof -
    assume "StringValueCopy meta s c = Inr (s, c)" "read_cell (heap s) c = Inr (input_cell c)"
    then have "StringValueCopy meta s c = Inr (s\<lparr>heap := heap s @ []\<rparr>, c) \<and>
               read_cell (heap s @ []) c = Inr (input_cell c)" by simp
    then show ?thesis by blast
  qed
  show ?thesis
  proof (cases c)
    case (String st)
    show ?thesis
    proof (cases st)
      case (Inlined b)
      show ?thesis
        by (rule keep) (simp_all add: String Inlined StringValueCopy_def read_cell_def input_cell_def)
    next
      case (External b)
      have "StringValueCopy meta s c =
              Inr (s\<lparr>heap := heap s @ [b]\<rparr>, String (InHeap (length (heap s))))"
        by (simp add: String External StringValueCopy_def AddBlob_def)
      moreover have "read_cell (heap s @ [b]) (String (InHeap (length (heap s)))) = Inr (input_cell c)"
        by (simp add: String External read_cell_def input_cell_def)
      ultimately show ?thesis by blast
    next
      case (InHeap i)
      then show ?thesis using assms String by (simp add: cell_ok_def)
    qed
  next
    case Uninit
    show ?thesis by (rule keep) (simp_all add: Uninit StringValueCopy_def read_cell_def input_cell_def)
  next
    case (Fixed x)
    show ?thesis by (rule keep) (simp_all add: Fixed StringValueCopy_def read_cell_def input_cell_def)
  next
    case (ListEntry a b)
    show ?thesis by (rule keep) (simp_all add: ListEntry StringValueCopy_def read_cell_def input_cell_def)
  qed
qed

lemma ListValueCopy_frame:
  "\<exists>hs c'. ListValueCopy meta s c = Inr (s\<lparr>heap := heap s @ hs\<rparr>, c') \<and>
     c' = (case c of ListEntry off len \<Rightarrow> ListEntry (off + child_list_size meta) len | _ \<Rightarrow> c)"
proof -
  have "ListValueCopy meta s c =
     Inr (s\<lparr>heap := heap s @ []\<rparr>,
          case c of ListEntry off len \<Rightarrow> ListEntry (off + child_list_size meta) len | _ \<Rightarrow> c)"
    by (simp add: ListValueCopy_def split: cell.splits)
  then show ?thesis by blast
qed

lemma copy_ok_scalar:
  assumes cf: "GetCopyFunction (Scalar p) = Inr cf"
  shows "copy_ok svs (Scalar p) cf"
  unfolding copy_ok_def
proof (intro allI impI)
  fix seg :: ColumnDataCollectionSegment and idx F rows n v off and meta :: ColumnDataMetaData
  assume st: "stored svs (Scalar p) seg idx F rows" and fit: "length rows + n \<le> svs"
    and n: "0 < n" and mi: "vector_data_index meta = idx"
    and vok: "vector_ok (Scalar p) v off n"
  let ?pool = "vector_data seg"
  let ?v = "?pool ! idx"
  let ?f = "\<lambda>h (i::nat) c. read_cell h c"
  let ?R = "\<lambda>h c c'. read_cell h c' = Inr (input_cell c)"
  have idx: "idx < length ?pool" and so: "slot_ok svs ?v" and F: "F = {idx}"
    and rr: "read_rows ?v (?f (heap seg)) = Inr rows" and lr: "length rows = vcount ?v"
    using st stored_basic[OF st] by auto
  have cok: "\<forall>i<n. src_valid (Orrify v) (off + i) \<longrightarrow>
                   cell_ok p (data (Orrify v) (sel (Orrify v) (off + i)))"
    using vok by (simp add: list_all_length src_valid_def Let_def)
  obtain OP where call: "call_copy svs cf meta (Orrify v) v off n seg =
        Some (TemplatedColumnDataCopy svs OP meta (Orrify v) off n seg)"
    and OP: "\<And>s c. cell_ok p c \<Longrightarrow>
               \<exists>hs c'. OP meta s c = Inr (s\<lparr>heap := heap s @ hs\<rparr>, c') \<and> ?R (heap s @ hs) c c'"
  proof (cases "p = VARCHAR")
    case True
    then have "cf = ColumnDataCopyFunction CopyString []" using cf by simp
    then show ?thesis using that[of StringValueCopy] StringValueCopy_frame[of p] by simp
  next
    case False
    then have "cf = ColumnDataCopyFunction CopyStandard []" using cf by (cases p) auto
    then show ?thesis using that[of StandardValueCopy] StandardValueCopy_frame[OF _ False] by simp
  qed
  have sizes: "length (vdata ?v) = svs" "length (vvalidity ?v) = svs" "vcount ?v + n \<le> svs"
    and tail: "0 < vcount ?v \<Longrightarrow> \<forall>j. vcount ?v \<le> j \<and> j < svs \<longrightarrow> vvalidity ?v ! j"
    using so fit lr by (auto simp: slot_ok_def)
  have "\<exists>hs v'. TemplatedColumnDataCopy svs OP meta (Orrify v) off n seg =
            Inr (seg\<lparr>vector_data := ?pool[idx := v'], heap := heap seg @ hs\<rparr>) \<and>
      vcount v' = vcount ?v + n \<and> child_index v' = child_index ?v \<and> next_data v' = next_data ?v \<and>
      length (vdata v') = svs \<and> length (vvalidity v') = svs \<and>
      (\<forall>j<vcount ?v. vvalidity v' ! j = vvalidity ?v ! j \<and> vdata v' ! j = vdata ?v ! j) \<and>
      (\<forall>i<n. vvalidity v' ! (vcount ?v + i) = src_valid (Orrify v) (off + i) \<and>
              (src_valid (Orrify v) (off + i) \<longrightarrow>
                 ?R (heap seg @ hs) (data (Orrify v) (sel (Orrify v) (off + i))) (vdata v' ! (vcount ?v + i)))) \<and>
      (\<forall>j. vcount ?v + n \<le> j \<and> j < svs \<longrightarrow> vvalidity v' ! j)"
  proof (rule TemplatedColumnDataCopy_correct[where cok = "cell_ok p" and R = ?R])
    show "\<And>s c. cell_ok p c \<Longrightarrow>
               \<exists>hs c'. OP meta s c = Inr (s\<lparr>heap := heap s @ hs\<rparr>, c') \<and> ?R (heap s @ hs) c c'"
      by (rule OP)
    show "\<And>h hs c c'. ?R h c c' \<Longrightarrow> ?R (h @ hs) c c'"
      by (rule read_cell_app)
    show "\<forall>i<n. src_valid (Orrify v) (off + i) \<longrightarrow>
                   cell_ok p (data (Orrify v) (sel (Orrify v) (off + i)))" by (rule cok)
    show "idx = vector_data_index meta" using mi by simp
    show "idx < length ?pool" by fact
    show "?v = ?pool ! idx" by simp
    show "length (vdata ?v) = svs" "length (vvalidity ?v) = svs" "vcount ?v + n \<le> svs" by fact+
    show "0 < vcount ?v \<Longrightarrow> \<forall>j. vcount ?v \<le> j \<and> j < svs \<longrightarrow> vvalidity ?v ! j" by (rule tail)
  qed
  then obtain hs v' where T: "TemplatedColumnDataCopy svs OP meta (Orrify v) off n seg =
            Inr (seg\<lparr>vector_data := ?pool[idx := v'], heap := heap seg @ hs\<rparr>)"
    and v': "vcount v' = vcount ?v + n" "child_index v' = child_index ?v" "next_data v' = next_data ?v"
      "length (vdata v') = svs" "length (vvalidity v') = svs"
      "\<forall>j<vcount ?v. vvalidity v' ! j = vvalidity ?v ! j \<and> vdata v' ! j = vdata ?v ! j"
      "\<forall>i<n. vvalidity v' ! (vcount ?v + i) = src_valid (Orrify v) (off + i) \<and>
              (src_valid (Orrify v) (off + i) \<longrightarrow>
                 ?R (heap seg @ hs) (data (Orrify v) (sel (Orrify v) (off + i))) (vdata v' ! (vcount ?v + i)))"
      "\<forall>j. vcount ?v + n \<le> j \<and> j < svs \<longrightarrow> vvalidity v' ! j"
    by (elim exE conjE) (rule that)
  let ?seg' = "seg\<lparr>vector_data := ?pool[idx := v'], heap := heap seg @ hs\<rparr>"
  let ?new = "vector_rows (Scalar p) v off n"
  have so': "slot_ok svs v'" using v' sizes by (simp add: slot_ok_def)
  have old: "\<forall>j<vcount ?v. vvalidity ?v ! j \<longrightarrow>
               ?f (heap seg @ hs) j (vdata ?v ! j) = ?f (heap seg) j (vdata ?v ! j)"
  proof (intro allI impI)
    fix j assume j: "j < vcount ?v" "vvalidity ?v ! j"
    then have "read_cell (heap seg) (vdata ?v ! j) = Inr (rows ! j)"
      using rr unfolding read_rows_Inr_iff by (auto split: if_splits)
    moreover from this have "read_cell (heap seg @ hs) (vdata ?v ! j) = Inr (rows ! j)"
      by (rule read_cell_app)
    ultimately show "?f (heap seg @ hs) j (vdata ?v ! j) = ?f (heap seg) j (vdata ?v ! j)" by simp
  qed
  have "read_rows v' (?f (heap seg @ hs)) = Inr (rows @ ?new)"
  proof (rule read_rows_append[OF rr v'(1)])
    show "vcount v' \<le> length (vdata v')" "vcount v' \<le> length (vvalidity v')"
      using v' sizes by auto
    show "\<forall>j<vcount ?v. vvalidity v' ! j = vvalidity ?v ! j \<and> vdata v' ! j = vdata ?v ! j" by fact
    show "\<forall>j<vcount ?v. vvalidity ?v ! j \<longrightarrow>
               ?f (heap seg @ hs) j (vdata ?v ! j) = ?f (heap seg) j (vdata ?v ! j)" by (rule old)
    show "length ?new = n" by simp
    show "\<forall>i<n. (if vvalidity v' ! (vcount ?v + i)
               then ?f (heap seg @ hs) (vcount ?v + i) (vdata v' ! (vcount ?v + i)) else Inr Null) = Inr (?new ! i)"
      using v'(7) by (auto simp: src_valid_def Let_def)
  qed
  then have st': "stored svs (Scalar p) ?seg' idx F (rows @ ?new)"
    using idx so' F by simp
  have fr': "frame seg ?seg' F" using F idx by (auto simp: frame_def)
  have nd': "next_data (vector_data ?seg' ! idx) = next_data ?v" using idx v' by simp
  have "copy_post svs (Scalar p) seg idx F (rows @ ?new) ?seg' F"
    unfolding copy_post_def using st' fr' nd' by blast
  then show "\<exists>seg' F'. call_copy svs cf meta (Orrify v) v off n seg = Some (Inr seg') \<and>
                   copy_post svs (Scalar p) seg idx F (rows @ ?new) seg' F'"
    using call T by auto
qed

lemma list_row_value_append:
  "list_row_value elems i c = Inr r \<Longrightarrow> list_row_value (elems @ ys) i c = Inr r"
  by (auto simp: list_row_value_def split: cell.splits if_splits)

lemma child_storage_chain:
  assumes "idx < length (vector_data s)" "child_index (vector_data s ! idx) = Some ci"
    "ci < length (child_indices s)" "child_indices s ! ci = Some root"
    "chain svs (vector_data s) (stored svs cty s) root Fc elems"
  shows "child_storage cty s idx = Some (Inr elems)"
proof -
  have "read_chain (ReadVector cty) s (Some root, []) = Some (Inr ([] @ elems))"
    using assms(5) by (rule read_chain_correct) (rule ReadVector_stored)
  then show ?thesis
    using assms(1-4) by (simp add: child_storage_def GetVectorData_def GetChildIndex_def)
qed

lemma list_copy_detail:
  fixes seg :: ColumnDataCollectionSegment and meta :: ColumnDataMetaData
  assumes svs: "0 < svs" and ok: "copy_ok svs cty cfc"
    and st: "stored svs (LIST cty) seg idx F rows" and fit: "length rows + n \<le> svs"
    and n: "0 < n" and vok: "vector_ok (LIST cty) v off n" and mi: "vector_data_index meta = idx"
  shows "\<exists>seg' F' elems.
      call_copy svs (ColumnDataCopyFunction CopyList [cfc]) meta (Orrify v) v off n seg = Some (Inr seg') \<and>
      copy_post svs (LIST cty) seg idx F (rows @ vector_rows (LIST cty) v off n) seg' F' \<and>
      child_storage cty seg idx = Some (Inr elems) \<and>
      child_storage cty seg' idx = Some (Inr (elems @ child_rows cty v)) \<and>
      (\<forall>i<n. src_valid (Orrify v) (off + i) \<longrightarrow>
         (\<exists>o' l. data (Orrify v) (sel (Orrify v) (off + i)) = ListEntry o' l \<and>
                 o' + l \<le> GetListSize v \<and>
                 vdata (vector_data seg' ! idx) ! (length rows + i) =
                   ListEntry (o' + (if 0 < GetListSize v then length elems else 0)) l)) \<and>
      (\<forall>j<length rows. vdata (vector_data seg' ! idx) ! j = vdata (vector_data seg ! idx) ! j \<and>
                          vvalidity (vector_data seg' ! idx) ! j = vvalidity (vector_data seg ! idx) ! j)"
proof -
  let ?pool = "vector_data seg"
  let ?v = "?pool ! idx"
  let ?ls = "GetListSize v"
  have idx: "idx < length ?pool" and so: "slot_ok svs ?v" and lr: "length rows = vcount ?v"
    and idxF: "idx \<in> F"
    using stored_basic[OF st] by auto
  have Fsub: "F \<subseteq> {..<length ?pool}" using st by (rule stored_subset)
  obtain child rest where ge: "GetEntries v = child # rest"
    and cok: "vector_ok cty child 0 ?ls"
    using vok by (auto split: list.splits)
  have ent: "\<forall>i<n. src_valid (Orrify v) (off + i) \<longrightarrow>
               (\<exists>o' l. data (Orrify v) (sel (Orrify v) (off + i)) = ListEntry o' l \<and> o' + l \<le> ?ls)"
  proof (intro allI impI)
    fix i assume i: "i < n" "src_valid (Orrify v) (off + i)"
    show "\<exists>o' l. data (Orrify v) (sel (Orrify v) (off + i)) = ListEntry o' l \<and> o' + l \<le> ?ls"
      using vok i
      by (cases "data (Orrify v) (sel (Orrify v) (off + i))")
         (auto simp: list_all_length Let_def src_valid_def split: cell.splits)
  qed
  let ?crows = "vector_rows cty child 0 ?ls"
  have g0: "GetVectorData seg idx = Inr ?v" using idx by (simp add: GetVectorData_def)
  \<comment> \<open>phase A: the child chain exists\<close>
  define seg1 where "seg1 =
            (if child_index ?v = None then
               (let (s1, child_index1) = AllocateVector svs (GetType child) seg;
                    (s2, ci) = AddChildIndex s1 child_index1
                in SetVectorData s2 (vector_data_index meta) (?v\<lparr>child_index := Some ci\<rparr>))
             else seg)"
  have A: "\<exists>ci root Fc elems.
        idx < length (vector_data seg1) \<and>
        child_index (vector_data seg1 ! idx) = Some ci \<and>
        vcount (vector_data seg1 ! idx) = vcount ?v \<and> vdata (vector_data seg1 ! idx) = vdata ?v \<and>
        vvalidity (vector_data seg1 ! idx) = vvalidity ?v \<and>
        next_data (vector_data seg1 ! idx) = next_data ?v \<and>
        ci < length (child_indices seg1) \<and> child_indices seg1 ! ci = Some root \<and>
        chain svs (vector_data seg1) (stored svs cty seg1) root Fc elems \<and> idx \<notin> Fc \<and>
        read_rows ?v (list_row_value elems) = Inr rows \<and>
        frame seg seg1 F \<and> F \<subseteq> insert idx Fc \<and>
        Fc \<subseteq> F \<union> {length ?pool..<length (vector_data seg1)} \<and>
        child_storage cty seg idx = Some (Inr elems)"
  proof (cases "child_index ?v")
    case None
    then have z: "vcount ?v = 0" "F = {idx}" "rows = []" using st by auto
    obtain s1 r where al: "AllocateVector svs (GetType child) seg = (s1, r)"
      by (cases "AllocateVector svs (GetType child) seg")
    note P = AllocateVector_props[OF al]
    let ?ci = "length (child_indices seg)"
    let ?fresh = "\<lparr>vcount = 0, child_index = None, next_data = None,
          vdata = replicate svs Uninit, vvalidity = replicate svs False\<rparr>"
    have s1: "seg1 = SetVectorData (s1\<lparr>child_indices := child_indices s1 @ [Some r]\<rparr>) idx
                (?v\<lparr>child_index := Some ?ci\<rparr>)"
      using None al P(3) mi by (simp add: seg1_def AddChildIndex_def)
    have pool1: "vector_data seg1 = (?pool @ [?fresh])[idx := ?v\<lparr>child_index := Some ?ci\<rparr>]"
      using s1 P(2) by (simp add: SetVectorData_def)
    have ci1: "child_indices seg1 = child_indices seg @ [Some r]"
      using s1 P(3) by (simp add: SetVectorData_def)
    have oth: "chunk_data seg1 = chunk_data seg" "seg_types seg1 = seg_types seg"
      "seg_count seg1 = seg_count seg" "heap seg1 = heap seg" "heap seg1 = heap s1"
      using s1 P by (simp_all add: SetVectorData_def)
    have r: "r = length ?pool" using P(1) .
    have "stored svs cty seg1 r {r} []"
    proof (rule stored_frame[OF AllocateVector_stored[OF al]])
      show "\<forall>i\<in>{r}. vector_data seg1 ! i = vector_data s1 ! i"
        using pool1 P(2) r idx by simp
      show "length (vector_data s1) \<le> length (vector_data seg1)" using pool1 P(2) by simp
      show "take (length (child_indices s1)) (child_indices seg1) = child_indices s1"
        using ci1 P(3) by simp
      show "take (length (heap s1)) (heap seg1) = heap s1" using oth by simp
    qed
    moreover have "r < length (vector_data seg1)" using pool1 r by simp
    moreover have "next_data (vector_data seg1 ! r) = None" using pool1 r idx by (simp add: nth_append)
    ultimately have ch: "chain svs (vector_data seg1) (stored svs cty seg1) r {r} []"
      by (rule chain.chain_last)
    have fr: "frame seg seg1 F"
      using pool1 ci1 oth z(2) idx by (auto simp: frame_def nth_append)
    have rr: "read_rows ?v (list_row_value []) = Inr rows" using z by (simp add: read_rows_empty)
    have cs: "child_storage cty seg idx = Some (Inr [])"
      using None idx by (simp add: child_storage_def GetVectorData_def)
    show ?thesis
      apply (rule exI[of _ ?ci], rule exI[of _ r], rule exI[of _ "{r}"], rule exI[of _ "[]"])
      using pool1 ci1 idx ch rr fr z(2) r cs by (auto simp: nth_append)
  next
    case (Some ci)
    with st obtain root Fc elems where
      c: "ci < length (child_indices seg)" "child_indices seg ! ci = Some root"
      and chn: "chain svs ?pool (stored svs cty seg) root Fc elems"
      and F: "idx \<notin> Fc" "F = insert idx Fc"
      and rr: "read_rows ?v (list_row_value elems) = Inr rows"
      by auto
    have e: "seg1 = seg" using Some by (simp add: seg1_def)
    have cs: "child_storage cty seg idx = Some (Inr elems)"
      using idx Some c chn by (rule child_storage_chain)
    show ?thesis
      apply (rule exI[of _ ci], rule exI[of _ root], rule exI[of _ Fc], rule exI[of _ elems])
      using e Some c chn F rr idx cs by (auto simp: frame_refl)
  qed
  then obtain ci root Fc elems where
    A1: "idx < length (vector_data seg1)" "child_index (vector_data seg1 ! idx) = Some ci"
      "vcount (vector_data seg1 ! idx) = vcount ?v" "vdata (vector_data seg1 ! idx) = vdata ?v"
      "vvalidity (vector_data seg1 ! idx) = vvalidity ?v"
      "next_data (vector_data seg1 ! idx) = next_data ?v"
    and A2: "ci < length (child_indices seg1)" "child_indices seg1 ! ci = Some root"
    and A3: "chain svs (vector_data seg1) (stored svs cty seg1) root Fc elems" "idx \<notin> Fc"
    and A4: "read_rows ?v (list_row_value elems) = Inr rows"
    and A5: "frame seg seg1 F" "F \<subseteq> insert idx Fc"
      "Fc \<subseteq> F \<union> {length ?pool..<length (vector_data seg1)}"
    and A6: "child_storage cty seg idx = Some (Inr elems)"
    by blast
  let ?pool1 = "vector_data seg1"
  let ?loop = "list_child_loop svs (call_copy svs cfc) (Orrify child) child ?ls (GetType child)
                 (seg1, root, ?ls, 0)"
  \<comment> \<open>phase B: the loop over the child values\<close>
  have B: "\<exists>seg2 Fc2 cls. ?loop = Some (Inr (seg2, cls)) \<and>
        chain svs (vector_data seg2) (stored svs cty seg2) root Fc2 (elems @ ?crows) \<and>
        Fc \<subseteq> Fc2 \<and> Fc2 \<subseteq> Fc \<union> {length ?pool1..<length (vector_data seg2)} \<and>
        frame seg1 seg2 Fc \<and> (0 < ?ls \<longrightarrow> cls = length elems) \<and> (?ls = 0 \<longrightarrow> cls = 0)"
  proof (cases "0 < ?ls")
    case True
    from list_child_loop_chain[OF svs ok cok A3(1) True order_refl, of "GetType child" 0]
    show ?thesis using True by auto
  next
    case False
    then have z: "?ls = 0" by simp
    have "?loop = Some (Inr (seg1, 0))" using z by (simp add: list_child_loop_done)
    moreover have "chain svs ?pool1 (stored svs cty seg1) root Fc (elems @ ?crows)"
      using A3(1) z by simp
    ultimately show ?thesis using z by (auto simp: frame_refl)
  qed
  then obtain seg2 Fc2 cls where
    loop: "?loop = Some (Inr (seg2, cls))"
    and ch2: "chain svs (vector_data seg2) (stored svs cty seg2) root Fc2 (elems @ ?crows)"
    and Fc2: "Fc \<subseteq> Fc2" "Fc2 \<subseteq> Fc \<union> {length ?pool1..<length (vector_data seg2)}"
    and fr12: "frame seg1 seg2 Fc"
    and cls: "0 < ?ls \<longrightarrow> cls = length elems" "?ls = 0 \<longrightarrow> cls = 0"
    by (elim exE conjE) (rule that)
  let ?pool2 = "vector_data seg2"
  have len12: "length ?pool1 \<le> length ?pool2" using fr12 by (simp add: frame_def)
  have p2: "?pool2 ! idx = ?pool1 ! idx" using fr12 A1(1) A3(2) by (simp add: frame_def)
  have idx2: "idx < length ?pool2" using A1(1) len12 by simp
  have idxFc2: "idx \<notin> Fc2" using Fc2(2) A3(2) A1(1) by auto
  \<comment> \<open>phase C: the list entries\<close>
  let ?meta = "meta\<lparr>child_list_size := cls\<rparr>"
  let ?g = "\<lambda>c. case c of ListEntry off len \<Rightarrow> ListEntry (off + cls) len | _ \<Rightarrow> c"
  let ?v2 = "?pool2 ! idx"
  have cl: "child_list_size ?meta = cls" by simp
  have sizes: "length (vdata ?v2) = svs" "length (vvalidity ?v2) = svs" "vcount ?v2 + n \<le> svs"
    and tail: "0 < vcount ?v2 \<Longrightarrow> \<forall>j. vcount ?v2 \<le> j \<and> j < svs \<longrightarrow> vvalidity ?v2 ! j"
    using so fit lr p2 A1 by (auto simp: slot_ok_def)
  have "\<exists>hs v'. TemplatedColumnDataCopy svs ListValueCopy ?meta (Orrify v) off n seg2 =
            Inr (seg2\<lparr>vector_data := ?pool2[idx := v'], heap := heap seg2 @ hs\<rparr>) \<and>
      vcount v' = vcount ?v2 + n \<and> child_index v' = child_index ?v2 \<and> next_data v' = next_data ?v2 \<and>
      length (vdata v') = svs \<and> length (vvalidity v') = svs \<and>
      (\<forall>j<vcount ?v2. vvalidity v' ! j = vvalidity ?v2 ! j \<and> vdata v' ! j = vdata ?v2 ! j) \<and>
      (\<forall>i<n. vvalidity v' ! (vcount ?v2 + i) = src_valid (Orrify v) (off + i) \<and>
              (src_valid (Orrify v) (off + i) \<longrightarrow>
                 (\<lambda>h c c'. c' = ?g c) (heap seg2 @ hs) (data (Orrify v) (sel (Orrify v) (off + i)))
                    (vdata v' ! (vcount ?v2 + i)))) \<and>
      (\<forall>j. vcount ?v2 + n \<le> j \<and> j < svs \<longrightarrow> vvalidity v' ! j)"
  proof (rule TemplatedColumnDataCopy_correct[where cok = "\<lambda>c. True" and R = "\<lambda>h c c'. c' = ?g c"])
    show "\<And>s c. True \<Longrightarrow> \<exists>hs c'. ListValueCopy ?meta s c = Inr (s\<lparr>heap := heap s @ hs\<rparr>, c') \<and> c' = ?g c"
      using ListValueCopy_frame[of ?meta] unfolding cl .
    show "\<And>h hs c c'. c' = ?g c \<Longrightarrow> c' = ?g c" .
    show "\<forall>i<n. src_valid (Orrify v) (off + i) \<longrightarrow> True" by simp
    show "idx = vector_data_index ?meta" using mi by simp
    show "idx < length ?pool2" by fact
    show "?v2 = ?pool2 ! idx" by simp
    show "length (vdata ?v2) = svs" "length (vvalidity ?v2) = svs" "vcount ?v2 + n \<le> svs" by fact+
    show "0 < vcount ?v2 \<Longrightarrow> \<forall>j. vcount ?v2 \<le> j \<and> j < svs \<longrightarrow> vvalidity ?v2 ! j" by (rule tail)
  qed
  then obtain hs v' where T: "TemplatedColumnDataCopy svs ListValueCopy ?meta (Orrify v) off n seg2 =
            Inr (seg2\<lparr>vector_data := ?pool2[idx := v'], heap := heap seg2 @ hs\<rparr>)"
    and v': "vcount v' = vcount ?v2 + n" "child_index v' = child_index ?v2" "next_data v' = next_data ?v2"
      "length (vdata v') = svs" "length (vvalidity v') = svs"
      "\<forall>j<vcount ?v2. vvalidity v' ! j = vvalidity ?v2 ! j \<and> vdata v' ! j = vdata ?v2 ! j"
      "\<forall>i<n. vvalidity v' ! (vcount ?v2 + i) = src_valid (Orrify v) (off + i) \<and>
              (src_valid (Orrify v) (off + i) \<longrightarrow>
                 vdata v' ! (vcount ?v2 + i) = ?g (data (Orrify v) (sel (Orrify v) (off + i))))"
      "\<forall>j. vcount ?v2 + n \<le> j \<and> j < svs \<longrightarrow> vvalidity v' ! j"
    by auto
  let ?seg3 = "seg2\<lparr>vector_data := ?pool2[idx := v'], heap := heap seg2 @ hs\<rparr>"
  let ?new = "vector_rows (LIST cty) v off n"
  let ?F' = "insert idx Fc2"
  \<comment> \<open>the result of the call\<close>
  have g1: "GetVectorData seg1 idx = Inr (?pool1 ! idx)" using A1(1) by (simp add: GetVectorData_def)
  have gc: "GetChildIndex seg1 ci 0 = Inr root" using A2 by (simp add: GetChildIndex_def)
  have call: "call_copy svs (ColumnDataCopyFunction CopyList [cfc]) meta (Orrify v) v off n seg = Some (Inr ?seg3)"
    using ge g0 g1 A1(2) gc loop T mi
    by (simp add: ColumnDataCopy_list_def seg1_def[symmetric] Let_def)
  \<comment> \<open>the rows\<close>
  have so': "slot_ok svs v'" using v' sizes by (simp add: slot_ok_def)
  have rr2: "read_rows ?v2 (list_row_value elems) = Inr rows"
    using A4 unfolding read_rows_def p2 A1(3) A1(4) A1(5) .
  have lcr: "length ?crows = ?ls" by simp
  have rows': "read_rows v' (list_row_value (elems @ ?crows)) = Inr (rows @ ?new)"
  proof (rule read_rows_append[OF rr2 v'(1)])
    show "vcount v' \<le> length (vdata v')" "vcount v' \<le> length (vvalidity v')"
      using v' sizes by auto
    show "\<forall>j<vcount ?v2. vvalidity v' ! j = vvalidity ?v2 ! j \<and> vdata v' ! j = vdata ?v2 ! j" by fact
    show "\<forall>j<vcount ?v2. vvalidity ?v2 ! j \<longrightarrow>
            list_row_value (elems @ ?crows) j (vdata ?v2 ! j) = list_row_value elems j (vdata ?v2 ! j)"
    proof (intro allI impI)
      fix j assume j: "j < vcount ?v2" "vvalidity ?v2 ! j"
      then have "list_row_value elems j (vdata ?v2 ! j) = Inr (rows ! j)"
        using rr2 by (auto simp: read_rows_Inr_iff)
      then show "list_row_value (elems @ ?crows) j (vdata ?v2 ! j) = list_row_value elems j (vdata ?v2 ! j)"
        using list_row_value_append by metis
    qed
    show "length ?new = n" by simp
    show "\<forall>i<n. (if vvalidity v' ! (vcount ?v2 + i)
               then list_row_value (elems @ ?crows) (vcount ?v2 + i) (vdata v' ! (vcount ?v2 + i))
               else Inr Null) = Inr (?new ! i)"
    proof (intro allI impI)
      fix i assume i: "i < n"
      show "(if vvalidity v' ! (vcount ?v2 + i)
               then list_row_value (elems @ ?crows) (vcount ?v2 + i) (vdata v' ! (vcount ?v2 + i))
               else Inr Null) = Inr (?new ! i)"
      proof (cases "src_valid (Orrify v) (off + i)")
        case False
        then show ?thesis using v'(7) i ge by (simp add: src_valid_def Let_def)
      next
        case True
        then obtain o' l where e: "data (Orrify v) (sel (Orrify v) (off + i)) = ListEntry o' l"
          "o' + l \<le> ?ls" using ent i by blast
        have d: "vdata v' ! (vcount ?v2 + i) = ListEntry (o' + cls) l" using v'(7) i True e by simp
        have "list_row_value (elems @ ?crows) (vcount ?v2 + i) (ListEntry (o' + cls) l)
                = Inr (ListValue (take l (drop o' ?crows)))"
        proof (cases "0 < ?ls")
          case True
          then have "cls = length elems" using cls by simp
          then show ?thesis using e(2) lcr by (simp add: list_row_value_def)
        next
          case False
          then have "cls = 0" "o' = 0" "l = 0" using cls e(2) by auto
          then show ?thesis by (simp add: list_row_value_def)
        qed
        then show ?thesis using v'(7) i True d e ge by (simp add: src_valid_def Let_def)
      qed
    qed
  qed
  \<comment> \<open>the chain in the final segment\<close>
  have Fc2sub: "Fc2 \<subseteq> {..<length ?pool2}" using ch2 by (rule chain_subset_stored)
  have ch3: "chain svs (vector_data ?seg3) (stored svs cty ?seg3) root Fc2 (elems @ ?crows)"
  proof (rule chain_stored_frame[OF ch2])
    show "\<forall>i\<in>Fc2. vector_data ?seg3 ! i = ?pool2 ! i" using idxFc2 by (simp, metis nth_list_update_neq)
    show "length ?pool2 \<le> length (vector_data ?seg3)" by simp
    show "take (length (child_indices seg2)) (child_indices ?seg3) = child_indices seg2" by simp
    show "take (length (heap seg2)) (heap ?seg3) = heap seg2" by simp
  qed
  have ci2: "ci < length (child_indices seg2)" "child_indices seg2 ! ci = Some root"
    using take_prefixD[of "child_indices seg1" "child_indices seg2"] fr12 A2
    by (auto simp: frame_def)
  have st': "stored svs (LIST cty) ?seg3 idx ?F' (rows @ ?new)"
  proof -
    have "\<exists>root Fc elems.
                ci < length (child_indices ?seg3) \<and> child_indices ?seg3 ! ci = Some root \<and>
                chain svs (vector_data ?seg3) (stored svs cty ?seg3) root Fc elems \<and>
                idx \<notin> Fc \<and> ?F' = insert idx Fc \<and>
                read_rows (vector_data ?seg3 ! idx) (list_row_value elems) = Inr (rows @ ?new)"
      apply (rule exI[of _ root], rule exI[of _ Fc2], rule exI[of _ "elems @ ?crows"])
      using ci2 ch3 idxFc2 rows' idx2 by simp
    moreover have "child_index (vector_data ?seg3 ! idx) = Some ci"
      using idx2 v'(2) p2 A1(2) by simp
    moreover have "slot_ok svs (vector_data ?seg3 ! idx)" using idx2 so' by simp
    moreover have "idx < length (vector_data ?seg3)" using idx2 by simp
    ultimately show ?thesis by (simp del: vector_rows.simps)
  qed
  \<comment> \<open>footprints and frame\<close>
  have sub1: "F \<subseteq> ?F'" using A5(2) Fc2(1) by auto
  have len01: "length ?pool \<le> length ?pool1" using A5(1) by (simp add: frame_def)
  have sub2: "?F' \<subseteq> F \<union> {length ?pool..<length (vector_data ?seg3)}"
  proof
    fix i assume "i \<in> ?F'"
    then consider "i = idx" | "i \<in> Fc2" by auto
    then show "i \<in> F \<union> {length ?pool..<length (vector_data ?seg3)}"
    proof cases
      case 1
      then show ?thesis using idxF by simp
    next
      case 2
      then have "i \<in> Fc \<or> i \<in> {length ?pool1..<length ?pool2}" using Fc2(2) by auto
      then show ?thesis
      proof
        assume "i \<in> Fc"
        then have "i \<in> F \<union> {length ?pool..<length ?pool1}" using A5(3) by auto
        then show ?thesis using len12 by auto
      next
        assume "i \<in> {length ?pool1..<length ?pool2}"
        then show ?thesis using len01 by auto
      qed
    qed
  qed
  have fr02: "frame seg seg2 F"
  proof (rule frame_trans[OF A5(1) fr12])
    show "Fc \<subseteq> F \<union> {length ?pool..}" using A5(3) by auto
  qed
  have fr23: "frame seg2 ?seg3 {idx}" using idx2 by (auto simp: frame_def)
  have fr: "frame seg ?seg3 F"
  proof (rule frame_trans[OF fr02 fr23])
    show "{idx} \<subseteq> F \<union> {length ?pool..}" using idxF by simp
  qed
  have nd: "next_data (vector_data ?seg3 ! idx) = next_data ?v"
    using idx2 v'(3) p2 A1(6) by simp
  have post: "copy_post svs (LIST cty) seg idx F (rows @ ?new) ?seg3 ?F'"
    unfolding copy_post_def using st' sub1 sub2 fr nd by blast
  \<comment> \<open>the child storage and the entries\<close>
  have crs: "child_rows cty v = ?crows" using ge by (simp add: child_rows_def)
  have v3: "vector_data ?seg3 ! idx = v'" using idx2 by simp
  have cs3: "child_storage cty ?seg3 idx = Some (Inr (elems @ child_rows cty v))"
    unfolding crs
  proof (rule child_storage_chain[OF _ _ _ _ ch3])
    show "idx < length (vector_data ?seg3)" using idx2 by simp
    show "child_index (vector_data ?seg3 ! idx) = Some ci" unfolding v3 using v'(2) p2 A1(2) by simp
    show "ci < length (child_indices ?seg3)" "child_indices ?seg3 ! ci = Some root"
      using ci2 by simp_all
  qed
  have c2: "vcount ?v2 = length rows" using p2 A1(3) lr by simp
  have adj: "cls = (if 0 < ?ls then length elems else 0)" using cls by auto
  have ents': "\<forall>i<n. src_valid (Orrify v) (off + i) \<longrightarrow>
         (\<exists>o' l. data (Orrify v) (sel (Orrify v) (off + i)) = ListEntry o' l \<and> o' + l \<le> ?ls \<and>
                 vdata (vector_data ?seg3 ! idx) ! (length rows + i) =
                   ListEntry (o' + (if 0 < ?ls then length elems else 0)) l)"
  proof (intro allI impI)
    fix i assume i: "i < n" and sv: "src_valid (Orrify v) (off + i)"
    then obtain o' l where e: "data (Orrify v) (sel (Orrify v) (off + i)) = ListEntry o' l"
      "o' + l \<le> ?ls" using ent by blast
    have "vdata v' ! (vcount ?v2 + i) = ListEntry (o' + cls) l" using v'(7) i sv e by simp
    then show "\<exists>o' l. data (Orrify v) (sel (Orrify v) (off + i)) = ListEntry o' l \<and> o' + l \<le> ?ls \<and>
                 vdata (vector_data ?seg3 ! idx) ! (length rows + i) =
                   ListEntry (o' + (if 0 < ?ls then length elems else 0)) l"
      unfolding v3 using e c2 adj by simp
  qed
  have olds: "\<forall>j<length rows. vdata (vector_data ?seg3 ! idx) ! j = vdata ?v ! j \<and>
                          vvalidity (vector_data ?seg3 ! idx) ! j = vvalidity ?v ! j"
    unfolding v3 using v'(6) c2 p2 A1(4) A1(5) by simp
  show ?thesis
    apply (rule exI[of _ ?seg3], rule exI[of _ ?F'], rule exI[of _ elems])
    using call post A6 cs3 ents' olds by blast
qed

lemma copy_ok_list:
  assumes svs: "0 < svs" and ok: "copy_ok svs cty cfc"
  shows "copy_ok svs (LIST cty) (ColumnDataCopyFunction CopyList [cfc])"
  unfolding copy_ok_def
proof (intro allI impI)
  fix seg :: ColumnDataCollectionSegment and idx F rows n v off and meta :: ColumnDataMetaData
  assume st: "stored svs (LIST cty) seg idx F rows" and fit: "length rows + n \<le> svs"
    and n: "0 < n" and vok: "vector_ok (LIST cty) v off n" and mi: "vector_data_index meta = idx"
  from list_copy_detail[OF svs ok st fit n vok mi]
  show "\<exists>seg' F'. call_copy svs (ColumnDataCopyFunction CopyList [cfc]) meta (Orrify v) v off n seg
                  = Some (Inr seg') \<and>
                   copy_post svs (LIST cty) seg idx F (rows @ vector_rows (LIST cty) v off n) seg' F'"
    by blast
qed

subsection \<open>The children of a struct\<close>

lemma fresh_stored:
  "i < length (vector_data s) \<Longrightarrow> vector_data s ! i = fresh_vector svs \<Longrightarrow> stored svs ty s i {i} []"
  by (cases ty; auto simp: fresh_vector_def slot_ok_def read_rows_empty)

lemma struct_alloc:
  fixes s1 :: ColumnDataCollectionSegment
  assumes idx: "idx < length (vector_data s1)"
  shows "\<exists>s2. (let (s, base_index) = ReserveChildren s1 (length tys)
                  in case for_loop 0 (length tys)
                            (\<lambda>child_idx s.
                               let (s', child_index1) = AllocateVector svs (tys ! child_idx) s
                               in SetChildIndex s' base_index child_idx child_index1)
                            s of
                       Inl e \<Rightarrow> Inl e
                     | Inr s2 \<Rightarrow>
                         (case GetVectorData s2 idx of
                            Inl e \<Rightarrow> Inl e
                          | Inr v \<Rightarrow> Inr (SetVectorData s2 idx (v\<lparr>child_index := Some base_index\<rparr>)))) = Inr s2 \<and>
     length (vector_data s2) = length (vector_data s1) + length tys \<and>
     vector_data s2 ! idx = (vector_data s1 ! idx)\<lparr>child_index := Some (length (child_indices s1))\<rparr> \<and>
     (\<forall>j<length (vector_data s1). j \<noteq> idx \<longrightarrow> vector_data s2 ! j = vector_data s1 ! j) \<and>
     (\<forall>j<length tys. vector_data s2 ! (length (vector_data s1) + j) = fresh_vector svs) \<and>
     length (child_indices s2) = length (child_indices s1) + length tys \<and>
     take (length (child_indices s1)) (child_indices s2) = child_indices s1 \<and>
     (\<forall>j<length tys. child_indices s2 ! (length (child_indices s1) + j) = Some (length (vector_data s1) + j)) \<and>
     chunk_data s2 = chunk_data s1 \<and> seg_types s2 = seg_types s1 \<and> seg_count s2 = seg_count s1 \<and>
     heap s2 = heap s1"
proof -
  let ?L = "length tys"
  let ?base = "length (child_indices s1)"
  let ?p = "length (vector_data s1)"
  let ?r = "s1\<lparr>child_indices := child_indices s1 @ replicate ?L None\<rparr>"
  let ?body = "\<lambda>child_idx s.
                               let (s', child_index1) = AllocateVector svs (tys ! child_idx) s
                               in SetChildIndex s' ?base child_idx child_index1"
  define I where "I = (\<lambda>k (s :: ColumnDataCollectionSegment).
      length (vector_data s) = ?p + k \<and> take ?p (vector_data s) = vector_data s1 \<and>
      (\<forall>j<k. vector_data s ! (?p + j) = fresh_vector svs) \<and>
      length (child_indices s) = ?base + ?L \<and>
      take ?base (child_indices s) = child_indices s1 \<and>
      (\<forall>j<k. child_indices s ! (?base + j) = Some (?p + j)) \<and>
      chunk_data s = chunk_data s1 \<and> seg_types s = seg_types s1 \<and> seg_count s = seg_count s1 \<and>
      heap s = heap s1)"
  have "\<exists>s'. for_loop 0 ?L ?body ?r = Inr s' \<and> I ?L s'"
  proof (rule for_loop_rule)
    show "I 0 ?r" by (simp add: I_def)
    show "0 \<le> ?L" by simp
    fix k and t :: ColumnDataCollectionSegment
    assume k: "k < ?L" and t: "I k t"
    let ?t1 = "t\<lparr>vector_data := vector_data t @ [fresh_vector svs]\<rparr>"
    let ?t2 = "?t1\<lparr>child_indices := (child_indices ?t1)[?base + k := Some (?p + k)]\<rparr>"
    have b: "?body k t = Inr ?t2"
      using k t by (simp add: I_def AllocateVector_def SetChildIndex_def fresh_vector_def)
    have "I (Suc k) ?t2"
      unfolding I_def
    proof (intro conjI allI impI)
      show "length (vector_data ?t2) = ?p + Suc k" using t by (simp add: I_def)
      show "take ?p (vector_data ?t2) = vector_data s1" using t by (simp add: I_def)
      show "\<And>j. j < Suc k \<Longrightarrow> vector_data ?t2 ! (?p + j) = fresh_vector svs"
        using t by (auto simp: I_def nth_append less_Suc_eq)
      show "length (child_indices ?t2) = ?base + ?L" using t by (simp add: I_def)
      show "take ?base (child_indices ?t2) = child_indices s1" using t by (simp add: I_def)
      show "\<And>j. j < Suc k \<Longrightarrow> child_indices ?t2 ! (?base + j) = Some (?p + j)"
        using t k by (auto simp: I_def nth_list_update less_Suc_eq)
      show "chunk_data ?t2 = chunk_data s1" "seg_types ?t2 = seg_types s1"
        "seg_count ?t2 = seg_count s1" "heap ?t2 = heap s1" using t by (simp_all add: I_def)
    qed
    then show "\<exists>t'. ?body k t = Inr t' \<and> I (Suc k) t'" using b by blast
  qed
  then obtain s' where l: "for_loop 0 ?L ?body ?r = Inr s'" and I: "I ?L s'" by blast
  have idx': "idx < length (vector_data s')" using I idx by (simp add: I_def)
  have old: "\<And>j. j < ?p \<Longrightarrow> vector_data s' ! j = vector_data s1 ! j"
    using I take_prefixD(2)[of "vector_data s1" "vector_data s'"] by (simp add: I_def)
  let ?s2 = "SetVectorData s' idx ((vector_data s' ! idx)\<lparr>child_index := Some ?base\<rparr>)"
  have e: "(let (s, base_index) = ReserveChildren s1 (length tys)
                  in case for_loop 0 (length tys)
                            (\<lambda>child_idx s.
                               let (s', child_index1) = AllocateVector svs (tys ! child_idx) s
                               in SetChildIndex s' base_index child_idx child_index1)
                            s of
                       Inl e \<Rightarrow> Inl e
                     | Inr s2 \<Rightarrow>
                         (case GetVectorData s2 idx of
                            Inl e \<Rightarrow> Inl e
                          | Inr v \<Rightarrow> Inr (SetVectorData s2 idx (v\<lparr>child_index := Some base_index\<rparr>)))) = Inr ?s2"
    using l idx' by (simp add: ReserveChildren_def GetVectorData_def)
  have "length (vector_data ?s2) = ?p + ?L" using I by (simp add: I_def SetVectorData_def)
  moreover have "vector_data ?s2 ! idx = (vector_data s1 ! idx)\<lparr>child_index := Some ?base\<rparr>"
    using idx' old[OF idx] by (simp add: SetVectorData_def)
  moreover have "\<forall>j<?p. j \<noteq> idx \<longrightarrow> vector_data ?s2 ! j = vector_data s1 ! j"
    using old by (simp add: SetVectorData_def)
  moreover have "\<forall>j<?L. vector_data ?s2 ! (?p + j) = fresh_vector svs"
    using I idx by (simp add: I_def SetVectorData_def)
  moreover have "length (child_indices ?s2) = ?base + ?L"
    "take ?base (child_indices ?s2) = child_indices s1"
    "\<forall>j<?L. child_indices ?s2 ! (?base + j) = Some (?p + j)"
    "chunk_data ?s2 = chunk_data s1" "seg_types ?s2 = seg_types s1" "seg_count ?s2 = seg_count s1"
    "heap ?s2 = heap s1"
    using I by (simp_all add: I_def SetVectorData_def)
  ultimately show ?thesis using e by blast
qed

lemma frame_same:
  "frame a b G \<Longrightarrow> i < length (vector_data a) \<Longrightarrow> i \<notin> G \<Longrightarrow> vector_data b ! i = vector_data a ! i"
  by (simp add: frame_def)

lemma frame_child_indices:
  "frame a b G \<Longrightarrow> j < length (child_indices a) \<Longrightarrow> child_indices b ! j = child_indices a ! j"
  using take_prefixD(2)[of "child_indices a" "child_indices b"] by (simp add: frame_def)

lemma frame_lengths:
  "frame a b G \<Longrightarrow> length (vector_data a) \<le> length (vector_data b) \<and>
     length (child_indices a) \<le> length (child_indices b)"
  using take_prefixD(1)[of "child_indices a" "child_indices b"] by (simp add: frame_def)

lemma struct_child_loop:
  fixes s0 :: ColumnDataCollectionSegment
  assumes ok: "\<forall>k<length tys. copy_ok svs (tys ! k) (cfs ! k)" and lcfs: "length cfs = length tys"
    and ents: "length (GetEntries v) = length tys"
      "\<forall>k<length tys. vector_ok (tys ! k) (GetEntries v ! k) off n"
    and n: "0 < n" and fit: "c + n \<le> svs"
    and idx: "idx < length (vector_data s0)" "child_index (vector_data s0 ! idx) = Some base"
    and len: "length cs = length tys" "length Fs0 = length tys" "length rs0 = length tys"
      "base + length tys \<le> length (child_indices s0)"
    and ch: "\<forall>k<length tys. child_indices s0 ! (base + k) = Some (cs ! k) \<and>
               stored svs (tys ! k) s0 (cs ! k) (Fs0 ! k) (rs0 ! k) \<and>
               length (rs0 ! k) = c \<and> idx \<notin> Fs0 ! k"
    and dis: "\<forall>i j. i < j \<and> j < length tys \<longrightarrow> Fs0 ! i \<inter> Fs0 ! j = {}"
  shows "\<exists>s' Fs rs.
      for_loop_r 0 (length tys)
               (\<lambda>child_idx s.
                  if child_idx < length (map (call_copy svs) cfs) then
                    (case GetVectorData s idx of
                       Inl e \<Rightarrow> Some (Inl e)
                     | Inr v' \<Rightarrow>
                    (case child_index v' of
                       None \<Rightarrow> Some (Inl OutOfBounds)
                     | Some base \<Rightarrow>
                    (case GetChildIndex s base child_idx of
                       Inl e \<Rightarrow> Some (Inl e)
                     | Inr child_index1 \<Rightarrow>
                         if child_idx < length (GetEntries v) then
                           (map (call_copy svs) cfs ! child_idx) (child_meta_data child_index1)
                              (Orrify (GetEntries v ! child_idx))
                              (GetEntries v ! child_idx) off n s
                         else Some (Inl OutOfBounds))))
                  else Some (Inl OutOfBounds))
               s0 = Some (Inr s') \<and>
      length Fs = length tys \<and> length rs = length tys \<and>
      (\<forall>k<length tys. stored svs (tys ! k) s' (cs ! k) (Fs ! k) (rs ! k) \<and>
          rs ! k = rs0 ! k @ vector_rows (tys ! k) (GetEntries v ! k) off n \<and>
          idx \<notin> Fs ! k \<and> Fs0 ! k \<subseteq> Fs ! k \<and>
          Fs ! k \<subseteq> Fs0 ! k \<union> {length (vector_data s0)..<length (vector_data s')}) \<and>
      (\<forall>i j. i < j \<and> j < length tys \<longrightarrow> Fs ! i \<inter> Fs ! j = {}) \<and>
      frame s0 s' (\<Union>(set Fs0))"
proof -
  let ?L = "length tys"
  let ?G = "\<Union>(set Fs0)"
  let ?new = "\<lambda>k. vector_rows (tys ! k) (GetEntries v ! k) off n"
  let ?body = "(\<lambda>child_idx s.
                  if child_idx < length (map (call_copy svs) cfs) then
                    (case GetVectorData s idx of
                       Inl e \<Rightarrow> Some (Inl e)
                     | Inr v' \<Rightarrow>
                    (case child_index v' of
                       None \<Rightarrow> Some (Inl OutOfBounds)
                     | Some base \<Rightarrow>
                    (case GetChildIndex s base child_idx of
                       Inl e \<Rightarrow> Some (Inl e)
                     | Inr child_index1 \<Rightarrow>
                         if child_idx < length (GetEntries v) then
                           (map (call_copy svs) cfs ! child_idx) (child_meta_data child_index1)
                              (Orrify (GetEntries v ! child_idx))
                              (GetEntries v ! child_idx) off n s
                         else Some (Inl OutOfBounds))))
                  else Some (Inl OutOfBounds))"
  define I where "I = (\<lambda>k (s :: ColumnDataCollectionSegment). \<exists>Fs rs.
      length Fs = ?L \<and> length rs = ?L \<and>
      (\<forall>j<?L. stored svs (tys ! j) s (cs ! j) (Fs ! j) (rs ! j) \<and>
          rs ! j = (if j < k then rs0 ! j @ ?new j else rs0 ! j) \<and>
          idx \<notin> Fs ! j \<and> Fs0 ! j \<subseteq> Fs ! j \<and>
          Fs ! j \<subseteq> Fs0 ! j \<union> {length (vector_data s0)..<length (vector_data s)}) \<and>
      (\<forall>i j. i < j \<and> j < ?L \<longrightarrow> Fs ! i \<inter> Fs ! j = {}) \<and>
      frame s0 s ?G)"
  have idxG: "idx \<notin> ?G"
  proof
    assume "idx \<in> ?G"
    then obtain X where "X \<in> set Fs0" "idx \<in> X" by blast
    then obtain k where "k < length Fs0" "Fs0 ! k = X" by (auto simp: in_set_conv_nth)
    then show False using ch len \<open>idx \<in> X\<close> by auto
  qed
  have "\<exists>s'. for_loop_r 0 ?L ?body s0 = Some (Inr s') \<and> I ?L s'"
  proof (rule for_loop_r_rule)
    show "I 0 s0"
      unfolding I_def
      apply (rule exI[of _ Fs0], rule exI[of _ rs0])
      using len ch dis by (auto simp: frame_refl)
    show "0 \<le> ?L" by simp
    fix k and t :: ColumnDataCollectionSegment
    assume k: "k < ?L" and t: "I k t"
    from t obtain Fs rs where
      l: "length Fs = ?L" "length rs = ?L"
      and c: "\<forall>j<?L. stored svs (tys ! j) t (cs ! j) (Fs ! j) (rs ! j) \<and>
          rs ! j = (if j < k then rs0 ! j @ ?new j else rs0 ! j) \<and>
          idx \<notin> Fs ! j \<and> Fs0 ! j \<subseteq> Fs ! j \<and>
          Fs ! j \<subseteq> Fs0 ! j \<union> {length (vector_data s0)..<length (vector_data t)}"
      and d: "\<forall>i j. i < j \<and> j < ?L \<longrightarrow> Fs ! i \<inter> Fs ! j = {}"
      and fr: "frame s0 t ?G"
      unfolding I_def by blast
    have d': "\<And>i j. i < ?L \<Longrightarrow> j < ?L \<Longrightarrow> i \<noteq> j \<Longrightarrow> Fs ! i \<inter> Fs ! j = {}"
    proof -
      fix i j assume "i < ?L" "j < ?L" "i \<noteq> j"
      then consider "i < j" | "j < i" by linarith
      then show "Fs ! i \<inter> Fs ! j = {}" using d \<open>i < ?L\<close> \<open>j < ?L\<close> by cases blast+
    qed
    have tl: "length (vector_data s0) \<le> length (vector_data t)"
      "length (child_indices s0) \<le> length (child_indices t)"
      using frame_lengths[OF fr] by auto
    have ti: "vector_data t ! idx = vector_data s0 ! idx" using frame_same[OF fr idx(1) idxG] .
    have g: "GetVectorData t idx = Inr (vector_data s0 ! idx)"
      using ti idx(1) tl by (simp add: GetVectorData_def)
    have bk: "base + k < length (child_indices s0)" using k len by simp
    have "child_indices t ! (base + k) = Some (cs ! k)"
      using frame_child_indices[OF fr bk] ch k by simp
    then have gc: "GetChildIndex t base k = Inr (cs ! k)"
      using bk tl by (simp add: GetChildIndex_def)
    have stk: "stored svs (tys ! k) t (cs ! k) (Fs ! k) (rs0 ! k)" using c k by auto
    have lk: "length (rs0 ! k) + n \<le> svs" using ch k fit by simp
    have "copy_ok svs (tys ! k) (cfs ! k)" using ok k by simp
    then have "\<exists>seg' F'. call_copy svs (cfs ! k) (child_meta_data (cs ! k))
                  (Orrify (GetEntries v ! k)) (GetEntries v ! k) off n t = Some (Inr seg') \<and>
               copy_post svs (tys ! k) t (cs ! k) (Fs ! k) (rs0 ! k @ ?new k) seg' F'"
      unfolding copy_ok_def using stk lk n ents(2) k by (simp add: child_meta_data_def)
    then obtain t' F' where
      call: "call_copy svs (cfs ! k) (child_meta_data (cs ! k))
                  (Orrify (GetEntries v ! k)) (GetEntries v ! k) off n t = Some (Inr t')"
      and post: "copy_post svs (tys ! k) t (cs ! k) (Fs ! k) (rs0 ! k @ ?new k) t' F'"
      by blast
    have st': "stored svs (tys ! k) t' (cs ! k) F' (rs0 ! k @ ?new k)"
      and F1: "Fs ! k \<subseteq> F'"
      and F2: "F' \<subseteq> Fs ! k \<union> {length (vector_data t)..<length (vector_data t')}"
      and fr': "frame t t' (Fs ! k)"
      using post by (simp_all add: copy_post_def)
    have b: "?body k t = Some (Inr t')"
      using k lcfs ents(1) g idx(2) gc call by simp
    have tl': "length (vector_data t) \<le> length (vector_data t')"
      using frame_lengths[OF fr'] by simp
    have sub: "\<And>j. j < ?L \<Longrightarrow> Fs ! j \<subseteq> {..<length (vector_data t)}"
      using c stored_subset by blast
    let ?Fs = "Fs[k := F']"
    let ?rs = "rs[k := rs0 ! k @ ?new k]"
    have "I (Suc k) t'"
      unfolding I_def
    proof (rule exI[of _ ?Fs], rule exI[of _ ?rs], intro conjI allI impI)
      show "length ?Fs = ?L" "length ?rs = ?L" using l by simp_all
    next
      fix j assume j: "j < ?L"
      show "stored svs (tys ! j) t' (cs ! j) (?Fs ! j) (?rs ! j)"
      proof (cases "j = k")
        case True
        then show ?thesis using st' l k by simp
      next
        case False
        have "stored svs (tys ! j) t (cs ! j) (Fs ! j) (rs ! j)" using c j by blast
        moreover have "Fs ! j \<inter> Fs ! k = {}" using d' j k False by simp
        ultimately have "stored svs (tys ! j) t' (cs ! j) (Fs ! j) (rs ! j)"
          using frame_stored[OF fr'] by blast
        then show ?thesis using False by simp
      qed
      show "?rs ! j = (if j < Suc k then rs0 ! j @ ?new j else rs0 ! j)"
        using c j l k by (cases "j = k") (auto simp: less_Suc_eq)
      show "idx \<notin> ?Fs ! j"
      proof (cases "j = k")
        case True
        have "idx \<notin> Fs ! k" using c k by simp
        moreover have "idx < length (vector_data t)" using idx(1) tl by simp
        ultimately have "idx \<notin> F'" using F2 by auto
        then show ?thesis using True l k by simp
      next
        case False
        then show ?thesis using c j by simp
      qed
      show "Fs0 ! j \<subseteq> ?Fs ! j"
      proof (cases "j = k")
        case True
        have "Fs0 ! k \<subseteq> Fs ! k" using c k by simp
        then show ?thesis using True l k F1 by auto
      next
        case False
        then show ?thesis using c j by simp
      qed
      show "?Fs ! j \<subseteq> Fs0 ! j \<union> {length (vector_data s0)..<length (vector_data t')}"
      proof (cases "j = k")
        case True
        have "Fs ! k \<subseteq> Fs0 ! k \<union> {length (vector_data s0)..<length (vector_data t)}"
          using c k by simp
        then have "F' \<subseteq> Fs0 ! k \<union> {length (vector_data s0)..<length (vector_data t')}"
          using F2 tl tl' by fastforce
        then show ?thesis using True l k by simp
      next
        case False
        have "Fs ! j \<subseteq> Fs0 ! j \<union> {length (vector_data s0)..<length (vector_data t)}"
          using c j by simp
        then have "Fs ! j \<subseteq> Fs0 ! j \<union> {length (vector_data s0)..<length (vector_data t')}"
          using tl' by fastforce
        then show ?thesis using False by simp
      qed
    next
      fix i j assume ij: "i < j \<and> j < ?L"
      then have i: "i < ?L" and j: "j < ?L" and ne: "i \<noteq> j" by auto
      have new: "\<And>m. m < ?L \<Longrightarrow> m \<noteq> k \<Longrightarrow> Fs ! m \<inter> F' = {}"
      proof -
        fix m assume m: "m < ?L" "m \<noteq> k"
        have "Fs ! m \<inter> Fs ! k = {}" using d' m k by simp
        moreover have "Fs ! m \<subseteq> {..<length (vector_data t)}" using sub m by simp
        ultimately show "Fs ! m \<inter> F' = {}" using F2 by fastforce
      qed
      show "?Fs ! i \<inter> ?Fs ! j = {}"
      proof (cases "i = k")
        case True
        then have "j \<noteq> k" using ne by simp
        then show ?thesis using True new[OF j] l k by (simp add: Int_commute)
      next
        case False
        show ?thesis
        proof (cases "j = k")
          case True
          then show ?thesis using False new[OF i] l k by simp
        next
          case F: False
          then show ?thesis using False d ij by simp
        qed
      qed
    next
      show "frame s0 t' ?G"
      proof (rule frame_trans[OF fr fr'])
        have "Fs0 ! k \<subseteq> ?G" using k len by (metis Union_upper nth_mem)
        moreover have "Fs ! k \<subseteq> Fs0 ! k \<union> {length (vector_data s0)..<length (vector_data t)}"
          using c k by simp
        ultimately show "Fs ! k \<subseteq> ?G \<union> {length (vector_data s0)..}" by fastforce
      qed
    qed
    then show "\<exists>t'. ?body k t = Some (Inr t') \<and> I (Suc k) t'" using b by blast
  qed
  then obtain s' where r: "for_loop_r 0 ?L ?body s0 = Some (Inr s')" and I: "I ?L s'" by blast
  from I obtain Fs rs where
      l: "length Fs = ?L" "length rs = ?L"
      and c: "\<forall>j<?L. stored svs (tys ! j) s' (cs ! j) (Fs ! j) (rs ! j) \<and>
          rs ! j = (if j < ?L then rs0 ! j @ ?new j else rs0 ! j) \<and>
          idx \<notin> Fs ! j \<and> Fs0 ! j \<subseteq> Fs ! j \<and>
          Fs ! j \<subseteq> Fs0 ! j \<union> {length (vector_data s0)..<length (vector_data s')}"
      and d: "\<forall>i j. i < j \<and> j < ?L \<longrightarrow> Fs ! i \<inter> Fs ! j = {}"
      and fr: "frame s0 s' ?G"
      unfolding I_def by blast
  have c': "\<forall>k<?L. stored svs (tys ! k) s' (cs ! k) (Fs ! k) (rs ! k) \<and>
          rs ! k = rs0 ! k @ ?new k \<and>
          idx \<notin> Fs ! k \<and> Fs0 ! k \<subseteq> Fs ! k \<and>
          Fs ! k \<subseteq> Fs0 ! k \<union> {length (vector_data s0)..<length (vector_data s')}"
  proof (intro allI impI)
    fix k assume k: "k < ?L"
    then have "stored svs (tys ! k) s' (cs ! k) (Fs ! k) (rs ! k) \<and>
          rs ! k = (if k < ?L then rs0 ! k @ ?new k else rs0 ! k) \<and>
          idx \<notin> Fs ! k \<and> Fs0 ! k \<subseteq> Fs ! k \<and>
          Fs ! k \<subseteq> Fs0 ! k \<union> {length (vector_data s0)..<length (vector_data s')}"
      using c by blast
    then have a: "stored svs (tys ! k) s' (cs ! k) (Fs ! k) (rs ! k)"
      and b: "rs ! k = (if k < ?L then rs0 ! k @ ?new k else rs0 ! k)"
      and e: "idx \<notin> Fs ! k" "Fs0 ! k \<subseteq> Fs ! k"
          "Fs ! k \<subseteq> Fs0 ! k \<union> {length (vector_data s0)..<length (vector_data s')}"
      by blast+
    have b': "rs ! k = rs0 ! k @ ?new k" using b k by simp
    show "stored svs (tys ! k) s' (cs ! k) (Fs ! k) (rs ! k) \<and>
          rs ! k = rs0 ! k @ ?new k \<and>
          idx \<notin> Fs ! k \<and> Fs0 ! k \<subseteq> Fs ! k \<and>
          Fs ! k \<subseteq> Fs0 ! k \<union> {length (vector_data s0)..<length (vector_data s')}"
      using a b' e by blast
  qed
  show ?thesis
    apply (rule exI[of _ s'], rule exI[of _ Fs], rule exI[of _ rs])
    using r l c' d fr by blast
qed

lemma struct_rows_old:
  assumes "length rs = length rs0"
    and "\<forall>k<length rs0. length (rs0 ! k) = c \<and> rs ! k = rs0 ! k @ nw k"
    and "j < c"
  shows "struct_row_value rs j x = struct_row_value rs0 j x"
proof -
  have a: "\<forall>f\<in>set rs0. j < length f" using assms by (auto simp: in_set_conv_nth)
  have b: "\<forall>f\<in>set rs. j < length f" using assms by (auto simp: in_set_conv_nth)
  have "map (\<lambda>f. f ! j) rs = map (\<lambda>f. f ! j) rs0"
    using assms by (intro nth_equalityI) (auto simp: nth_append)
  then show ?thesis using a b by (simp add: struct_row_value_def)
qed

lemma struct_rows_new:
  assumes "length rs = length tys" "length ents = length tys"
    and "\<forall>k<length tys. length (rs0 ! k) = c \<and> rs ! k = rs0 ! k @ vector_rows (tys ! k) (ents ! k) off n"
    and "i < n"
  shows "struct_row_value rs (c + i) x =
     Inr (StructValue (map (\<lambda>(rows_of, child). hd (rows_of child (off + i) 1))
                           (zip (map vector_rows tys) ents)))"
proof -
  have b: "\<forall>f\<in>set rs. c + i < length f" using assms by (auto simp: in_set_conv_nth)
  have "map (\<lambda>f. f ! (c + i)) rs =
        map (\<lambda>(rows_of, child). hd (rows_of child (off + i) 1)) (zip (map vector_rows tys) ents)"
  proof (rule nth_equalityI)
    show "length (map (\<lambda>f. f ! (c + i)) rs) =
          length (map (\<lambda>(rows_of, child). hd (rows_of child (off + i) 1)) (zip (map vector_rows tys) ents))"
      using assms by simp
    fix k assume "k < length (map (\<lambda>f. f ! (c + i)) rs)"
    then have k: "k < length tys" using assms by simp
    have "rs ! k ! (c + i) = vector_rows (tys ! k) (ents ! k) off n ! i"
      using assms k by (simp add: nth_append)
    also have "\<dots> = hd (vector_rows (tys ! k) (ents ! k) (off + i) 1)"
      using assms(4) by (rule vector_rows_nth)
    finally show "map (\<lambda>f. f ! (c + i)) rs ! k =
          map (\<lambda>(rows_of, child). hd (rows_of child (off + i) 1)) (zip (map vector_rows tys) ents) ! k"
      using assms k by simp
  qed
  then show ?thesis using b by (simp add: struct_row_value_def)
qed

lemma copy_ok_struct:
  assumes ok: "\<forall>k<length tys. copy_ok svs (tys ! k) (cfs ! k)" and lcfs: "length cfs = length tys"
  shows "copy_ok svs (STRUCT tys) (ColumnDataCopyFunction CopyStruct cfs)"
  unfolding copy_ok_def
proof (intro allI impI)
  fix seg :: ColumnDataCollectionSegment and idx F rows n v off and meta :: ColumnDataMetaData
  assume st: "stored svs (STRUCT tys) seg idx F rows" and fit: "length rows + n \<le> svs"
    and n: "0 < n" and vok: "vector_ok (STRUCT tys) v off n" and mi: "vector_data_index meta = idx"
  let ?L = "length tys"
  let ?pool = "vector_data seg"
  let ?v0 = "?pool ! idx"
  let ?c = "vcount ?v0"
  have idx: "idx < length ?pool" and so: "slot_ok svs ?v0" and lr: "length rows = ?c"
    and idxF: "idx \<in> F"
    using stored_basic[OF st] by auto
  have gt: "GetChildTypes (GetType v) = tys" using vok by (simp add: GetChildTypes_def)
  have ents: "length (GetEntries v) = ?L" using vok by simp
  have entk: "\<forall>k<?L. vector_ok (tys ! k) (GetEntries v ! k) off n"
    using vok by (auto simp: list_all_length)
  have g0: "GetVectorData seg idx = Inr ?v0" using idx by (simp add: GetVectorData_def)
  have "\<exists>m. ColumnDataCopyValidity svs (Orrify v) (vvalidity ?v0) off ?c n = Inr m \<and> length m = svs \<and>
           (\<forall>j<?c. m ! j = vvalidity ?v0 ! j) \<and>
           (\<forall>i<n. m ! (?c + i) = src_valid (Orrify v) (off + i)) \<and>
           (\<forall>j. ?c + n \<le> j \<and> j < svs \<longrightarrow> m ! j)"
  proof (rule ColumnDataCopyValidity_correct)
    show "length (vvalidity ?v0) = svs" using so by (simp add: slot_ok_def)
    show "?c + n \<le> svs" using fit lr by simp
    show "0 < ?c \<Longrightarrow> \<forall>j. ?c \<le> j \<and> j < svs \<longrightarrow> vvalidity ?v0 ! j"
      using so by (simp add: slot_ok_def)
  qed
  then obtain m where val: "ColumnDataCopyValidity svs (Orrify v) (vvalidity ?v0) off ?c n = Inr m"
    and m: "length m = svs" "\<forall>j<?c. m ! j = vvalidity ?v0 ! j"
      "\<forall>i<n. m ! (?c + i) = src_valid (Orrify v) (off + i)"
      "\<forall>j. ?c + n \<le> j \<and> j < svs \<longrightarrow> m ! j"
    by blast
  define v1 where "v1 = ?v0\<lparr>vvalidity := m, vcount := ?c + n\<rparr>"
  define seg1 where "seg1 = SetVectorData seg idx v1"
  have p1: "vector_data seg1 = ?pool[idx := v1]" "child_indices seg1 = child_indices seg"
    "chunk_data seg1 = chunk_data seg" "seg_types seg1 = seg_types seg" "seg_count seg1 = seg_count seg"
    "heap seg1 = heap seg"
    by (simp_all add: seg1_def SetVectorData_def)
  have idx1: "idx < length (vector_data seg1)" using idx p1 by simp
  have fr01: "frame seg seg1 {idx}" using p1 by (simp add: frame_def)
  define A where "A = (if child_index v1 = None then
                 (let (s, base_index) = ReserveChildren seg1 (length tys)
                  in case for_loop 0 (length tys)
                            (\<lambda>child_idx s.
                               let (s', child_index1) = AllocateVector svs (tys ! child_idx) s
                               in SetChildIndex s' base_index child_idx child_index1)
                            s of
                       Inl e \<Rightarrow> Inl e
                     | Inr s2 \<Rightarrow>
                         (case GetVectorData s2 idx of
                            Inl e \<Rightarrow> Inl e
                          | Inr v \<Rightarrow> Inr (SetVectorData s2 idx (v\<lparr>child_index := Some base_index\<rparr>))))
               else Inr seg1)"
  define body where "body = (\<lambda>child_idx s.
                  if child_idx < length (map (call_copy svs) cfs) then
                    (case GetVectorData s idx of
                       Inl e \<Rightarrow> Some (Inl e)
                     | Inr v' \<Rightarrow>
                    (case child_index v' of
                       None \<Rightarrow> Some (Inl OutOfBounds)
                     | Some base \<Rightarrow>
                    (case GetChildIndex s base child_idx of
                       Inl e \<Rightarrow> Some (Inl e)
                     | Inr child_index1 \<Rightarrow>
                         if child_idx < length (GetEntries v) then
                           (map (call_copy svs) cfs ! child_idx) (child_meta_data child_index1)
                              (Orrify (GetEntries v ! child_idx))
                              (GetEntries v ! child_idx) off n s
                         else Some (Inl OutOfBounds))))
                  else Some (Inl OutOfBounds))"
  have call: "call_copy svs (ColumnDataCopyFunction CopyStruct cfs) meta (Orrify v) v off n seg =
        (case A of Inl e \<Rightarrow> Some (Inl e) | Inr s2 \<Rightarrow> for_loop_r 0 ?L body s2)"
    unfolding A_def body_def seg1_def v1_def call_copy.simps copy_kind.case
      ColumnDataCopyStruct_def Let_def mi g0 sum.case val gt
    by simp
  \<comment> \<open>phase A: the children exist\<close>
  have "\<exists>seg2 base cs Fs0 rs0.
      A = Inr seg2 \<and> idx < length (vector_data seg2) \<and>
      vector_data seg2 ! idx = v1\<lparr>child_index := Some base\<rparr> \<and>
      length cs = ?L \<and> length Fs0 = ?L \<and> length rs0 = ?L \<and>
      base + ?L \<le> length (child_indices seg2) \<and>
      (\<forall>k<?L. child_indices seg2 ! (base + k) = Some (cs ! k) \<and>
               stored svs (tys ! k) seg2 (cs ! k) (Fs0 ! k) (rs0 ! k) \<and>
               length (rs0 ! k) = ?c \<and> idx \<notin> Fs0 ! k) \<and>
      (\<forall>i j. i < j \<and> j < ?L \<longrightarrow> Fs0 ! i \<inter> Fs0 ! j = {}) \<and>
      frame seg seg2 F \<and> F \<subseteq> insert idx (\<Union>(set Fs0)) \<and>
      \<Union>(set Fs0) \<subseteq> F \<union> {length ?pool..<length (vector_data seg2)} \<and>
      read_rows ?v0 (struct_row_value rs0) = Inr rows"
  proof (cases "child_index ?v0")
    case None
    then have z: "?c = 0" "F = {idx}" "rows = []" using st by auto
    let ?base = "length (child_indices seg)"
    let ?p = "length ?pool"
    from struct_alloc[OF idx1, of tys svs] obtain s2 where
      a: "A = Inr s2"
      and s2: "length (vector_data s2) = ?p + ?L"
        "vector_data s2 ! idx = v1\<lparr>child_index := Some ?base\<rparr>"
        "\<forall>j<?p. j \<noteq> idx \<longrightarrow> vector_data s2 ! j = ?pool ! j"
        "\<forall>j<?L. vector_data s2 ! (?p + j) = fresh_vector svs"
        "length (child_indices s2) = ?base + ?L"
        "take ?base (child_indices s2) = child_indices seg"
        "\<forall>j<?L. child_indices s2 ! (?base + j) = Some (?p + j)"
        "chunk_data s2 = chunk_data seg" "seg_types s2 = seg_types seg" "seg_count s2 = seg_count seg"
        "heap s2 = heap seg"
      unfolding A_def using None idx by (auto simp: v1_def p1)
    let ?cs = "map (\<lambda>j. ?p + j) [0..<?L]"
    let ?Fs = "map (\<lambda>j. {?p + j}) [0..<?L]"
    let ?rs = "replicate ?L ([] :: Value list)"
    have U: "\<Union>(set ?Fs) \<subseteq> {?p..<?p + ?L}" by auto
    show ?thesis
    proof (rule exI[of _ s2], rule exI[of _ ?base], rule exI[of _ ?cs], rule exI[of _ ?Fs],
        rule exI[of _ ?rs], intro conjI allI impI)
      show "A = Inr s2" by fact
      show "idx < length (vector_data s2)" using s2 idx by simp
      show "vector_data s2 ! idx = v1\<lparr>child_index := Some ?base\<rparr>" by fact
      show "length ?cs = ?L" "length ?Fs = ?L" "length ?rs = ?L" by simp_all
      show "?base + ?L \<le> length (child_indices s2)" using s2 by simp
      show "frame seg s2 F" using s2 z by (simp add: frame_def)
      show "F \<subseteq> insert idx (\<Union>(set ?Fs))" using z by simp
      show "\<Union>(set ?Fs) \<subseteq> F \<union> {?p..<length (vector_data s2)}" using U s2 by auto
      show "read_rows ?v0 (struct_row_value ?rs) = Inr rows" using z by (simp add: read_rows_empty)
    next
      fix k assume k: "k < ?L"
      show "child_indices s2 ! (?base + k) = Some (?cs ! k)" using s2 k by simp
      have "stored svs (tys ! k) s2 (?p + k) {?p + k} []"
        by (rule fresh_stored) (use s2 k in auto)
      then show "stored svs (tys ! k) s2 (?cs ! k) (?Fs ! k) (?rs ! k)" using k by simp
      show "length (?rs ! k) = ?c" using z k by simp
      show "idx \<notin> ?Fs ! k" using k idx by simp
    next
      fix i j assume "i < j \<and> j < ?L"
      then show "?Fs ! i \<inter> ?Fs ! j = {}" by simp
    qed
  next
    case (Some base)
    with st obtain cs Fs rs where
      l: "length cs = ?L" "length Fs = ?L" "length rs = ?L" "base + ?L \<le> length (child_indices seg)"
      and c: "\<forall>k<?L. child_indices seg ! (base + k) = Some (cs ! k) \<and>
                   (map (stored svs) tys ! k) seg (cs ! k) (Fs ! k) (rs ! k) \<and>
                   length (rs ! k) = ?c \<and> idx \<notin> Fs ! k"
      and d: "\<forall>j k. j < k \<and> k < ?L \<longrightarrow> Fs ! j \<inter> Fs ! k = {}"
      and F: "F = insert idx (\<Union>(set Fs))"
      and rr: "read_rows ?v0 (struct_row_value rs) = Inr rows"
      by auto
    have a: "A = Inr seg1" using Some by (simp add: A_def v1_def)
    have sub: "\<Union>(set Fs) \<subseteq> F" using F by auto
    show ?thesis
    proof (rule exI[of _ seg1], rule exI[of _ base], rule exI[of _ cs], rule exI[of _ Fs],
        rule exI[of _ rs], intro conjI allI impI)
      show "A = Inr seg1" by fact
      show "idx < length (vector_data seg1)" by fact
      show "vector_data seg1 ! idx = v1\<lparr>child_index := Some base\<rparr>"
        using idx Some by (simp add: p1 v1_def)
      show "length cs = ?L" "length Fs = ?L" "length rs = ?L" by fact+
      show "base + ?L \<le> length (child_indices seg1)" using l p1 by simp
      show "frame seg seg1 F" using fr01 idxF by (auto intro: frame_mono)
      show "F \<subseteq> insert idx (\<Union>(set Fs))" using F by simp
      show "\<Union>(set Fs) \<subseteq> F \<union> {length ?pool..<length (vector_data seg1)}" using sub by auto
      show "read_rows ?v0 (struct_row_value rs) = Inr rows" by fact
    next
      fix k assume k: "k < ?L"
      show "child_indices seg1 ! (base + k) = Some (cs ! k)" using c k p1 by simp
      have "stored svs (tys ! k) seg (cs ! k) (Fs ! k) (rs ! k)" using c k by simp
      moreover have "Fs ! k \<inter> {idx} = {}" using c k by simp
      ultimately show "stored svs (tys ! k) seg1 (cs ! k) (Fs ! k) (rs ! k)"
        using frame_stored[OF fr01] by blast
      show "length (rs ! k) = ?c" using c k by simp
      show "idx \<notin> Fs ! k" using c k by simp
    next
      fix i j assume "i < j \<and> j < ?L"
      then show "Fs ! i \<inter> Fs ! j = {}" using d by simp
    qed
  qed
  then obtain seg2 base cs Fs0 rs0 where
    a: "A = Inr seg2" and idx2: "idx < length (vector_data seg2)"
    and v2: "vector_data seg2 ! idx = v1\<lparr>child_index := Some base\<rparr>"
    and l0: "length cs = ?L" "length Fs0 = ?L" "length rs0 = ?L"
      "base + ?L \<le> length (child_indices seg2)"
    and ch0: "\<forall>k<?L. child_indices seg2 ! (base + k) = Some (cs ! k) \<and>
               stored svs (tys ! k) seg2 (cs ! k) (Fs0 ! k) (rs0 ! k) \<and>
               length (rs0 ! k) = ?c \<and> idx \<notin> Fs0 ! k"
    and dis0: "\<forall>i j. i < j \<and> j < ?L \<longrightarrow> Fs0 ! i \<inter> Fs0 ! j = {}"
    and fr02: "frame seg seg2 F" and F0: "F \<subseteq> insert idx (\<Union>(set Fs0))"
      "\<Union>(set Fs0) \<subseteq> F \<union> {length ?pool..<length (vector_data seg2)}"
    and rr0: "read_rows ?v0 (struct_row_value rs0) = Inr rows"
    by (elim exE conjE) (rule that)
  \<comment> \<open>phase B: the children are appended to\<close>
  have ci2: "child_index (vector_data seg2 ! idx) = Some base" using v2 by simp
  have fit': "?c + n \<le> svs" using fit lr by simp
  have "\<exists>s' Fs rs. for_loop_r 0 ?L body seg2 = Some (Inr s') \<and>
      length Fs = ?L \<and> length rs = ?L \<and>
      (\<forall>k<?L. stored svs (tys ! k) s' (cs ! k) (Fs ! k) (rs ! k) \<and>
          rs ! k = rs0 ! k @ vector_rows (tys ! k) (GetEntries v ! k) off n \<and>
          idx \<notin> Fs ! k \<and> Fs0 ! k \<subseteq> Fs ! k \<and>
          Fs ! k \<subseteq> Fs0 ! k \<union> {length (vector_data seg2)..<length (vector_data s')}) \<and>
      (\<forall>i j. i < j \<and> j < ?L \<longrightarrow> Fs ! i \<inter> Fs ! j = {}) \<and>
      frame seg2 s' (\<Union>(set Fs0))"
    unfolding body_def
    by (rule struct_child_loop[OF ok lcfs ents entk n fit' idx2 ci2 l0 ch0 dis0])
  then obtain s' Fs rs where
    loop: "for_loop_r 0 ?L body seg2 = Some (Inr s')"
    and l: "length Fs = ?L" "length rs = ?L"
    and ch: "\<forall>k<?L. stored svs (tys ! k) s' (cs ! k) (Fs ! k) (rs ! k) \<and>
          rs ! k = rs0 ! k @ vector_rows (tys ! k) (GetEntries v ! k) off n \<and>
          idx \<notin> Fs ! k \<and> Fs0 ! k \<subseteq> Fs ! k \<and>
          Fs ! k \<subseteq> Fs0 ! k \<union> {length (vector_data seg2)..<length (vector_data s')}"
    and dis: "\<forall>i j. i < j \<and> j < ?L \<longrightarrow> Fs ! i \<inter> Fs ! j = {}"
    and fr2: "frame seg2 s' (\<Union>(set Fs0))"
    by (elim exE conjE) (rule that)
  have res: "call_copy svs (ColumnDataCopyFunction CopyStruct cfs) meta (Orrify v) v off n seg = Some (Inr s')"
    using call a loop by simp
  have idxG: "idx \<notin> \<Union>(set Fs0)"
  proof
    assume "idx \<in> \<Union>(set Fs0)"
    then obtain X where "X \<in> set Fs0" "idx \<in> X" by blast
    then obtain k where "k < length Fs0" "Fs0 ! k = X" by (auto simp: in_set_conv_nth)
    then show False using ch0 l0 \<open>idx \<in> X\<close> by auto
  qed
  have vs: "vector_data s' ! idx = v1\<lparr>child_index := Some base\<rparr>"
    using frame_same[OF fr2 idx2 idxG] v2 by simp
  have len2: "length (vector_data seg2) \<le> length (vector_data s')"
    "length (child_indices seg2) \<le> length (child_indices s')"
    using frame_lengths[OF fr2] by auto
  have len1: "length ?pool \<le> length (vector_data seg2)" using frame_lengths[OF fr02] by simp
  let ?new = "vector_rows (STRUCT tys) v off n"
  let ?F' = "insert idx (\<Union>(set Fs))"
  let ?v2 = "v1\<lparr>child_index := Some base\<rparr>"
  have so2: "slot_ok svs ?v2"
    using so m fit' by (simp add: slot_ok_def v1_def)
  have rel: "\<forall>k<length rs0. length (rs0 ! k) = ?c \<and>
               rs ! k = rs0 ! k @ vector_rows (tys ! k) (GetEntries v ! k) off n"
    using ch ch0 l0 by simp
  have rel': "\<forall>k<length tys. length (rs0 ! k) = ?c \<and>
               rs ! k = rs0 ! k @ vector_rows (tys ! k) (GetEntries v ! k) off n"
    using rel l0 by simp
  have rows': "read_rows ?v2 (struct_row_value rs) = Inr (rows @ ?new)"
  proof (rule read_rows_append[OF rr0])
    show "vcount ?v2 = ?c + n" by (simp add: v1_def)
    show "vcount ?v2 \<le> length (vdata ?v2)" "vcount ?v2 \<le> length (vvalidity ?v2)"
      using so2 by (simp_all add: slot_ok_def)
    show "\<forall>j<?c. vvalidity ?v2 ! j = vvalidity ?v0 ! j \<and> vdata ?v2 ! j = vdata ?v0 ! j"
      using m by (simp add: v1_def)
    show "\<forall>j<?c. vvalidity ?v0 ! j \<longrightarrow>
            struct_row_value rs j (vdata ?v0 ! j) = struct_row_value rs0 j (vdata ?v0 ! j)"
      using struct_rows_old[OF _ rel] l l0 by simp
    show "length ?new = n" by simp
    show "\<forall>i<n. (if vvalidity ?v2 ! (?c + i)
               then struct_row_value rs (?c + i) (vdata ?v2 ! (?c + i)) else Inr Null) = Inr (?new ! i)"
    proof (intro allI impI)
      fix i assume i: "i < n"
      have e: "struct_row_value rs (?c + i) (vdata ?v2 ! (?c + i)) =
         Inr (StructValue (map (\<lambda>(rows_of, child). hd (rows_of child (off + i) 1))
                           (zip (map vector_rows tys) (GetEntries v))))"
        by (rule struct_rows_new[OF l(2) ents rel' i])
      have vv: "vvalidity ?v2 ! (?c + i) = src_valid (Orrify v) (off + i)"
        using m i by (simp add: v1_def)
      have fl: "sel (Orrify v) (off + i) = off + i"
        using vok i by (simp add: list_all_length)
      show "(if vvalidity ?v2 ! (?c + i)
               then struct_row_value rs (?c + i) (vdata ?v2 ! (?c + i)) else Inr Null) = Inr (?new ! i)"
        unfolding vv e using i fl by (simp add: src_valid_def Let_def)
    qed
  qed
  have bl: "base + ?L \<le> length (child_indices s')" using l0 len2 by simp
  have chs: "\<forall>k<?L. child_indices s' ! (base + k) = Some (cs ! k)"
  proof (intro allI impI)
    fix k assume k: "k < ?L"
    then have "base + k < length (child_indices seg2)" using l0 by simp
    from frame_child_indices[OF fr2 this] show "child_indices s' ! (base + k) = Some (cs ! k)"
      using ch0 k by simp
  qed
  have st': "stored svs (STRUCT tys) s' idx ?F' (rows @ ?new)"
  proof -
    have "\<exists>cs Fs rs.
                length cs = length tys \<and> length Fs = length tys \<and>
                length rs = length tys \<and>
                base + length tys \<le> length (child_indices s') \<and>
                (\<forall>k<length tys.
                   child_indices s' ! (base + k) = Some (cs ! k) \<and>
                   (map (stored svs) tys ! k) s' (cs ! k) (Fs ! k) (rs ! k) \<and>
                   length (rs ! k) = vcount (vector_data s' ! idx) \<and> idx \<notin> Fs ! k) \<and>
                (\<forall>j k. j < k \<and> k < length tys \<longrightarrow> Fs ! j \<inter> Fs ! k = {}) \<and>
                ?F' = insert idx (\<Union>(set Fs)) \<and>
                read_rows (vector_data s' ! idx) (struct_row_value rs) = Inr (rows @ ?new)"
    proof (rule exI[of _ cs], rule exI[of _ Fs], rule exI[of _ rs], intro conjI allI impI)
      show "length cs = ?L" "length Fs = ?L" "length rs = ?L" by fact+
      show "base + ?L \<le> length (child_indices s')" by fact
      show "?F' = insert idx (\<Union>(set Fs))" by simp
      show "read_rows (vector_data s' ! idx) (struct_row_value rs) = Inr (rows @ ?new)"
        unfolding vs by (rule rows')
    next
      fix k assume k: "k < ?L"
      show "child_indices s' ! (base + k) = Some (cs ! k)" using chs k by simp
      have "stored svs (tys ! k) s' (cs ! k) (Fs ! k) (rs ! k)" using ch k by blast
      then show "(map (stored svs) tys ! k) s' (cs ! k) (Fs ! k) (rs ! k)" using k by simp
      have "rs ! k = rs0 ! k @ vector_rows (tys ! k) (GetEntries v ! k) off n" using ch k by blast
      moreover have "length (rs0 ! k) = ?c" using ch0 k by blast
      ultimately show "length (rs ! k) = vcount (vector_data s' ! idx)"
        unfolding vs by (simp add: v1_def)
      show "idx \<notin> Fs ! k" using ch k by blast
    next
      fix j k assume "j < k \<and> k < ?L"
      then show "Fs ! j \<inter> Fs ! k = {}" using dis by blast
    qed
    moreover have "child_index (vector_data s' ! idx) = Some base" unfolding vs by simp
    moreover have "slot_ok svs (vector_data s' ! idx)" unfolding vs by (rule so2)
    moreover have "idx < length (vector_data s')" using idx2 len2 by simp
    ultimately show ?thesis by (simp del: vector_rows.simps)
  qed
  have UU: "\<Union>(set Fs0) \<subseteq> \<Union>(set Fs)"
  proof
    fix x assume "x \<in> \<Union>(set Fs0)"
    then obtain X where "X \<in> set Fs0" "x \<in> X" by blast
    then obtain k where k: "k < ?L" "Fs0 ! k = X" using l0 by (auto simp: in_set_conv_nth)
    then have "x \<in> Fs ! k" using ch \<open>x \<in> X\<close> by blast
    then show "x \<in> \<Union>(set Fs)" using k l by (metis UnionI nth_mem)
  qed
  have sub1: "F \<subseteq> ?F'" using F0(1) UU by auto
  have sub2: "?F' \<subseteq> F \<union> {length ?pool..<length (vector_data s')}"
  proof
    fix x assume "x \<in> ?F'"
    then consider "x = idx" | "x \<in> \<Union>(set Fs)" by auto
    then show "x \<in> F \<union> {length ?pool..<length (vector_data s')}"
    proof cases
      case 1
      then show ?thesis using idxF by simp
    next
      case 2
      then obtain X where "X \<in> set Fs" "x \<in> X" by blast
      then obtain k where k: "k < ?L" "Fs ! k = X" using l by (auto simp: in_set_conv_nth)
      then have "x \<in> Fs0 ! k \<union> {length (vector_data seg2)..<length (vector_data s')}"
        using ch \<open>x \<in> X\<close> by blast
      moreover have "Fs0 ! k \<subseteq> \<Union>(set Fs0)" using k l0 by (metis Union_upper nth_mem)
      ultimately have "x \<in> F \<union> {length ?pool..<length (vector_data seg2)} \<union>
                           {length (vector_data seg2)..<length (vector_data s')}"
        using F0(2) by blast
      then show ?thesis using len1 len2 by auto
    qed
  qed
  have fr: "frame seg s' F"
  proof (rule frame_trans[OF fr02 fr2])
    show "\<Union>(set Fs0) \<subseteq> F \<union> {length ?pool..}" using F0(2) by auto
  qed
  have nd: "next_data (vector_data s' ! idx) = next_data ?v0" unfolding vs by (simp add: v1_def)
  have "copy_post svs (STRUCT tys) seg idx F (rows @ ?new) s' ?F'"
    unfolding copy_post_def using st' sub1 sub2 fr nd by blast
  then show "\<exists>seg' F'. call_copy svs (ColumnDataCopyFunction CopyStruct cfs) meta (Orrify v) v off n seg
                  = Some (Inr seg') \<and>
                   copy_post svs (STRUCT tys) seg idx F (rows @ ?new) seg' F'"
    using res by blast
qed

subsection \<open>Every copy function appends the rows of its input\<close>

lemma copy_correct:
  "0 < svs \<Longrightarrow> GetCopyFunction ty = Inr cf \<Longrightarrow> copy_ok svs ty cf"
proof (induction ty arbitrary: cf)
  case (Scalar p)
  then show ?case by (simp only: copy_ok_scalar)
next
  case (STRUCT tys)
  from STRUCT.prems(2) obtain fs where fs: "collect (map GetCopyFunction tys) = Inr fs"
    and cf: "cf = ColumnDataCopyFunction CopyStruct fs"
    by (auto split: sum.splits)
  from collect_Inr_D[OF fs] have l: "length fs = length tys"
    and e: "\<forall>i<length tys. GetCopyFunction (tys ! i) = Inr (fs ! i)" by auto
  have "\<forall>k<length tys. copy_ok svs (tys ! k) (fs ! k)"
    using STRUCT.IH STRUCT.prems(1) e by simp
  then show ?case unfolding cf using l by (rule copy_ok_struct)
next
  case (LIST t)
  from LIST.prems(2) obtain f where f: "GetCopyFunction t = Inr f"
    and cf: "cf = ColumnDataCopyFunction CopyList [f]"
    by (auto split: sum.splits)
  show ?case unfolding cf using LIST.prems(1) LIST.IH[OF LIST.prems(1) f] by (rule copy_ok_list)
qed

subsection \<open>The chunks of a segment\<close>

lemma slots_step:
  fixes seg seg' :: ColumnDataCollectionSegment
  assumes sl: "slots svs tys seg chunks" and ci: "ci < length chunks" and k: "k < length tys"
    and x: "x = chunk_vector_data (chunk_data seg ! ci) ! k"
    and cp: "\<And>F. stored svs (tys ! k) seg x F (chunks ! ci ! k) \<Longrightarrow>
               \<exists>F'. copy_post svs (tys ! k) seg x F rows' seg' F'"
  shows "slots svs tys seg' (chunks[ci := (chunks ! ci)[k := rows']]) \<and>
         chunk_data seg' = chunk_data seg \<and> seg_types seg' = seg_types seg \<and>
         seg_count seg' = seg_count seg"
proof -
  let ?X = "\<lambda>cj l. chunk_vector_data (chunk_data seg ! cj) ! l"
  from sl obtain FP where
    len: "length (chunk_data seg) = length chunks"
    and lens: "\<forall>ci<length chunks.
         length (chunk_vector_data (chunk_data seg ! ci)) = length tys \<and>
         length (chunks ! ci) = length tys"
    and st: "\<forall>ci<length chunks. \<forall>k<length tys. stored svs (tys ! k) seg (?X ci k) (FP ci k) (chunks ! ci ! k)"
    and dis: "\<forall>ci k cj l. ci < length chunks \<and> k < length tys \<and> cj < length chunks \<and>
                 l < length tys \<and> (ci \<noteq> cj \<or> k \<noteq> l) \<longrightarrow> FP ci k \<inter> FP cj l = {}"
    unfolding slots_def by blast
  let ?F = "FP ci k"
  have "stored svs (tys ! k) seg x ?F (chunks ! ci ! k)" using st ci k x by simp
  from cp[OF this] obtain F' where post: "copy_post svs (tys ! k) seg x ?F rows' seg' F'" by blast
  then have st': "stored svs (tys ! k) seg' x F' rows'"
    and F2: "F' \<subseteq> ?F \<union> {length (vector_data seg)..<length (vector_data seg')}"
    and fr: "frame seg seg' ?F"
    by (simp_all add: copy_post_def)
  have cd: "chunk_data seg' = chunk_data seg" "seg_types seg' = seg_types seg"
    "seg_count seg' = seg_count seg"
    using fr by (simp_all add: frame_def)
  let ?chunks = "chunks[ci := (chunks ! ci)[k := rows']]"
  let ?FP = "FP(ci := (FP ci)(k := F'))"
  have other: "\<And>cj l. cj < length chunks \<Longrightarrow> l < length tys \<Longrightarrow> (cj \<noteq> ci \<or> l \<noteq> k) \<Longrightarrow>
     FP cj l \<inter> F' = {} \<and> stored svs (tys ! l) seg' (?X cj l) (FP cj l) (chunks ! cj ! l)"
  proof -
    fix cj l assume a: "cj < length chunks" "l < length tys" "cj \<noteq> ci \<or> l \<noteq> k"
    have s: "stored svs (tys ! l) seg (?X cj l) (FP cj l) (chunks ! cj ! l)" using st a by simp
    have d: "FP cj l \<inter> ?F = {}" using dis a ci k by blast
    have "FP cj l \<subseteq> {..<length (vector_data seg)}" using s by (rule stored_subset)
    then have "FP cj l \<inter> F' = {}" using d F2 by fastforce
    moreover have "stored svs (tys ! l) seg' (?X cj l) (FP cj l) (chunks ! cj ! l)"
      using frame_stored[OF fr s d] .
    ultimately show "FP cj l \<inter> F' = {} \<and> stored svs (tys ! l) seg' (?X cj l) (FP cj l) (chunks ! cj ! l)"
      by simp
  qed
  have lk: "k < length (chunks ! ci)" using lens ci k by simp
  have "slots svs tys seg' ?chunks"
    unfolding slots_def
  proof (intro conjI allI impI exI[of _ ?FP])
    show "length (chunk_data seg') = length ?chunks" using len cd by simp
  next
    fix cj assume "cj < length ?chunks"
    then have cj: "cj < length chunks" by simp
    show "length (chunk_vector_data (chunk_data seg' ! cj)) = length tys"
      using lens cj cd by simp
    show "length (?chunks ! cj) = length tys"
      using lens cj ci by (cases "cj = ci") simp_all
  next
    fix cj l assume "cj < length ?chunks" "l < length tys"
    then have cj: "cj < length chunks" and l: "l < length tys" by simp_all
    show "stored svs (tys ! l) seg' (chunk_vector_data (chunk_data seg' ! cj) ! l) (?FP cj l) (?chunks ! cj ! l)"
    proof (cases "cj = ci \<and> l = k")
      case True
      then show ?thesis using st' x ci lk cd by simp
    next
      case False
      then have ne: "cj \<noteq> ci \<or> l \<noteq> k" by blast
      have "stored svs (tys ! l) seg' (?X cj l) (FP cj l) (chunks ! cj ! l)"
        using other[OF cj l ne] by simp
      moreover have "?FP cj l = FP cj l" using ne by auto
      moreover have "?chunks ! cj ! l = chunks ! cj ! l"
        using ne ci cj by (cases "cj = ci") (simp_all)
      ultimately show ?thesis using cd by simp
    qed
  next
    fix a b c d
    assume h: "a < length ?chunks \<and> b < length tys \<and> c < length ?chunks \<and> d < length tys \<and>
               (a \<noteq> c \<or> b \<noteq> d)"
    then have a: "a < length chunks" and b: "b < length tys" and c: "c < length chunks"
      and d: "d < length tys" and ne: "a \<noteq> c \<or> b \<noteq> d" by simp_all
    show "?FP a b \<inter> ?FP c d = {}"
    proof (cases "a = ci \<and> b = k")
      case True
      then have "c \<noteq> ci \<or> d \<noteq> k" using ne by blast
      then have "FP c d \<inter> F' = {}" "?FP c d = FP c d" using other[OF c d] by auto
      then show ?thesis using True by auto
    next
      case False
      then have n1: "a \<noteq> ci \<or> b \<noteq> k" by blast
      then have e1: "FP a b \<inter> F' = {}" "?FP a b = FP a b" using other[OF a b] by auto
      show ?thesis
      proof (cases "c = ci \<and> d = k")
        case True
        then show ?thesis using e1 by auto
      next
        case F: False
        then have "?FP c d = FP c d" by auto
        then show ?thesis using e1 dis a b c d ne by simp
      qed
    qed
  qed
  then show ?thesis using cd by simp
qed

lemma AllocateVectors_eq:
  "AllocateVectors svs ts seg =
     (seg\<lparr>vector_data := vector_data seg @ replicate (length ts) (fresh_vector svs)\<rparr>,
      [length (vector_data seg)..<length (vector_data seg) + length ts])"
proof (induction ts arbitrary: seg)
  case Nil
  then show ?case by simp
next
  case (Cons t ts)
  have "vector_data seg @ fresh_vector svs # replicate (length ts) (fresh_vector svs) =
        vector_data seg @ replicate (Suc (length ts)) (fresh_vector svs)" by simp
  moreover have "[length (vector_data seg)..<length (vector_data seg) + Suc (length ts)] =
        length (vector_data seg) # [Suc (length (vector_data seg))..<Suc (length (vector_data seg)) + length ts]"
    by (simp add: upt_conv_Cons del: upt_Suc)
  moreover have "AllocateVector svs t seg =
      (seg\<lparr>vector_data := vector_data seg @ [fresh_vector svs]\<rparr>, length (vector_data seg))"
    by (simp add: AllocateVector_def fresh_vector_def)
  ultimately show ?case
    by (simp add: Cons.IH del: replicate.simps upt_Suc)
qed

lemma slots_new_chunk:
  fixes seg :: ColumnDataCollectionSegment
  assumes sl: "slots svs tys seg chunks" and ty: "seg_types seg = tys"
  shows "slots svs tys (AllocateNewChunk svs seg) (chunks @ [replicate (length tys) []]) \<and>
         (\<exists>idxs. chunk_data (AllocateNewChunk svs seg) =
                   chunk_data seg @ [\<lparr>chunk_vector_data = idxs, chunk_count = 0\<rparr>]) \<and>
         seg_types (AllocateNewChunk svs seg) = tys \<and>
         seg_count (AllocateNewChunk svs seg) = seg_count seg"
proof -
  let ?L = "length tys"
  let ?p = "length (vector_data seg)"
  let ?idxs = "[?p..<?p + ?L]"
  let ?seg' = "seg\<lparr>vector_data := vector_data seg @ replicate ?L (fresh_vector svs),
                    chunk_data := chunk_data seg @ [\<lparr>chunk_vector_data = ?idxs, chunk_count = 0\<rparr>]\<rparr>"
  have e: "AllocateNewChunk svs seg = ?seg'"
    by (simp add: AllocateNewChunk_def AllocateVectors_eq ty)
  from sl obtain FP where
    len: "length (chunk_data seg) = length chunks"
    and lens: "\<forall>ci<length chunks.
         length (chunk_vector_data (chunk_data seg ! ci)) = length tys \<and>
         length (chunks ! ci) = length tys"
    and st: "\<forall>ci<length chunks. \<forall>k<length tys.
        stored svs (tys ! k) seg (chunk_vector_data (chunk_data seg ! ci) ! k) (FP ci k) (chunks ! ci ! k)"
    and dis: "\<forall>ci k cj l. ci < length chunks \<and> k < length tys \<and> cj < length chunks \<and>
                 l < length tys \<and> (ci \<noteq> cj \<or> k \<noteq> l) \<longrightarrow> FP ci k \<inter> FP cj l = {}"
    unfolding slots_def by blast
  let ?n = "length chunks"
  let ?chunks = "chunks @ [replicate ?L []]"
  let ?FP = "FP(?n := (\<lambda>k. {?p + k}))"
  have old: "\<And>ci k. ci < ?n \<Longrightarrow> k < ?L \<Longrightarrow>
      stored svs (tys ! k) ?seg' (chunk_vector_data (chunk_data seg ! ci) ! k) (FP ci k) (chunks ! ci ! k)
      \<and> FP ci k \<subseteq> {..<?p}"
  proof -
    fix ci k assume a: "ci < ?n" "k < ?L"
    have s: "stored svs (tys ! k) seg (chunk_vector_data (chunk_data seg ! ci) ! k) (FP ci k) (chunks ! ci ! k)"
      using st a by simp
    have sub: "FP ci k \<subseteq> {..<?p}" using s by (rule stored_subset)
    have "stored svs (tys ! k) ?seg' (chunk_vector_data (chunk_data seg ! ci) ! k) (FP ci k) (chunks ! ci ! k)"
    proof (rule stored_frame[OF s])
      show "\<forall>i\<in>FP ci k. vector_data ?seg' ! i = vector_data seg ! i"
        using sub by (auto simp: nth_append)
      show "length (vector_data seg) \<le> length (vector_data ?seg')" by simp
      show "take (length (child_indices seg)) (child_indices ?seg') = child_indices seg" by simp
      show "take (length (heap seg)) (heap ?seg') = heap seg" by simp
    qed
    then show "stored svs (tys ! k) ?seg' (chunk_vector_data (chunk_data seg ! ci) ! k) (FP ci k) (chunks ! ci ! k)
      \<and> FP ci k \<subseteq> {..<?p}" using sub by simp
  qed
  have "slots svs tys ?seg' ?chunks"
    unfolding slots_def
  proof (intro conjI allI impI exI[of _ ?FP])
    show "length (chunk_data ?seg') = length ?chunks" using len by simp
  next
    fix cj assume "cj < length ?chunks"
    then consider "cj < ?n" | "cj = ?n" by fastforce
    then show "length (chunk_vector_data (chunk_data ?seg' ! cj)) = length tys"
      using lens len by cases (simp_all add: nth_append)
  next
    fix cj assume "cj < length ?chunks"
    then consider "cj < ?n" | "cj = ?n" by fastforce
    then show "length (?chunks ! cj) = length tys"
      using lens len by cases (simp_all add: nth_append)
  next
    fix cj l assume "cj < length ?chunks" and l: "l < ?L"
    then consider "cj < ?n" | "cj = ?n" by fastforce
    then show "stored svs (tys ! l) ?seg' (chunk_vector_data (chunk_data ?seg' ! cj) ! l) (?FP cj l) (?chunks ! cj ! l)"
    proof cases
      case 1
      then show ?thesis using old[OF 1 l] len by (simp add: nth_append)
    next
      case 2
      have "stored svs (tys ! l) ?seg' (?p + l) {?p + l} []"
        by (rule fresh_stored) (use l in \<open>simp_all add: nth_append\<close>)
      then show ?thesis using 2 l len by (simp add: nth_append)
    qed
  next
    fix a b c d
    assume h: "a < length ?chunks \<and> b < ?L \<and> c < length ?chunks \<and> d < ?L \<and> (a \<noteq> c \<or> b \<noteq> d)"
    then have b: "b < ?L" and d: "d < ?L" and ne: "a \<noteq> c \<or> b \<noteq> d" by simp_all
    from h consider "a < ?n" "c < ?n" | "a < ?n" "c = ?n" | "a = ?n" "c < ?n" | "a = ?n" "c = ?n"
      by fastforce
    then show "?FP a b \<inter> ?FP c d = {}"
    proof cases
      case 1
      then show ?thesis using dis b d ne by simp
    next
      case 2
      then show ?thesis using old[OF 2(1) b] by fastforce
    next
      case 3
      then show ?thesis using old[OF 3(2) d] by fastforce
    next
      case 4
      then show ?thesis using ne by simp
    qed
  qed
  then show ?thesis unfolding e using ty by simp
qed

lemma column_rows_append [simp]:
  "column_rows k (xs @ ys) = column_rows k xs @ column_rows k ys"
  by (simp add: column_rows_def)

lemma column_rows_single [simp]: "column_rows k [c] = c ! k"
  by (simp add: column_rows_def)

lemma slots_chunk_data:
  fixes seg :: ColumnDataCollectionSegment
  assumes sl: "slots svs tys seg chunks"
    and cd: "map chunk_vector_data cd' = map chunk_vector_data (chunk_data seg)"
  shows "slots svs tys (seg\<lparr>chunk_data := cd'\<rparr>) chunks"
proof -
  have l: "length cd' = length (chunk_data seg)" using cd by (metis length_map)
  have n: "\<And>ci. ci < length cd' \<Longrightarrow> chunk_vector_data (cd' ! ci) = chunk_vector_data (chunk_data seg ! ci)"
    using cd l by (metis nth_map)
  from sl obtain FP where
    len: "length (chunk_data seg) = length chunks"
    and lens: "\<forall>ci<length chunks.
         length (chunk_vector_data (chunk_data seg ! ci)) = length tys \<and>
         length (chunks ! ci) = length tys"
    and st: "\<forall>ci<length chunks. \<forall>k<length tys.
        stored svs (tys ! k) seg (chunk_vector_data (chunk_data seg ! ci) ! k) (FP ci k) (chunks ! ci ! k)"
    and dis: "\<forall>ci k cj l. ci < length chunks \<and> k < length tys \<and> cj < length chunks \<and>
                 l < length tys \<and> (ci \<noteq> cj \<or> k \<noteq> l) \<longrightarrow> FP ci k \<inter> FP cj l = {}"
    unfolding slots_def by blast
  show ?thesis
    unfolding slots_def
  proof (intro conjI allI impI exI[of _ FP])
    show "length (chunk_data (seg\<lparr>chunk_data := cd'\<rparr>)) = length chunks" using l len by simp
  next
    fix ci assume ci: "ci < length chunks"
    show "length (chunk_vector_data (chunk_data (seg\<lparr>chunk_data := cd'\<rparr>) ! ci)) = length tys"
      using lens ci n l len by simp
    show "length (chunks ! ci) = length tys" using lens ci by simp
  next
    fix ci k assume ci: "ci < length chunks" and k: "k < length tys"
    have s: "stored svs (tys ! k) seg (chunk_vector_data (chunk_data seg ! ci) ! k) (FP ci k) (chunks ! ci ! k)"
      using st ci k by simp
    have "stored svs (tys ! k) (seg\<lparr>chunk_data := cd'\<rparr>) (chunk_vector_data (chunk_data seg ! ci) ! k)
            (FP ci k) (chunks ! ci ! k)"
      by (rule stored_frame[OF s]) simp_all
    then show "stored svs (tys ! k) (seg\<lparr>chunk_data := cd'\<rparr>)
            (chunk_vector_data (chunk_data (seg\<lparr>chunk_data := cd'\<rparr>) ! ci) ! k) (FP ci k) (chunks ! ci ! k)"
      using n ci l len by simp
  next
    fix a b c d
    assume "a < length chunks \<and> b < length tys \<and> c < length chunks \<and> d < length tys \<and> (a \<noteq> c \<or> b \<noteq> d)"
    then show "FP a b \<inter> FP c d = {}" using dis by blast
  qed
qed

lemma slots_lens:
  "slots svs tys seg chunks \<Longrightarrow> ci < length chunks \<Longrightarrow>
     length (chunk_data seg) = length chunks \<and>
     length (chunk_vector_data (chunk_data seg ! ci)) = length tys \<and>
     length (chunks ! ci) = length tys"
  unfolding slots_def by blast

lemma slots_stored:
  "slots svs tys seg chunks \<Longrightarrow> ci < length chunks \<Longrightarrow> k < length tys \<Longrightarrow>
     \<exists>F. stored svs (tys ! k) seg (chunk_vector_data (chunk_data seg ! ci) ! k) F (chunks ! ci ! k)"
  unfolding slots_def by blast

lemma Append_columns_ok:
  fixes seg :: ColumnDataCollectionSegment
  assumes fns: "length fns = length tys" "\<forall>k<length tys. copy_ok svs (tys ! k) (fns ! k)"
    and sl: "slots svs tys seg chunks" and ne: "chunks \<noteq> []"
    and cc: "\<forall>k<length tys. length (last chunks ! k) + n \<le> svs" and n: "0 < n"
    and inp: "length (chunk_vectors input) = length tys"
      "\<forall>k<length tys. vector_ok (tys ! k) (chunk_vectors input ! k) off n"
    and stt: "length (state_vector_data state) = length tys"
      "\<forall>k<length tys. state_vector_data state ! k = Orrify (chunk_vectors input ! k)"
  shows "\<exists>seg'. Append_columns svs fns (length tys) state input off n seg = Some (Inr seg') \<and>
      slots svs tys seg'
        (butlast chunks @ [map (\<lambda>k. last chunks ! k @ vector_rows (tys ! k) (chunk_vectors input ! k) off n)
                              [0..<length tys]]) \<and>
      chunk_data seg' = chunk_data seg \<and> seg_types seg' = seg_types seg \<and>
      seg_count seg' = seg_count seg"
proof -
  let ?L = "length tys"
  let ?new = "\<lambda>k. vector_rows (tys ! k) (chunk_vectors input ! k) off n"
  let ?C = "\<lambda>k. map (\<lambda>j. if j < k then last chunks ! j @ ?new j else last chunks ! j) [0..<?L]"
  let ?ci = "length chunks - 1"
  let ?body = "(\<lambda>vector_idx s.
          if chunk_data s = [] then Some (Inl OutOfBounds)
          else if vector_idx < length fns \<and>
                  vector_idx < length (chunk_vector_data (last (chunk_data s))) \<and>
                  vector_idx < length (state_vector_data state) \<and>
                  vector_idx < length (chunk_vectors input) then
            call_copy svs (fns ! vector_idx)
              (child_meta_data (chunk_vector_data (last (chunk_data s)) ! vector_idx))
              (state_vector_data state ! vector_idx) (chunk_vectors input ! vector_idx)
              off n s
          else Some (Inl OutOfBounds))"
  define I where "I = (\<lambda>k (s :: ColumnDataCollectionSegment).
     slots svs tys s (butlast chunks @ [?C k]) \<and> chunk_data s = chunk_data seg \<and>
     seg_types s = seg_types seg \<and> seg_count s = seg_count seg)"
  have lcd: "length (chunk_data seg) = length chunks"
    using slots_lens[OF sl, of "length chunks - 1"] ne by simp
  have ll: "length (last chunks) = ?L"
    using slots_lens[OF sl, of "length chunks - 1"] ne by (simp add: last_conv_nth)
  have lb: "length (butlast chunks) = ?ci" by simp
  have "\<exists>s'. for_loop_r 0 ?L ?body seg = Some (Inr s') \<and> I ?L s'"
  proof (rule for_loop_r_rule)
    have "?C 0 = last chunks" using map_nth[of "last chunks"] ll by simp
    then show "I 0 seg" using sl ne by (simp add: I_def)
    show "0 \<le> ?L" by simp
    fix k and t :: ColumnDataCollectionSegment
    assume k: "k < ?L" and t: "I k t"
    let ?chunks = "butlast chunks @ [?C k]"
    from t have slt: "slots svs tys t ?chunks" and cdt: "chunk_data t = chunk_data seg"
      and ot: "seg_types t = seg_types seg" "seg_count t = seg_count seg"
      by (simp_all add: I_def)
    have ci: "?ci < length ?chunks" by simp
    have cne: "chunk_data t \<noteq> []" using cdt lcd ne by auto
    have lst: "last (chunk_data t) = chunk_data t ! ?ci"
      using cne cdt lcd by (simp add: last_conv_nth)
    have lv: "length (chunk_vector_data (last (chunk_data t))) = ?L"
      using slots_lens[OF slt ci] lst by simp
    let ?x = "chunk_vector_data (chunk_data t ! ?ci) ! k"
    have cur: "?chunks ! ?ci ! k = last chunks ! k" using k by (simp add: nth_append)
    have "copy_ok svs (tys ! k) (fns ! k)" using fns k by simp
    then have ex: "\<And>F. stored svs (tys ! k) t ?x F (last chunks ! k) \<Longrightarrow>
        \<exists>seg' F'. call_copy svs (fns ! k) (child_meta_data ?x) (Orrify (chunk_vectors input ! k))
                     (chunk_vectors input ! k) off n t = Some (Inr seg') \<and>
                copy_post svs (tys ! k) t ?x F (last chunks ! k @ ?new k) seg' F'"
      unfolding copy_ok_def using cc n inp k by (simp add: child_meta_data_def)
    obtain F0 where "stored svs (tys ! k) t ?x F0 (last chunks ! k)"
      using slots_stored[OF slt ci k] unfolding cur by blast
    from ex[OF this] obtain t' where
      call: "call_copy svs (fns ! k) (child_meta_data ?x) (Orrify (chunk_vectors input ! k))
                     (chunk_vectors input ! k) off n t = Some (Inr t')" by blast
    have cp: "\<And>F. stored svs (tys ! k) t ?x F (?chunks ! ?ci ! k) \<Longrightarrow>
               \<exists>F'. copy_post svs (tys ! k) t ?x F (last chunks ! k @ ?new k) t' F'"
    proof -
      fix F assume "stored svs (tys ! k) t ?x F (?chunks ! ?ci ! k)"
      then have "stored svs (tys ! k) t ?x F (last chunks ! k)" using cur by simp
      from ex[OF this] show "\<exists>F'. copy_post svs (tys ! k) t ?x F (last chunks ! k @ ?new k) t' F'"
        using call by auto
    qed
    from slots_step[OF slt ci k refl cp]
    have r: "slots svs tys t' (?chunks[?ci := (?chunks ! ?ci)[k := last chunks ! k @ ?new k]])"
      "chunk_data t' = chunk_data t" "seg_types t' = seg_types t" "seg_count t' = seg_count t"
      by simp_all
    have "(?C k)[k := last chunks ! k @ ?new k] = ?C (Suc k)"
      using k by (intro nth_equalityI) (auto simp: nth_list_update less_Suc_eq)
    then have "?chunks[?ci := (?chunks ! ?ci)[k := last chunks ! k @ ?new k]] = butlast chunks @ [?C (Suc k)]"
      by (simp add: list_update_append nth_append)
    then have "I (Suc k) t'" using r cdt ot by (simp add: I_def)
    moreover have "?body k t = Some (Inr t')"
      using cne k fns(1) lv stt inp(1) call lst by simp
    ultimately show "\<exists>t'. ?body k t = Some (Inr t') \<and> I (Suc k) t'" by blast
  qed
  then obtain s' where r: "for_loop_r 0 ?L ?body seg = Some (Inr s')" and I: "I ?L s'" by blast
  have e: "?C ?L = map (\<lambda>k. last chunks ! k @ ?new k) [0..<?L]" by simp
  have a: "Append_columns svs fns (length tys) state input off n seg = Some (Inr s')"
    unfolding Append_columns_def by (rule r)
  have b: "slots svs tys s' (butlast chunks @ [map (\<lambda>k. last chunks ! k @ ?new k) [0..<?L]])"
    "chunk_data s' = chunk_data seg" "seg_types s' = seg_types seg" "seg_count s' = seg_count seg"
    using I unfolding I_def e by blast+
  show ?thesis using a b by blast
qed

lemma sum_chunk_count_last:
  "cd \<noteq> [] \<Longrightarrow>
   sum_list (map chunk_count (butlast cd @ [(last cd)\<lparr>chunk_count := chunk_count (last cd) + a\<rparr>])) =
   sum_list (map chunk_count cd) + a"
proof -
  assume "cd \<noteq> []"
  then have "cd = butlast cd @ [last cd]" by simp
  then have "sum_list (map chunk_count cd) = sum_list (map chunk_count (butlast cd)) + chunk_count (last cd)"
    by (metis (no_types, lifting) list.simps(8,9) map_append sum_list.Cons sum_list.Nil sum_list_append add.right_neutral)
  then show ?thesis by simp
qed

lemma Append_loop_ok:
  fixes seg :: ColumnDataCollectionSegment
  assumes svs: "0 < svs"
    and fns: "length fns = length tys" "\<forall>k<length tys. copy_ok svs (tys ! k) (fns ! k)"
    and inp: "length (chunk_vectors input) = length tys"
      "\<forall>k<length tys. vector_ok (tys ! k) (chunk_vectors input ! k) 0 (chunk_size input)"
    and stt: "length (state_vector_data state) = length tys"
      "\<forall>k<length tys. state_vector_data state ! k = Orrify (chunk_vectors input ! k)"
  shows "chunks_ok svs tys seg chunks \<Longrightarrow> chunks \<noteq> [] \<Longrightarrow> rem \<le> chunk_size input \<Longrightarrow>
     \<exists>seg' chunks'.
       Append_loop svs fns (length tys) state input (seg, rem) = Some (Inr seg') \<and>
       chunks_ok svs tys seg' chunks' \<and> chunks' \<noteq> [] \<and>
       (\<forall>k<length tys. column_rows k chunks' =
            column_rows k chunks @
            vector_rows (tys ! k) (chunk_vectors input ! k) (chunk_size input - rem) rem) \<and>
       sum_list (map chunk_count (chunk_data seg')) = sum_list (map chunk_count (chunk_data seg)) + rem \<and>
       seg_count seg' = seg_count seg"
proof (induction "2 * rem + (if chunk_count (last (chunk_data seg)) = svs then 1 else 0)"
    arbitrary: seg chunks rem rule: less_induct)
  case less
  let ?L = "length tys"
  let ?size = "chunk_size input"
  let ?rows = "\<lambda>k off n. vector_rows (tys ! k) (chunk_vectors input ! k) off n"
  note ok = less.prems(1) and ne = less.prems(2) and rem = less.prems(3)
  have sl: "slots svs tys seg chunks" and ty: "seg_types seg = tys"
    and cnt: "\<forall>ci<length chunks. chunk_count (chunk_data seg ! ci) \<le> svs \<and>
         (\<forall>k<?L. length (chunks ! ci ! k) = chunk_count (chunk_data seg ! ci))"
    and full: "\<forall>ci. Suc ci < length chunks \<longrightarrow> chunk_count (chunk_data seg ! ci) = svs"
    using ok by (simp_all add: chunks_ok_def)
  let ?ci = "length chunks - 1"
  have ci: "?ci < length chunks" using ne by simp
  have lcd: "length (chunk_data seg) = length chunks" using slots_lens[OF sl ci] by simp
  have cne: "chunk_data seg \<noteq> []" using lcd ne by auto
  have lst: "last (chunk_data seg) = chunk_data seg ! ?ci" using cne lcd by (simp add: last_conv_nth)
  have lstc: "last chunks = chunks ! ?ci" using ne by (simp add: last_conv_nth)
  let ?cc = "chunk_count (last (chunk_data seg))"
  have cc: "?cc \<le> svs" "\<forall>k<?L. length (last chunks ! k) = ?cc"
    using cnt ci lst lstc by simp_all
  show ?case
  proof (cases "rem = 0")
    case True
    have "Append_loop svs fns ?L state input (seg, rem) = Some (Inr seg)"
      using True by (subst Append_loop.simps) simp
    then show ?thesis using ok ne True by auto
  next
    case False
    then have rpos: "0 < rem" by simp
    let ?amt = "min rem (svs - ?cc)"
    have isub: "idx_sub svs ?cc = svs - ?cc" using cc(1) by (rule idx_sub_le)
    \<comment> \<open>the rows that fit into the last chunk\<close>
    have "\<exists>seg1 chunks1.
       (if ?amt > 0 then
                       (case Append_columns svs fns ?L state input (?size - rem) ?amt seg of
                          None \<Rightarrow> None
                        | Some (Inl e) \<Rightarrow> Some (Inl e)
                        | Some (Inr s1) \<Rightarrow>
                            if chunk_data s1 = [] then Some (Inl OutOfBounds)
                            else Some (Inr (s1\<lparr>chunk_data := butlast (chunk_data s1) @
                                     [(last (chunk_data s1))\<lparr>chunk_count :=
                                         chunk_count (last (chunk_data s1)) + ?amt\<rparr>]\<rparr>)))
                     else Some (Inr seg)) = Some (Inr seg1) \<and>
       chunks_ok svs tys seg1 chunks1 \<and> chunks1 \<noteq> [] \<and>
       (\<forall>k<?L. column_rows k chunks1 = column_rows k chunks @ ?rows k (?size - rem) ?amt) \<and>
       sum_list (map chunk_count (chunk_data seg1)) = sum_list (map chunk_count (chunk_data seg)) + ?amt \<and>
       seg_count seg1 = seg_count seg \<and>
       chunk_count (last (chunk_data seg1)) = ?cc + ?amt"
    proof (cases "?amt > 0")
      case False
      then have z: "?amt = 0" by linarith
      show ?thesis
        apply (rule exI[of _ seg], rule exI[of _ chunks])
        using ok ne by (simp add: z)
    next
      case True
      have fit: "\<forall>k<?L. length (last chunks ! k) + ?amt \<le> svs" using cc by auto
      have vok: "\<forall>k<?L. vector_ok (tys ! k) (chunk_vectors input ! k) (?size - rem) ?amt"
      proof (intro allI impI)
        fix k assume "k < ?L"
        then have "vector_ok (tys ! k) (chunk_vectors input ! k) 0 ?size" using inp by simp
        then show "vector_ok (tys ! k) (chunk_vectors input ! k) (?size - rem) ?amt"
          by (rule vector_ok_sub) (use rem in auto)
      qed
      let ?chunks1 = "butlast chunks @ [map (\<lambda>k. last chunks ! k @ ?rows k (?size - rem) ?amt) [0..<?L]]"
      from Append_columns_ok[OF fns sl ne fit True inp(1) vok stt]
      obtain s1 where
        ac: "Append_columns svs fns ?L state input (?size - rem) ?amt seg = Some (Inr s1)"
        and sl1: "slots svs tys s1 ?chunks1"
        and same: "chunk_data s1 = chunk_data seg" "seg_types s1 = seg_types seg"
          "seg_count s1 = seg_count seg"
        by blast
      let ?cd = "butlast (chunk_data seg) @ [(last (chunk_data seg))\<lparr>chunk_count := ?cc + ?amt\<rparr>]"
      let ?seg1 = "s1\<lparr>chunk_data := ?cd\<rparr>"
      have "map chunk_vector_data ?cd = map chunk_vector_data (butlast (chunk_data seg) @ [last (chunk_data seg)])"
        by simp
      then have mcd: "map chunk_vector_data ?cd = map chunk_vector_data (chunk_data s1)"
        using cne same by simp
      have sl1': "slots svs tys ?seg1 ?chunks1" using slots_chunk_data[OF sl1 mcd] .
      have lb: "length (butlast chunks) = ?ci" "length (butlast (chunk_data seg)) = ?ci"
        using lcd by simp_all
      have ok1: "chunks_ok svs tys ?seg1 ?chunks1"
        unfolding chunks_ok_def
      proof (intro conjI allI impI)
        show "slots svs tys ?seg1 ?chunks1" by fact
        show "seg_types ?seg1 = tys" using same ty by simp
      next
        fix cj assume "cj < length ?chunks1"
        then consider "cj < ?ci" | "cj = ?ci" by fastforce
        then show "chunk_count (chunk_data ?seg1 ! cj) \<le> svs"
        proof cases
          case 1
          then have "chunk_data ?seg1 ! cj = chunk_data seg ! cj"
            using lb by (simp add: nth_append nth_butlast)
          then show ?thesis using cnt 1 by simp
        next
          case 2
          then have "chunk_count (chunk_data ?seg1 ! cj) = ?cc + ?amt"
            using lb by (simp add: nth_append)
          then show ?thesis using cc by simp
        qed
      next
        fix cj k assume "cj < length ?chunks1" and k: "k < ?L"
        then consider "cj < ?ci" | "cj = ?ci" by fastforce
        then show "length (?chunks1 ! cj ! k) = chunk_count (chunk_data ?seg1 ! cj)"
        proof cases
          case 1
          then have "chunk_data ?seg1 ! cj = chunk_data seg ! cj" "?chunks1 ! cj = chunks ! cj"
            using lb by (simp_all add: nth_append nth_butlast)
          then show ?thesis using cnt 1 k by simp
        next
          case 2
          then have "chunk_count (chunk_data ?seg1 ! cj) = ?cc + ?amt"
            "?chunks1 ! cj ! k = last chunks ! k @ ?rows k (?size - rem) ?amt"
            using lb k by (simp_all add: nth_append)
          then show ?thesis using cc k by simp
        qed
      next
        fix cj assume "Suc cj < length ?chunks1"
        then have a: "cj < ?ci" "Suc cj < length chunks" by simp_all
        then have "chunk_data ?seg1 ! cj = chunk_data seg ! cj"
          using lb by (simp add: nth_append nth_butlast)
        then show "chunk_count (chunk_data ?seg1 ! cj) = svs" using full a by simp
      qed
      have cr: "\<forall>k<?L. column_rows k ?chunks1 = column_rows k chunks @ ?rows k (?size - rem) ?amt"
      proof (intro allI impI)
        fix k assume k: "k < ?L"
        have "column_rows k chunks = column_rows k (butlast chunks @ [last chunks])" using ne by simp
        then have "column_rows k chunks = column_rows k (butlast chunks) @ last chunks ! k"
          by (simp only: column_rows_append column_rows_single)
        then show "column_rows k ?chunks1 = column_rows k chunks @ ?rows k (?size - rem) ?amt"
          using k by simp
      qed
      have sm: "sum_list (map chunk_count (chunk_data ?seg1)) =
                sum_list (map chunk_count (chunk_data seg)) + ?amt"
        using sum_chunk_count_last[OF cne, of ?amt] by simp
      have lc: "chunk_count (last (chunk_data ?seg1)) = ?cc + ?amt" by simp
      have e: "(if ?amt > 0 then
                       (case Append_columns svs fns ?L state input (?size - rem) ?amt seg of
                          None \<Rightarrow> None
                        | Some (Inl e) \<Rightarrow> Some (Inl e)
                        | Some (Inr s1) \<Rightarrow>
                            if chunk_data s1 = [] then Some (Inl OutOfBounds)
                            else Some (Inr (s1\<lparr>chunk_data := butlast (chunk_data s1) @
                                     [(last (chunk_data s1))\<lparr>chunk_count :=
                                         chunk_count (last (chunk_data s1)) + ?amt\<rparr>]\<rparr>)))
                     else Some (Inr seg)) = Some (Inr ?seg1)"
        using True ac same cne by simp
      show ?thesis
        apply (rule exI[of _ ?seg1], rule exI[of _ ?chunks1])
        using e ok1 cr sm same lc by simp
    qed
    then obtain seg1 chunks1 where
      e1: "(if ?amt > 0 then
                       (case Append_columns svs fns ?L state input (?size - rem) ?amt seg of
                          None \<Rightarrow> None
                        | Some (Inl e) \<Rightarrow> Some (Inl e)
                        | Some (Inr s1) \<Rightarrow>
                            if chunk_data s1 = [] then Some (Inl OutOfBounds)
                            else Some (Inr (s1\<lparr>chunk_data := butlast (chunk_data s1) @
                                     [(last (chunk_data s1))\<lparr>chunk_count :=
                                         chunk_count (last (chunk_data s1)) + ?amt\<rparr>]\<rparr>)))
                     else Some (Inr seg)) = Some (Inr seg1)"
      and ok1: "chunks_ok svs tys seg1 chunks1" and ne1: "chunks1 \<noteq> []"
      and cr1: "\<forall>k<?L. column_rows k chunks1 = column_rows k chunks @ ?rows k (?size - rem) ?amt"
      and sm1: "sum_list (map chunk_count (chunk_data seg1)) =
                sum_list (map chunk_count (chunk_data seg)) + ?amt"
      and sc1: "seg_count seg1 = seg_count seg"
      and lc1: "chunk_count (last (chunk_data seg1)) = ?cc + ?amt"
      by (elim exE conjE) (rule that)
    let ?rem1 = "rem - ?amt"
    have unf: "Append_loop svs fns ?L state input (seg, rem) =
        (if ?rem1 > 0
         then Append_loop svs fns ?L state input (AllocateNewChunk svs seg1, ?rem1)
         else Append_loop svs fns ?L state input (seg1, ?rem1))"
      apply (subst Append_loop.simps)
      using rpos cne isub e1 by (simp add: Let_def)
    have off: "?size - ?rem1 = ?size - rem + ?amt" using rem by auto
    have split: "\<And>k. ?rows k (?size - rem) rem = ?rows k (?size - rem) ?amt @ ?rows k (?size - ?rem1) ?rem1"
    proof -
      fix k
      have "rem = ?amt + ?rem1" by auto
      then have "?rows k (?size - rem) rem = ?rows k (?size - rem) (?amt + ?rem1)" by simp
      also have "\<dots> = ?rows k (?size - rem) ?amt @ ?rows k (?size - rem + ?amt) ?rem1"
        by (rule vector_rows_split)
      finally show "?rows k (?size - rem) rem = ?rows k (?size - rem) ?amt @ ?rows k (?size - ?rem1) ?rem1"
        using off by simp
    qed
    show ?thesis
    proof (cases "?rem1 > 0")
      case False
      then have z: "?rem1 = 0" by simp
      have "Append_loop svs fns ?L state input (seg1, 0) = Some (Inr seg1)"
        by (subst Append_loop.simps) simp
      then have r: "Append_loop svs fns ?L state input (seg, rem) = Some (Inr seg1)"
        unfolding unf z by simp
      have am: "?amt = rem" using z by auto
      show ?thesis
        apply (rule exI[of _ seg1], rule exI[of _ chunks1])
        using r ok1 ne1 cr1 sm1 sc1 am by simp
    next
      case True
      let ?seg2 = "AllocateNewChunk svs seg1"
      let ?chunks2 = "chunks1 @ [replicate ?L []]"
      have sl1: "slots svs tys seg1 chunks1" and ty1: "seg_types seg1 = tys"
        and cnt1: "\<forall>ci<length chunks1. chunk_count (chunk_data seg1 ! ci) \<le> svs \<and>
           (\<forall>k<?L. length (chunks1 ! ci ! k) = chunk_count (chunk_data seg1 ! ci))"
        and full1: "\<forall>ci. Suc ci < length chunks1 \<longrightarrow> chunk_count (chunk_data seg1 ! ci) = svs"
        using ok1 by (simp_all add: chunks_ok_def)
      from slots_new_chunk[OF sl1 ty1] obtain idxs where
        sl2: "slots svs tys ?seg2 ?chunks2"
        and cd2: "chunk_data ?seg2 = chunk_data seg1 @ [\<lparr>chunk_vector_data = idxs, chunk_count = 0\<rparr>]"
        and o2: "seg_types ?seg2 = tys" "seg_count ?seg2 = seg_count seg1"
        by blast
      have l1: "length (chunk_data seg1) = length chunks1"
        using slots_lens[OF sl1, of "length chunks1 - 1"] ne1 by simp
      have ok2: "chunks_ok svs tys ?seg2 ?chunks2"
        unfolding chunks_ok_def
      proof (intro conjI allI impI)
        show "slots svs tys ?seg2 ?chunks2" by fact
        show "seg_types ?seg2 = tys" by fact
      next
        fix cj assume "cj < length ?chunks2"
        then consider "cj < length chunks1" | "cj = length chunks1" by fastforce
        then show "chunk_count (chunk_data ?seg2 ! cj) \<le> svs"
          using cnt1 l1 by cases (simp_all add: cd2 nth_append)
      next
        fix cj k assume "cj < length ?chunks2" and k: "k < ?L"
        then consider "cj < length chunks1" | "cj = length chunks1" by fastforce
        then show "length (?chunks2 ! cj ! k) = chunk_count (chunk_data ?seg2 ! cj)"
          using cnt1 l1 k by cases (simp_all add: cd2 nth_append)
      next
        fix cj assume "Suc cj < length ?chunks2"
        then consider "Suc cj < length chunks1" | "Suc cj = length chunks1" by fastforce
        then show "chunk_count (chunk_data ?seg2 ! cj) = svs"
        proof cases
          case 1
          then show ?thesis using full1 l1 by (simp add: cd2 nth_append)
        next
          case 2
          have "chunk_data seg1 \<noteq> []" using l1 ne1 by auto
          then have "last (chunk_data seg1) = chunk_data seg1 ! (length (chunk_data seg1) - 1)"
            by (rule last_conv_nth)
          moreover have "length (chunk_data seg1) - 1 = cj" using 2 l1 by simp
          ultimately have "chunk_data ?seg2 ! cj = last (chunk_data seg1)"
            using 2 l1 by (simp add: cd2 nth_append)
          moreover have "?cc + ?amt = svs" using True cc(1) by auto
          ultimately show ?thesis using lc1 by simp
        qed
      qed
      have lc2: "chunk_count (last (chunk_data ?seg2)) = 0" by (simp add: cd2)
      have meas: "2 * ?rem1 + (if chunk_count (last (chunk_data ?seg2)) = svs then 1 else 0)
            < 2 * rem + (if ?cc = svs then 1 else 0)"
      proof (cases "?amt = 0")
        case True
        then have "?cc = svs" using rpos cc(1) by (auto simp: min_def split: if_splits)
        then show ?thesis using lc2 svs True by simp
      next
        case False
        then have "?rem1 < rem" using rpos by auto
        then show ?thesis using lc2 svs by simp
      qed
      have r1: "?rem1 \<le> ?size" using rem by simp
      from less.hyps[OF meas ok2 _ r1]
      obtain seg' chunks' where
        r: "Append_loop svs fns ?L state input (?seg2, ?rem1) = Some (Inr seg')"
        and ok': "chunks_ok svs tys seg' chunks'" and ne': "chunks' \<noteq> []"
        and cr': "\<forall>k<?L. column_rows k chunks' = column_rows k ?chunks2 @ ?rows k (?size - ?rem1) ?rem1"
        and sm': "sum_list (map chunk_count (chunk_data seg')) =
                  sum_list (map chunk_count (chunk_data ?seg2)) + ?rem1"
        and sc': "seg_count seg' = seg_count ?seg2"
        by auto
      have r': "Append_loop svs fns ?L state input (seg, rem) = Some (Inr seg')"
        using r unfolding unf if_P[OF True] .
      have cr: "\<forall>k<?L. column_rows k chunks' = column_rows k chunks @ ?rows k (?size - rem) rem"
      proof (intro allI impI)
        fix k assume k: "k < ?L"
        have "column_rows k ?chunks2 = column_rows k chunks1" using k by simp
        then have "column_rows k chunks' =
            (column_rows k chunks @ ?rows k (?size - rem) ?amt) @ ?rows k (?size - ?rem1) ?rem1"
          using cr' cr1 k by simp
        then show "column_rows k chunks' = column_rows k chunks @ ?rows k (?size - rem) rem"
          using split[of k] by simp
      qed
      have sm: "sum_list (map chunk_count (chunk_data seg')) =
                sum_list (map chunk_count (chunk_data seg)) + rem"
        using sm' sm1 cd2 by simp
      have sc: "seg_count seg' = seg_count seg" using sc' o2 sc1 by simp
      show ?thesis
        apply (rule exI[of _ seg'], rule exI[of _ chunks'])
        using r' ok' ne' cr sm sc by blast
    qed
  qed
qed

subsection \<open>Flattening\<close>

text \<open>
  \<open>flatten\<close> keeps the rows of a vector and makes it fit for the copy functions, and a
  vector of a type without a struct is fit as it is: these are the two branches of the
  first loop of \<open>Append\<close>.
\<close>

lemma input_ok_subset:
  "input_ok ty v rows \<Longrightarrow> set rows' \<subseteq> set rows \<Longrightarrow> input_ok ty v rows'"
proof (induction ty arbitrary: v rows rows')
  case (Scalar p)
  then show ?case by (auto simp: list_all_iff)
next
  case (STRUCT tys)
  have l: "length (GetEntries v) = length tys" and t: "GetType v = STRUCT tys"
    using STRUCT.prems(1) by auto
  have "\<forall>k<length tys. input_ok (tys ! k) (GetEntries v ! k) (map (sel (Orrify v)) rows')"
  proof (intro allI impI)
    fix k assume k: "k < length tys"
    have "input_ok (tys ! k) (GetEntries v ! k) (map (sel (Orrify v)) rows)"
      using STRUCT.prems(1) k l by (simp add: list_all_length)
    moreover have "set (map (sel (Orrify v)) rows') \<subseteq> set (map (sel (Orrify v)) rows)"
      using STRUCT.prems(2) by auto
    ultimately show "input_ok (tys ! k) (GetEntries v ! k) (map (sel (Orrify v)) rows')"
      using STRUCT.IH[of "tys ! k"] k by simp
  qed
  then show ?case using l t by (simp add: list_all_length)
next
  case (LIST ty)
  then show ?case by (auto simp: list_all_iff)
qed

lemma flatten_ok:
  "input_ok ty v (map s [off..<off + n]) \<Longrightarrow> vector_ok ty (flatten v s) off n"
proof (induction ty arbitrary: v s off n)
  case (Scalar p)
  obtain t vd ch ls where v: "v = Vector t vd ch ls" by (cases v)
  show ?case using Scalar.prems unfolding v
    by (auto simp: list_all_iff validity_RowIsValid_def Let_def split: option.splits)
next
  case (STRUCT tys)
  obtain t vd ch ls where v: "v = Vector t vd ch ls" by (cases v)
  have t: "t = STRUCT tys" and l: "length ch = length tys"
    using STRUCT.prems by (simp_all add: v)
  have "\<forall>k<length tys. vector_ok (tys ! k) (flatten (ch ! k) (\<lambda>i. sel vd (s i))) off n"
  proof (intro allI impI)
    fix k assume k: "k < length tys"
    have "input_ok (tys ! k) (ch ! k) (map (sel vd) (map s [off..<off + n]))"
      using STRUCT.prems k l by (simp add: v list_all_length)
    then have "input_ok (tys ! k) (ch ! k) (map (\<lambda>i. sel vd (s i)) [off..<off + n])"
      by (simp add: comp_def)
    then show "vector_ok (tys ! k) (flatten (ch ! k) (\<lambda>i. sel vd (s i))) off n"
      using STRUCT.IH[of "tys ! k"] k by simp
  qed
  then show ?case using t l by (simp add: v list_all_length)
next
  case (LIST ty)
  obtain t vd ch ls where v: "v = Vector t vd ch ls" by (cases v)
  have t: "t = LIST ty" using LIST.prems by (simp add: v)
  obtain child rest where ch: "ch = child # rest"
    using LIST.prems by (cases ch) (simp_all add: v)
  have "input_ok ty child [0..<ls]" using LIST.prems by (simp add: v ch)
  then have "input_ok ty child (map (\<lambda>i. i) [0..<0 + ls])" by simp
  then have c: "vector_ok ty (flatten child (\<lambda>i. i)) 0 ls" by (rule LIST.IH)
  have la: "list_all (\<lambda>r. let idx = sel vd r
                       in validity_RowIsValid vd idx \<longrightarrow>
                          (case data vd idx of
                             ListEntry a b \<Rightarrow> a + b \<le> ls
                           | _ \<Rightarrow> False))
                 (map s [off..<off + n])"
    using LIST.prems unfolding v input_ok.simps Vector.sel by blast
  have e: "\<forall>i<n. validity_RowIsValid vd (sel vd (s (off + i))) \<longrightarrow>
             (case data vd (sel vd (s (off + i))) of
                ListEntry a b \<Rightarrow> a + b \<le> ls
              | _ \<Rightarrow> False)"
  proof (intro allI impI)
    fix i assume i: "i < n" and va: "validity_RowIsValid vd (sel vd (s (off + i)))"
    have "s (off + i) \<in> set (map s [off..<off + n])" using i by simp
    with la have "let idx = sel vd (s (off + i))
                       in validity_RowIsValid vd idx \<longrightarrow>
                          (case data vd idx of
                             ListEntry a b \<Rightarrow> a + b \<le> ls
                           | _ \<Rightarrow> False)"
      unfolding list_all_iff by blast
    then show "case data vd (sel vd (s (off + i))) of
                ListEntry a b \<Rightarrow> a + b \<le> ls
              | _ \<Rightarrow> False" using va by (simp add: Let_def)
  qed
  show ?case using t c e
    by (auto simp: v ch list_all_length validity_RowIsValid_def Let_def split: option.splits cell.splits)
qed

lemma flatten_rows:
  "input_ok ty v (map s [off..<off + n]) \<Longrightarrow>
   vector_rows ty (flatten v s) off n = map (\<lambda>i. hd (vector_rows ty v (s (off + i)) 1)) [0..<n]"
proof (induction ty arbitrary: v s off n)
  case (Scalar p)
  obtain t vd ch ls where v: "v = Vector t vd ch ls" by (cases v)
  show ?case
    by (simp add: v validity_RowIsValid_def Let_def split: option.splits)
next
  case (STRUCT tys)
  obtain t vd ch ls where v: "v = Vector t vd ch ls" by (cases v)
  have t: "t = STRUCT tys" and l: "length ch = length tys"
    using STRUCT.prems by (simp_all add: v)
  let ?s' = "\<lambda>i. sel vd (s i)"
  let ?ch' = "map (\<lambda>c. flatten c ?s') ch"
  have ent: "GetEntries (flatten v s) = ?ch'" by (simp add: v t comp_def)
  have kid: "\<forall>i<n. \<forall>k<length tys.
      hd (vector_rows (tys ! k) (flatten (ch ! k) ?s') (off + i) 1) =
      hd (vector_rows (tys ! k) (ch ! k) (?s' (off + i)) 1)"
  proof (intro allI impI)
    fix i k assume i: "i < n" and k: "k < length tys"
    have "input_ok (tys ! k) (ch ! k) (map (sel vd) (map s [off..<off + n]))"
      using STRUCT.prems k l by (simp add: v list_all_length)
    moreover have "set (map ?s' [off + i..<off + i + 1]) \<subseteq> set (map (sel vd) (map s [off..<off + n]))"
      using i by auto
    ultimately have "input_ok (tys ! k) (ch ! k) (map ?s' [off + i..<off + i + 1])"
      by (rule input_ok_subset)
    then have "vector_rows (tys ! k) (flatten (ch ! k) ?s') (off + i) 1 =
        map (\<lambda>j. hd (vector_rows (tys ! k) (ch ! k) (?s' (off + i + j)) 1)) [0..<1]"
      using STRUCT.IH[of "tys ! k" "ch ! k" ?s' "off + i" 1] k by simp
    then show "hd (vector_rows (tys ! k) (flatten (ch ! k) ?s') (off + i) 1) =
      hd (vector_rows (tys ! k) (ch ! k) (?s' (off + i)) 1)" by simp
  qed
  have fields: "\<forall>i<n.
      map (\<lambda>(rows_of, child). hd (rows_of child (off + i) 1)) (zip (map vector_rows tys) ?ch') =
      map (\<lambda>(rows_of, child). hd (rows_of child (?s' (off + i)) 1)) (zip (map vector_rows tys) ch)"
  proof (intro allI impI nth_equalityI)
    fix i assume i: "i < n"
    show "length (map (\<lambda>(rows_of, child). hd (rows_of child (off + i) 1)) (zip (map vector_rows tys) ?ch')) =
          length (map (\<lambda>(rows_of, child). hd (rows_of child (?s' (off + i)) 1)) (zip (map vector_rows tys) ch))"
      using l by simp
    fix k assume "k < length (map (\<lambda>(rows_of, child). hd (rows_of child (off + i) 1)) (zip (map vector_rows tys) ?ch'))"
    then have k: "k < length tys" using l by simp
    show "map (\<lambda>(rows_of, child). hd (rows_of child (off + i) 1)) (zip (map vector_rows tys) ?ch') ! k =
          map (\<lambda>(rows_of, child). hd (rows_of child (?s' (off + i)) 1)) (zip (map vector_rows tys) ch) ! k"
      using kid i k l by simp
  qed
  show ?case
  proof (rule nth_equalityI)
    show "length (vector_rows (STRUCT tys) (flatten v s) off n) =
          length (map (\<lambda>i. hd (vector_rows (STRUCT tys) v (s (off + i)) 1)) [0..<n])" by simp
    fix i assume "i < length (vector_rows (STRUCT tys) (flatten v s) off n)"
    then have i: "i < n" by simp
    have o: "Orrify (flatten v s) = \<lparr>sel = (\<lambda>i. i), data = (\<lambda>i. data vd (sel vd (s i))),
             validity = (case validity vd of
                           None \<Rightarrow> None
                         | Some f \<Rightarrow> Some (\<lambda>i. f (sel vd (s i))))\<rparr>" by (simp add: v)
    have va: "validity_RowIsValid \<lparr>sel = (\<lambda>i. i), data = (\<lambda>i. data vd (sel vd (s i))),
             validity = (case validity vd of
                           None \<Rightarrow> None
                         | Some f \<Rightarrow> Some (\<lambda>i. f (sel vd (s i))))\<rparr> (off + i) =
              validity_RowIsValid vd (sel vd (s (off + i)))"
      by (simp add: validity_RowIsValid_def split: option.splits)
    have "vector_rows (STRUCT tys) (flatten v s) off n ! i =
          (if validity_RowIsValid vd (sel vd (s (off + i)))
           then StructValue (map (\<lambda>(rows_of, child). hd (rows_of child (off + i) 1))
                                 (zip (map vector_rows tys) ?ch'))
           else Null)"
      using i by (simp add: Let_def ent o va)
    also have "\<dots> = (if validity_RowIsValid vd (sel vd (s (off + i)))
           then StructValue (map (\<lambda>(rows_of, child). hd (rows_of child (?s' (off + i)) 1))
                                 (zip (map vector_rows tys) ch))
           else Null)"
      using fields i by simp
    also have "\<dots> = hd (vector_rows (STRUCT tys) v (s (off + i)) 1)"
      by (simp add: v Let_def)
    finally show "vector_rows (STRUCT tys) (flatten v s) off n ! i =
          map (\<lambda>i. hd (vector_rows (STRUCT tys) v (s (off + i)) 1)) [0..<n] ! i"
      using i by simp
  qed
next
  case (LIST ty)
  obtain t vd ch ls where v: "v = Vector t vd ch ls" by (cases v)
  have t: "t = LIST ty" using LIST.prems by (simp add: v)
  obtain child rest where ch: "ch = child # rest"
    using LIST.prems by (cases ch) (simp_all add: v)
  have "input_ok ty child [0..<ls]" using LIST.prems by (simp add: v ch)
  then have "input_ok ty child (map (\<lambda>i. i) [0..<0 + ls])" by simp
  then have "vector_rows ty (flatten child (\<lambda>i. i)) 0 ls =
             map (\<lambda>i. hd (vector_rows ty child (0 + i) 1)) [0..<ls]" by (rule LIST.IH)
  also have "\<dots> = vector_rows ty child 0 ls"
    by (rule nth_equalityI) (simp_all add: vector_rows_nth)
  finally have el: "vector_rows ty (flatten child (\<lambda>i. i)) 0 ls = vector_rows ty child 0 ls" .
  show ?case
    by (auto simp: v t ch el validity_RowIsValid_def Let_def split: option.splits cell.splits)
qed

lemma simple_ok:
  "\<not> IsComplexType ty \<Longrightarrow> input_ok ty v [off..<off + n] \<Longrightarrow> vector_ok ty v off n"
proof (induction ty arbitrary: v off n)
  case (Scalar p)
  then show ?case by (auto simp: list_all_iff)
next
  case (STRUCT tys)
  then show ?case by simp
next
  case (LIST ty)
  obtain child rest where ch: "GetEntries v = child # rest"
    using LIST.prems(2) by (cases "GetEntries v") simp_all
  have "input_ok ty child [0..<0 + GetListSize v]" using LIST.prems(2) ch by simp
  then have "vector_ok ty child 0 (GetListSize v)" using LIST.IH LIST.prems(1) by simp
  then show ?case using LIST.prems(2) ch by (auto simp: list_all_iff)
qed

lemma GetType_flatten [simp]: "GetType (flatten v s) = GetType v"
  by (cases v) simp

lemma Normalify_ok:
  assumes "input_ok ty v [0..<n]"
  shows "vector_ok ty (Normalify v n) 0 n" "vector_rows ty (Normalify v n) 0 n = vector_rows ty v 0 n"
proof -
  have i: "input_ok ty v (map (\<lambda>i. i) [0..<0 + n])" using assms by simp
  show "vector_ok ty (Normalify v n) 0 n" unfolding Normalify_def using i by (rule flatten_ok)
  have "vector_rows ty (flatten v (\<lambda>i. i)) 0 n = map (\<lambda>i. hd (vector_rows ty v (0 + i) 1)) [0..<n]"
    using i by (rule flatten_rows)
  also have "\<dots> = vector_rows ty v 0 n"
    by (rule nth_equalityI) (simp_all add: vector_rows_nth)
  finally show "vector_rows ty (Normalify v n) 0 n = vector_rows ty v 0 n"
    unfolding Normalify_def .
qed

lemma input_ok_type: "input_ok ty v rows \<Longrightarrow> GetType v = ty"
  by (cases ty) simp_all

subsection \<open>Append on a collection\<close>

lemma batch_okD:
  assumes "batch_ok tys b"
  shows "GetTypes b = tys" "length (chunk_vectors b) = length tys"
    "\<forall>k<length tys. input_ok (tys ! k) (chunk_vectors b ! k) [0..<chunk_size b]"
proof -
  show t: "GetTypes b = tys" using assms by (simp add: batch_ok_def)
  then show l: "length (chunk_vectors b) = length tys" by (auto simp: GetTypes_def)
  show "\<forall>k<length tys. input_ok (tys ! k) (chunk_vectors b ! k) [0..<chunk_size b]"
    using assms l by (auto simp: batch_ok_def list_all_length)
qed

lemma slots_eq:
  fixes seg seg' :: ColumnDataCollectionSegment
  assumes sl: "slots svs tys seg chunks"
    and eq: "vector_data seg' = vector_data seg" "child_indices seg' = child_indices seg"
      "chunk_data seg' = chunk_data seg" "heap seg' = heap seg"
  shows "slots svs tys seg' chunks"
proof -
  from sl obtain FP where
    len: "length (chunk_data seg) = length chunks"
    and lens: "\<forall>ci<length chunks.
         length (chunk_vector_data (chunk_data seg ! ci)) = length tys \<and>
         length (chunks ! ci) = length tys"
    and st: "\<forall>ci<length chunks. \<forall>k<length tys.
        stored svs (tys ! k) seg (chunk_vector_data (chunk_data seg ! ci) ! k) (FP ci k) (chunks ! ci ! k)"
    and dis: "\<forall>ci k cj l. ci < length chunks \<and> k < length tys \<and> cj < length chunks \<and>
                 l < length tys \<and> (ci \<noteq> cj \<or> k \<noteq> l) \<longrightarrow> FP ci k \<inter> FP cj l = {}"
    unfolding slots_def by blast
  show ?thesis
    unfolding slots_def eq
  proof (intro conjI allI impI exI[of _ FP])
    show "length (chunk_data seg) = length chunks" by fact
  next
    fix ci assume ci: "ci < length chunks"
    show "length (chunk_vector_data (chunk_data seg ! ci)) = length tys" using lens ci by simp
    show "length (chunks ! ci) = length tys" using lens ci by simp
  next
    fix ci k assume ci: "ci < length chunks" and k: "k < length tys"
    have s: "stored svs (tys ! k) seg (chunk_vector_data (chunk_data seg ! ci) ! k) (FP ci k) (chunks ! ci ! k)"
      using st ci k by simp
    show "stored svs (tys ! k) seg' (chunk_vector_data (chunk_data seg ! ci) ! k) (FP ci k) (chunks ! ci ! k)"
      by (rule stored_frame[OF s]) (simp_all add: eq)
  next
    fix a b c d
    assume "a < length chunks \<and> b < length tys \<and> c < length chunks \<and> d < length tys \<and> (a \<noteq> c \<or> b \<noteq> d)"
    then show "FP a b \<inter> FP c d = {}" using dis by blast
  qed
qed

lemma chunks_ok_seg_count:
  "chunks_ok svs tys seg chunks \<Longrightarrow> chunks_ok svs tys (seg\<lparr>seg_count := n\<rparr>) chunks"
  unfolding chunks_ok_def using slots_eq[of svs tys seg chunks "seg\<lparr>seg_count := n\<rparr>"] by simp

lemma slots_new_segment: "slots svs tys (new_segment tys) []"
  by (simp add: slots_def new_segment_def)

lemma Append_orrify_ok:
  assumes "length (chunk_vectors input) = n" "length (state_vector_data state) = n"
  shows "\<exists>st inp. Append_orrify n state input = Inr (st, inp) \<and> length (state_vector_data st) = n \<and>
           length (chunk_vectors inp) = n \<and> chunk_size inp = chunk_size input \<and>
           (\<forall>k<n. chunk_vectors inp ! k =
                     (if IsComplexType (GetType (chunk_vectors input ! k))
                      then Normalify (chunk_vectors input ! k) (chunk_size input)
                      else chunk_vectors input ! k) \<and>
                  state_vector_data st ! k = Orrify (chunk_vectors inp ! k))"
proof -
  let ?N = "\<lambda>k. if IsComplexType (GetType (chunk_vectors input ! k))
                 then Normalify (chunk_vectors input ! k) (chunk_size input)
                 else chunk_vectors input ! k"
  let ?body = "(\<lambda>vector_idx (st, inp).
          if vector_idx < length (chunk_vectors inp) \<and>
             vector_idx < length (state_vector_data st) then
            (let v = chunk_vectors inp ! vector_idx;
                 v1 = (if IsComplexType (GetType v) then Normalify v (chunk_size inp) else v)
             in Inr (st\<lparr>state_vector_data := (state_vector_data st)[vector_idx := Orrify v1]\<rparr>,
                     inp\<lparr>chunk_vectors := (chunk_vectors inp)[vector_idx := v1]\<rparr>))
          else Inl OutOfBounds)"
  define I where "I = (\<lambda>k (p :: ColumnDataAppendState \<times> DataChunk).
           length (state_vector_data (fst p)) = n \<and> length (chunk_vectors (snd p)) = n \<and>
           chunk_size (snd p) = chunk_size input \<and>
           (\<forall>j<k. chunk_vectors (snd p) ! j = ?N j \<and>
                  state_vector_data (fst p) ! j = Orrify (chunk_vectors (snd p) ! j)) \<and>
           (\<forall>j. k \<le> j \<and> j < n \<longrightarrow> chunk_vectors (snd p) ! j = chunk_vectors input ! j))"
  have "\<exists>s'. for_loop 0 n ?body (state, input) = Inr s' \<and> I n s'"
  proof (rule for_loop_rule)
    show "I 0 (state, input)" using assms by (simp add: I_def)
    show "0 \<le> n" by simp
    fix k and t :: "ColumnDataAppendState \<times> DataChunk"
    assume k: "k < n" and t: "I k t"
    obtain st inp where p: "t = (st, inp)" by (cases t)
    have ck: "chunk_vectors inp ! k = chunk_vectors input ! k" using t k by (simp add: I_def p)
    let ?t = "(st\<lparr>state_vector_data := (state_vector_data st)[k := Orrify (?N k)]\<rparr>,
               inp\<lparr>chunk_vectors := (chunk_vectors inp)[k := ?N k]\<rparr>)"
    have "?body k t = Inr ?t" using k t ck by (simp add: I_def p Let_def)
    moreover have "I (Suc k) ?t" using k t by (auto simp: I_def p nth_list_update less_Suc_eq)
    ultimately show "\<exists>t'. ?body k t = Inr t' \<and> I (Suc k) t'" by blast
  qed
  then obtain s' where r: "for_loop 0 n ?body (state, input) = Inr s'" and i: "I n s'" by blast
  obtain st inp where p: "s' = (st, inp)" by (cases s')
  have "Append_orrify n state input = Inr (st, inp)" using r p by (simp add: Append_orrify_def)
  then show ?thesis using i unfolding I_def p by auto
qed

lemma column_rows_Nil [simp]: "column_rows k [] = []"
  by (simp add: column_rows_def)

lemma Append_chunk_ok:
  assumes svs: "0 < svs" and ok: "collection_ok svs tys c chunks" and b: "batch_ok tys b"
  shows "\<exists>c' chunks'. Append_chunk dbg svs c b = Some (Inr c') \<and>
      collection_ok svs tys c' chunks' \<and> chunks' \<noteq> [] \<and>
      (\<forall>k<length tys. column_rows k chunks' =
          column_rows k chunks @ vector_rows (tys ! k) (chunk_vectors b ! k) 0 (chunk_size b)) \<and>
      count c' = count c + chunk_size b"
proof -
  let ?L = "length tys"
  note bd = batch_okD[OF b]
  have ty: "types c = tys" and nf: "\<not> finished_append c"
    and fns: "length (copy_functions c) = ?L" "\<forall>k<?L. copy_ok svs (tys ! k) (copy_functions c ! k)"
    using ok by (simp_all add: collection_ok_def)
  let ?st1 = "\<lparr>state_vector_data = replicate ?L default_VectorData\<rparr>"
  \<comment> \<open>InitializeAppend\<close>
  have "\<exists>seg1 chunks1. InitializeAppend dbg svs c \<lparr>state_vector_data = []\<rparr> =
          Inr (c\<lparr>segments := [Some seg1]\<rparr>, ?st1) \<and>
        chunks_ok svs tys seg1 chunks1 \<and> chunks1 \<noteq> [] \<and>
        sum_list (map chunk_count (chunk_data seg1)) = seg_count seg1 \<and> seg_count seg1 = count c \<and>
        (\<forall>k<?L. column_rows k chunks1 = column_rows k chunks)"
  proof (cases "chunks = []")
    case True
    then have e: "segments c = []" "count c = 0" using ok by (simp_all add: collection_ok_def)
    let ?seg = "AllocateNewChunk svs (new_segment tys)"
    let ?chunks = "[replicate ?L ([] :: Value list)]"
    have t0: "seg_types (new_segment tys) = tys" by (simp add: new_segment_def)
    from slots_new_chunk[OF slots_new_segment t0] obtain idxs where
      sl: "slots svs tys ?seg ?chunks"
      and cd: "chunk_data ?seg = [\<lparr>chunk_vector_data = idxs, chunk_count = 0\<rparr>]"
      and o: "seg_types ?seg = tys" "seg_count ?seg = 0"
      by (auto simp: new_segment_def)
    have i: "InitializeAppend dbg svs c \<lparr>state_vector_data = []\<rparr> = Inr (c\<lparr>segments := [Some ?seg]\<rparr>, ?st1)"
      using nf e ty
      by (simp add: InitializeAppend_def D_ASSERT_def CreateSegment_def segments_back_def
          set_segments_back_def resize_def new_segment_def)
    have cok: "chunks_ok svs tys ?seg ?chunks"
      unfolding chunks_ok_def using sl o cd by simp
    show ?thesis
      apply (rule exI[of _ ?seg], rule exI[of _ ?chunks])
      using i cok cd o e True by simp
  next
    case False
    then obtain seg where s: "segments c = [Some seg]" and cok: "chunks_ok svs tys seg chunks"
      and sm: "sum_list (map chunk_count (chunk_data seg)) = seg_count seg" "seg_count seg = count c"
      using ok by (auto simp: collection_ok_def)
    have "length (chunk_data seg) = length chunks"
      using cok slots_lens[of svs tys seg chunks "length chunks - 1"] False
      by (simp add: chunks_ok_def)
    then have cne: "chunk_data seg \<noteq> []" using False by auto
    have i: "InitializeAppend dbg svs c \<lparr>state_vector_data = []\<rparr> = Inr (c\<lparr>segments := [Some seg]\<rparr>, ?st1)"
      using nf s ty cne
      by (simp add: InitializeAppend_def D_ASSERT_def segments_back_def set_segments_back_def resize_def)
    show ?thesis
      apply (rule exI[of _ seg], rule exI[of _ chunks])
      using i cok False sm by simp
  qed
  then obtain seg1 chunks1 where
    i: "InitializeAppend dbg svs c \<lparr>state_vector_data = []\<rparr> = Inr (c\<lparr>segments := [Some seg1]\<rparr>, ?st1)"
    and cok1: "chunks_ok svs tys seg1 chunks1" and ne1: "chunks1 \<noteq> []"
    and sm1: "sum_list (map chunk_count (chunk_data seg1)) = seg_count seg1" "seg_count seg1 = count c"
    and cr1: "\<forall>k<?L. column_rows k chunks1 = column_rows k chunks"
    by (elim exE conjE) (rule that)
  let ?c1 = "c\<lparr>segments := [Some seg1]\<rparr>"
  \<comment> \<open>Append\<close>
  let ?N = "\<lambda>k. if IsComplexType (GetType (chunk_vectors b ! k))
                 then Normalify (chunk_vectors b ! k) (chunk_size b)
                 else chunk_vectors b ! k"
  have "\<exists>st b1. Append_orrify ?L ?st1 b = Inr (st, b1) \<and> length (state_vector_data st) = ?L \<and>
           length (chunk_vectors b1) = ?L \<and> chunk_size b1 = chunk_size b \<and>
           (\<forall>k<?L. chunk_vectors b1 ! k = ?N k \<and>
                  state_vector_data st ! k = Orrify (chunk_vectors b1 ! k))"
    by (rule Append_orrify_ok) (use bd(2) in simp_all)
  then obtain st b1 where
    orr: "Append_orrify ?L ?st1 b = Inr (st, b1)" and stl: "length (state_vector_data st) = ?L"
    and b1l: "length (chunk_vectors b1) = ?L" and b1s: "chunk_size b1 = chunk_size b"
    and b1v: "\<forall>k<?L. chunk_vectors b1 ! k = ?N k \<and>
                  state_vector_data st ! k = Orrify (chunk_vectors b1 ! k)"
    by (elim exE conjE) (rule that)
  have stv: "\<forall>k<?L. state_vector_data st ! k = Orrify (chunk_vectors b1 ! k)" using b1v by blast
  have flat: "\<forall>k<?L. vector_ok (tys ! k) (chunk_vectors b1 ! k) 0 (chunk_size b1) \<and>
      vector_rows (tys ! k) (chunk_vectors b1 ! k) 0 (chunk_size b1) =
      vector_rows (tys ! k) (chunk_vectors b ! k) 0 (chunk_size b)"
  proof (intro allI impI)
    fix k assume k: "k < ?L"
    have io: "input_ok (tys ! k) (chunk_vectors b ! k) [0..<chunk_size b]" using bd(3) k by blast
    have gt: "GetType (chunk_vectors b ! k) = tys ! k" using io by (rule input_ok_type)
    show "vector_ok (tys ! k) (chunk_vectors b1 ! k) 0 (chunk_size b1) \<and>
      vector_rows (tys ! k) (chunk_vectors b1 ! k) 0 (chunk_size b1) =
      vector_rows (tys ! k) (chunk_vectors b ! k) 0 (chunk_size b)"
    proof (cases "IsComplexType (tys ! k)")
      case True
      then have "chunk_vectors b1 ! k = Normalify (chunk_vectors b ! k) (chunk_size b)"
        using b1v k gt by simp
      then show ?thesis using Normalify_ok[OF io] b1s by simp
    next
      case False
      then have e: "chunk_vectors b1 ! k = chunk_vectors b ! k" using b1v k gt by simp
      have "input_ok (tys ! k) (chunk_vectors b ! k) [0..<0 + chunk_size b]" using io by simp
      from simple_ok[OF False this] show ?thesis using e b1s by simp
    qed
  qed
  have vok1: "\<forall>k<?L. vector_ok (tys ! k) (chunk_vectors b1 ! k) 0 (chunk_size b1)"
    using flat by blast
  from Append_loop_ok[OF svs fns b1l vok1 stl stv cok1 ne1 order_refl]
  obtain seg' chunks' where
    lp: "Append_loop svs (copy_functions c) ?L st b1 (seg1, chunk_size b1) = Some (Inr seg')"
    and cok': "chunks_ok svs tys seg' chunks'" and ne': "chunks' \<noteq> []"
    and cr': "\<forall>k<?L. column_rows k chunks' =
            column_rows k chunks1 @ vector_rows (tys ! k) (chunk_vectors b1 ! k) (chunk_size b1 - chunk_size b1) (chunk_size b1)"
    and sm': "sum_list (map chunk_count (chunk_data seg')) =
              sum_list (map chunk_count (chunk_data seg1)) + chunk_size b1"
    and sc': "seg_count seg' = seg_count seg1"
    by (elim exE conjE) (rule that)
  let ?seg2 = "seg'\<lparr>seg_count := seg_count seg' + chunk_size b\<rparr>"
  let ?c2 = "c\<lparr>segments := [Some ?seg2], count := count c + chunk_size b\<rparr>"
  have a: "Append dbg svs ?c1 ?st1 b = Some (Inr (?c2, st, b1))"
    using nf ty bd(1) orr lp b1s
    by (simp add: Append_def D_ASSERT_def segments_back_def set_segments_back_def)
  have r: "Append_chunk dbg svs c b = Some (Inr ?c2)"
    using i a by (simp add: Append_chunk_def)
  have cok2: "chunks_ok svs tys ?seg2 chunks'" using cok' by (rule chunks_ok_seg_count)
  have "collection_ok svs tys ?c2 chunks'"
    unfolding collection_ok_def using ty nf fns ne' cok2 sm' sm1 sc' b1s by simp
  moreover have "\<forall>k<?L. column_rows k chunks' =
          column_rows k chunks @ vector_rows (tys ! k) (chunk_vectors b ! k) 0 (chunk_size b)"
    using cr' cr1 flat by simp
  ultimately show ?thesis using r ne' by auto
qed

lemma Append_all_ok:
  assumes svs: "0 < svs"
  shows "collection_ok svs tys c chunks \<Longrightarrow> \<forall>b\<in>set bs. batch_ok tys b \<Longrightarrow>
     \<exists>c' chunks'. Append_all dbg svs c bs = Some (Inr c') \<and>
      collection_ok svs tys c' chunks' \<and>
      (\<forall>k<length tys. column_rows k chunks' = column_rows k chunks @ input_rows tys k bs) \<and>
      count c' = count c + sum_list (map chunk_size bs)"
proof (induction bs arbitrary: c chunks)
  case Nil
  then show ?case by (auto simp: input_rows_def)
next
  case (Cons b bs)
  have b: "batch_ok tys b" and bs: "\<forall>b\<in>set bs. batch_ok tys b" using Cons.prems(2) by simp_all
  from Append_chunk_ok[OF svs Cons.prems(1) b, of dbg] obtain c1 chunks1 where
    a: "Append_chunk dbg svs c b = Some (Inr c1)" and ok1: "collection_ok svs tys c1 chunks1"
    and cr1: "\<forall>k<length tys. column_rows k chunks1 =
          column_rows k chunks @ vector_rows (tys ! k) (chunk_vectors b ! k) 0 (chunk_size b)"
    and n1: "count c1 = count c + chunk_size b"
    by blast
  from Cons.IH[OF ok1 bs] obtain c' chunks' where
    r: "Append_all dbg svs c1 bs = Some (Inr c')" and ok': "collection_ok svs tys c' chunks'"
    and cr': "\<forall>k<length tys. column_rows k chunks' = column_rows k chunks1 @ input_rows tys k bs"
    and n': "count c' = count c1 + sum_list (map chunk_size bs)"
    by blast
  have "Append_all dbg svs c (b # bs) = Some (Inr c')" using a r by simp
  moreover have "\<forall>k<length tys. column_rows k chunks' = column_rows k chunks @ input_rows tys k (b # bs)"
    using cr' cr1 by (simp add: input_rows_def)
  moreover have "count c' = count c + sum_list (map chunk_size (b # bs))" using n' n1 by simp
  ultimately show ?case using ok' by blast
qed

lemma collection_ok_new:
  assumes svs: "0 < svs" and new: "ColumnDataCollection_new a tys = Inr c"
  shows "collection_ok svs tys c []"
proof -
  from new obtain fs where fs: "collect (map GetCopyFunction tys) = Inr fs"
    and c: "c = \<lparr>types = tys, count = 0, segments = [], finished_append = False,
               copy_functions = fs, allocator = a\<rparr>"
    by (auto simp: ColumnDataCollection_new_def split: sum.splits)
  from collect_Inr_D[OF fs] have l: "length fs = length tys"
    and e: "\<forall>i<length tys. GetCopyFunction (tys ! i) = Inr (fs ! i)" by auto
  have "\<forall>k<length tys. copy_ok svs (tys ! k) (fs ! k)"
    using e copy_correct[OF svs] by blast
  then show ?thesis using l by (simp add: collection_ok_def c)
qed

subsection \<open>Scan\<close>

lemma ReadChunk_ok:
  fixes seg :: ColumnDataCollectionSegment
  assumes ok: "chunks_ok svs tys seg chunks" and i: "i < length chunks"
  shows "ReadChunk seg i =
     Some (Inr \<lparr>columns = chunks ! i, cardinality = chunk_count (chunk_data seg ! i)\<rparr>)"
proof -
  have sl: "slots svs tys seg chunks" and ty: "seg_types seg = tys"
    using ok by (simp_all add: chunks_ok_def)
  note l = slots_lens[OF sl i]
  let ?idxs = "chunk_vector_data (chunk_data seg ! i)"
  let ?xs = "map (\<lambda>(t, index). ReadVector t seg index) (zip tys ?idxs)"
  have "collect_r ?xs = Some (Inr (chunks ! i))"
  proof (rule collect_r_Some_Inr)
    show "length (chunks ! i) = length ?xs" using l by simp
    show "\<forall>k<length ?xs. ?xs ! k = Some (Inr (chunks ! i ! k))"
    proof (intro allI impI)
      fix k assume "k < length ?xs"
      then have k: "k < length tys" using l by simp
      from slots_stored[OF sl i k] obtain F where
        "stored svs (tys ! k) seg (?idxs ! k) F (chunks ! i ! k)" by blast
      then have "ReadVector (tys ! k) seg (?idxs ! k) = Some (Inr (chunks ! i ! k))"
        by (rule ReadVector_stored)
      then show "?xs ! k = Some (Inr (chunks ! i ! k))" using k l by simp
    qed
  qed
  then show ?thesis using i l ty by (simp add: ReadChunk_def Let_def)
qed

lemma Scan_chunk:
  assumes s: "segments c = [Some seg]" and ok: "chunks_ok svs tys seg chunks"
    and st: "segment_index state = 0" "chunk_index state < length chunks"
  shows "\<exists>state1. Scan c state =
      Some (Inr (state1, Some \<lparr>columns = chunks ! chunk_index state,
             cardinality = chunk_count (chunk_data seg ! chunk_index state)\<rparr>)) \<and>
      segment_index state1 = 0 \<and> chunk_index state1 = Suc (chunk_index state)"
proof -
  let ?i = "chunk_index state"
  have sl: "slots svs tys seg chunks" using ok by (simp add: chunks_ok_def)
  have l: "length (chunk_data seg) = length chunks" using slots_lens[OF sl st(2)] by simp
  let ?s0 = "state\<lparr>current_row_index := next_row_index state\<rparr>"
  have w: "NextScanIndex_while c ?s0 = Inr (True, ?s0)"
    using s st l by (subst NextScanIndex_while.simps) simp
  let ?s1 = "?s0\<lparr>next_row_index := next_row_index ?s0 + chunk_count (chunk_data seg ! ?i),
                  chunk_index := ?i + 1\<rparr>"
  have n: "NextScanIndex c state = Inr (True, ?s1, ?i, 0, next_row_index state)"
    using s st w by (simp add: NextScanIndex_def Let_def)
  have "Scan c state = Some (Inr (?s1, Some \<lparr>columns = chunks ! ?i,
             cardinality = chunk_count (chunk_data seg ! ?i)\<rparr>))"
    using n s ReadChunk_ok[OF ok st(2)] by (simp add: Scan_def)
  then show ?thesis using st by simp
qed

lemma Scan_end:
  assumes s: "segments c = [Some seg]" and ok: "chunks_ok svs tys seg chunks"
    and st: "segment_index state = 0" "chunk_index state = length chunks" and ne: "chunks \<noteq> []"
  shows "\<exists>state1. Scan c state = Some (Inr (state1, None))"
proof -
  have sl: "slots svs tys seg chunks" using ok by (simp add: chunks_ok_def)
  have l: "length (chunk_data seg) = length chunks"
    using slots_lens[OF sl, of "length chunks - 1"] ne by simp
  let ?s0 = "state\<lparr>current_row_index := next_row_index state\<rparr>"
  have w: "NextScanIndex_while c ?s0 = Inr (False, ?s0\<lparr>chunk_index := 0, segment_index := 1\<rparr>)"
    using s st l by (subst NextScanIndex_while.simps) (simp add: Let_def)
  have "NextScanIndex c state =
      Inr (False, ?s0\<lparr>chunk_index := 0, segment_index := 1\<rparr>, 0, 0, next_row_index state)"
    using s st w by (simp add: NextScanIndex_def Let_def)
  then show ?thesis by (simp add: Scan_def)
qed

lemma Scan_loop_ok:
  assumes s: "segments c = [Some seg]" and ok: "chunks_ok svs tys seg chunks" and ne: "chunks \<noteq> []"
  shows "segment_index state = 0 \<Longrightarrow> chunk_index state \<le> length chunks \<Longrightarrow>
     Scan_loop c (state, acc) =
       Some (Inr (acc @ map (\<lambda>j. \<lparr>columns = chunks ! j,
                                   cardinality = chunk_count (chunk_data seg ! j)\<rparr>)
                            [chunk_index state..<length chunks]))"
proof (induction "length chunks - chunk_index state" arbitrary: state acc)
  case 0
  then have e: "chunk_index state = length chunks" by simp
  from Scan_end[OF s ok "0.prems"(1) e ne] obtain state1 where
    "Scan c state = Some (Inr (state1, None))" by blast
  then show ?case using e by (subst Scan_loop.simps) simp
next
  case (Suc n)
  then have lt: "chunk_index state < length chunks" by simp
  from Scan_chunk[OF s ok Suc.prems(1) lt] obtain state1 where
    sc: "Scan c state = Some (Inr (state1, Some \<lparr>columns = chunks ! chunk_index state,
             cardinality = chunk_count (chunk_data seg ! chunk_index state)\<rparr>))"
    and s1: "segment_index state1 = 0" "chunk_index state1 = Suc (chunk_index state)"
    by blast
  have m: "n = length chunks - chunk_index state1" using Suc.hyps(2) s1 by simp
  have le: "chunk_index state1 \<le> length chunks" using s1 lt by simp
  have "Scan_loop c (state, acc) =
        Scan_loop c (state1, acc @ [\<lparr>columns = chunks ! chunk_index state,
             cardinality = chunk_count (chunk_data seg ! chunk_index state)\<rparr>])"
    using sc by (subst Scan_loop.simps) simp
  also have "\<dots> = Some (Inr ((acc @ [\<lparr>columns = chunks ! chunk_index state,
             cardinality = chunk_count (chunk_data seg ! chunk_index state)\<rparr>]) @
          map (\<lambda>j. \<lparr>columns = chunks ! j, cardinality = chunk_count (chunk_data seg ! j)\<rparr>)
              [chunk_index state1..<length chunks]))"
    by (rule Suc.hyps(1)[OF m s1(1) le])
  finally show ?case using lt s1 by (simp add: upt_conv_Cons)
qed

lemma Scan_all_ok:
  assumes ok: "collection_ok svs tys c chunks"
  shows "\<exists>seg_counts. length seg_counts = length chunks \<and>
     Scan_all c = Some (Inr (map (\<lambda>j. \<lparr>columns = chunks ! j, cardinality = seg_counts ! j\<rparr>)
                                 [0..<length chunks])) \<and>
     sum_list seg_counts = count c \<and>
     (\<forall>j<length chunks. \<forall>k<length tys. length (chunks ! j ! k) = seg_counts ! j) \<and>
     (\<forall>j<length chunks. length (chunks ! j) = length tys)"
proof (cases "chunks = []")
  case True
  then have e: "segments c = []" "count c = 0" using ok by (simp_all add: collection_ok_def)
  have "NextScanIndex c InitializeScan =
      Inr (False, InitializeScan\<lparr>current_row_index := 0\<rparr>, 0, 0, 0)"
    using e by (simp add: NextScanIndex_def InitializeScan_def Let_def)
  then have "Scan c InitializeScan = Some (Inr (InitializeScan\<lparr>current_row_index := 0\<rparr>, None))"
    by (simp add: Scan_def)
  then have "Scan_all c = Some (Inr [])"
    unfolding Scan_all_def by (subst Scan_loop.simps) simp
  then show ?thesis using True e by simp
next
  case False
  then obtain seg where s: "segments c = [Some seg]" and cok: "chunks_ok svs tys seg chunks"
    and sm: "sum_list (map chunk_count (chunk_data seg)) = seg_count seg" "seg_count seg = count c"
    using ok by (auto simp: collection_ok_def)
  have sl: "slots svs tys seg chunks" using cok by (simp add: chunks_ok_def)
  have l: "length (chunk_data seg) = length chunks"
    using slots_lens[OF sl, of "length chunks - 1"] False by simp
  let ?cnt = "map chunk_count (chunk_data seg)"
  have "Scan_all c = Some (Inr ([] @ map (\<lambda>j. \<lparr>columns = chunks ! j,
                                   cardinality = chunk_count (chunk_data seg ! j)\<rparr>)
                            [chunk_index InitializeScan..<length chunks]))"
    unfolding Scan_all_def
    by (rule Scan_loop_ok[OF s cok False]) (simp_all add: InitializeScan_def)
  then have "Scan_all c = Some (Inr (map (\<lambda>j. \<lparr>columns = chunks ! j, cardinality = ?cnt ! j\<rparr>)
                                 [0..<length chunks]))"
    using l by (simp add: InitializeScan_def)
  moreover have "\<forall>j<length chunks. \<forall>k<length tys. length (chunks ! j ! k) = ?cnt ! j"
    using cok l by (simp add: chunks_ok_def)
  moreover have "\<forall>j<length chunks. length (chunks ! j) = length tys"
    using slots_lens[OF sl] by simp
  ultimately show ?thesis using sm l by (intro exI[of _ ?cnt]) simp
qed

subsection \<open>The chunk capacity\<close>

text \<open>
  Claim C6. Take a collection made by the constructor and append any sequence of
  well-formed batches of its schema, with a capacity \<open>STANDARD_VECTOR_SIZE > 0\<close>. Every
  append returns, and afterwards every chunk holds at most \<open>STANDARD_VECTOR_SIZE\<close> rows,
  every chunk but the last of a segment is full (an append takes
  \<open>min(remaining, capacity - count)\<close> rows and allocates a new chunk while rows
  remain), the chunk counts of each segment add up to the count of the segment, and the
  counts of the segments add up to the count of the collection, which is what \<open>Verify\<close>
  asserts.
\<close>

theorem chunk_capacity:
  assumes "0 < svs" and "ColumnDataCollection_new a tys = Inr c0"
    and "\<forall>b\<in>set bs. batch_ok tys b"
  shows "\<exists>c. Append_all dbg svs c0 bs = Some (Inr c) \<and>
     (\<forall>s\<in>set (segments c). \<exists>seg. s = Some seg \<and>
         (\<forall>ch\<in>set (chunk_data seg). chunk_count ch \<le> svs) \<and>
         (\<forall>i. Suc i < length (chunk_data seg) \<longrightarrow> chunk_count (chunk_data seg ! i) = svs) \<and>
         sum_list (map chunk_count (chunk_data seg)) = seg_count seg) \<and>
     sum_list (map (\<lambda>s. case s of None \<Rightarrow> 0 | Some seg \<Rightarrow> seg_count seg) (segments c)) = count c \<and>
     Verify True c = Inr ()"
proof -
  have ok0: "collection_ok svs tys c0 []" using assms(1,2) by (rule collection_ok_new)
  from Append_all_ok[OF assms(1) ok0 assms(3), of dbg] obtain c chunks where
    r: "Append_all dbg svs c0 bs = Some (Inr c)" and ok: "collection_ok svs tys c chunks"
    by blast
  have "(\<forall>s\<in>set (segments c). \<exists>seg. s = Some seg \<and>
         (\<forall>ch\<in>set (chunk_data seg). chunk_count ch \<le> svs) \<and>
         (\<forall>i. Suc i < length (chunk_data seg) \<longrightarrow> chunk_count (chunk_data seg ! i) = svs) \<and>
         sum_list (map chunk_count (chunk_data seg)) = seg_count seg) \<and>
     sum_list (map (\<lambda>s. case s of None \<Rightarrow> 0 | Some seg \<Rightarrow> seg_count seg) (segments c)) = count c \<and>
     Verify True c = Inr ()"
  proof (cases "chunks = []")
    case True
    then have "segments c = []" "count c = 0" using ok by (simp_all add: collection_ok_def)
    then show ?thesis by (simp add: Verify_def D_ASSERT_def)
  next
    case False
    then obtain seg where s: "segments c = [Some seg]" and cok: "chunks_ok svs tys seg chunks"
      and sm: "sum_list (map chunk_count (chunk_data seg)) = seg_count seg" "seg_count seg = count c"
      using ok by (auto simp: collection_ok_def)
    have sl: "slots svs tys seg chunks" using cok by (simp add: chunks_ok_def)
    have l: "length (chunk_data seg) = length chunks"
      using slots_lens[OF sl, of "length chunks - 1"] False by simp
    have cap: "\<forall>ch\<in>set (chunk_data seg). chunk_count ch \<le> svs"
      using cok l by (auto simp: chunks_ok_def in_set_conv_nth)
    have full: "\<forall>i. Suc i < length (chunk_data seg) \<longrightarrow> chunk_count (chunk_data seg ! i) = svs"
      using cok l by (simp add: chunks_ok_def)
    have v: "Verify True c = Inr ()"
      using s sm by (simp add: Verify_def Segment_Verify_def D_ASSERT_def)
    show ?thesis using s cap full sm v by simp
  qed
  then show ?thesis using r by blast
qed

theorem chunk_capacity_witness:
  "(0::nat) < 2 \<and>
   ColumnDataCollection_new 0 [Scalar INT32] = Inr (int_collection False 0 []) \<and>
   batch_ok [Scalar INT32] (int_batch [1, 2, 3]) \<and> batch_ok [Scalar INT32] (int_batch [4, 5]) \<and>
   (\<exists>c. Append_all True 2 (int_collection False 0 []) [int_batch [1, 2, 3], int_batch [4, 5]] =
            Some (Inr c) \<and>
        map (\<lambda>s. case s of None \<Rightarrow> [] | Some seg \<Rightarrow> map chunk_count (chunk_data seg)) (segments c) =
          [[2, 2, 1]] \<and>
        (\<forall>s\<in>set (segments c). \<exists>seg. s = Some seg \<and>
           (\<forall>ch\<in>set (chunk_data seg). chunk_count ch \<le> 2) \<and>
           (\<forall>i. Suc i < length (chunk_data seg) \<longrightarrow> chunk_count (chunk_data seg ! i) = 2) \<and>
           sum_list (map chunk_count (chunk_data seg)) = seg_count seg) \<and>
        sum_list (map (\<lambda>s. case s of None \<Rightarrow> 0 | Some seg \<Rightarrow> seg_count seg) (segments c)) = count c \<and>
        Verify True c = Inr ())"
proof -
  let ?bs = "[int_batch [1, 2, 3], int_batch [4, 5]]"
  have h1: "(0::nat) < 2" by simp
  have h2: "ColumnDataCollection_new 0 [Scalar INT32] = Inr (int_collection False 0 [])"
    by (simp add: ColumnDataCollection_new_def int_collection_def)
  have b1: "batch_ok [Scalar INT32] (int_batch [1, 2, 3])"
    and b2: "batch_ok [Scalar INT32] (int_batch [4, 5])"
    by code_simp+
  have h3: "\<forall>b\<in>set ?bs. batch_ok [Scalar INT32] b" using b1 b2 by simp
  have ev: "(case Append_all True 2 (int_collection False 0 []) ?bs of
               Some (Inr c) \<Rightarrow>
                 map (\<lambda>s. case s of None \<Rightarrow> [] | Some seg \<Rightarrow> map chunk_count (chunk_data seg)) (segments c)
             | _ \<Rightarrow> []) = [[2, 2, 1]]"
    by code_simp
  from chunk_capacity[OF h1 h2 h3, of True] obtain c where
    a: "Append_all True 2 (int_collection False 0 []) ?bs = Some (Inr c)"
    and b: "(\<forall>s\<in>set (segments c). \<exists>seg. s = Some seg \<and>
           (\<forall>ch\<in>set (chunk_data seg). chunk_count ch \<le> 2) \<and>
           (\<forall>i. Suc i < length (chunk_data seg) \<longrightarrow> chunk_count (chunk_data seg ! i) = 2) \<and>
           sum_list (map chunk_count (chunk_data seg)) = seg_count seg)"
      "sum_list (map (\<lambda>s. case s of None \<Rightarrow> 0 | Some seg \<Rightarrow> seg_count seg) (segments c)) = count c"
      "Verify True c = Inr ()"
    by (elim exE conjE) (rule that)
  have e: "map (\<lambda>s. case s of None \<Rightarrow> [] | Some seg \<Rightarrow> map chunk_count (chunk_data seg)) (segments c) =
          [[2, 2, 1]]"
    using ev unfolding a by (simp only: option.case sum.case)
  have "\<exists>c. Append_all True 2 (int_collection False 0 []) ?bs = Some (Inr c) \<and>
        map (\<lambda>s. case s of None \<Rightarrow> [] | Some seg \<Rightarrow> map chunk_count (chunk_data seg)) (segments c) =
          [[2, 2, 1]] \<and>
        (\<forall>s\<in>set (segments c). \<exists>seg. s = Some seg \<and>
           (\<forall>ch\<in>set (chunk_data seg). chunk_count ch \<le> 2) \<and>
           (\<forall>i. Suc i < length (chunk_data seg) \<longrightarrow> chunk_count (chunk_data seg ! i) = 2) \<and>
           sum_list (map chunk_count (chunk_data seg)) = seg_count seg) \<and>
        sum_list (map (\<lambda>s. case s of None \<Rightarrow> 0 | Some seg \<Rightarrow> seg_count seg) (segments c)) = count c \<and>
        Verify True c = Inr ()"
    by (rule exI[of _ c]) (intro conjI a e b)
  then show ?thesis by (intro conjI h1 h2 b1 b2)
qed

subsection \<open>The round trip\<close>

text \<open>
  Claim C1. Take a collection made by the constructor and append any sequence of
  well-formed batches of its schema, whose vectors may be flat, constant or
  dictionary-encoded. Every append returns, the sequential scan returns, and it yields as
  many rows as the batches have, in chunks whose columns have the cardinality of the
  chunk; column by column, the rows of the chunks in order are the rows of the batches in
  order, with the same values and the same nulls. A string is read back from the slot or
  from the heap of the segment, with the bytes that the input had. The right-hand side
  is the concatenation of the inputs, so the result does not depend on how the rows
  were split across the batches.
\<close>

theorem append_scan_round_trip:
  assumes "0 < svs" and "ColumnDataCollection_new a tys = Inr c0"
    and "\<forall>b\<in>set bs. batch_ok tys b"
  shows "\<exists>c chunks. Append_all dbg svs c0 bs = Some (Inr c) \<and>
     Scan_all c = Some (Inr chunks) \<and>
     Count c = sum_list (map chunk_size bs) \<and>
     sum_list (map cardinality chunks) = sum_list (map chunk_size bs) \<and>
     (\<forall>ch\<in>set chunks. length (columns ch) = length tys \<and>
                       (\<forall>col\<in>set (columns ch). length col = cardinality ch)) \<and>
     (\<forall>k<length tys. concat (map (\<lambda>ch. columns ch ! k) chunks) = input_rows tys k bs)"
proof -
  have ok0: "collection_ok svs tys c0 []" using assms(1,2) by (rule collection_ok_new)
  have c0: "count c0 = 0" using ok0 by (simp add: collection_ok_def)
  from Append_all_ok[OF assms(1) ok0 assms(3), of dbg] obtain c chunks where
    r: "Append_all dbg svs c0 bs = Some (Inr c)" and ok: "collection_ok svs tys c chunks"
    and cr: "\<forall>k<length tys. column_rows k chunks = column_rows k [] @ input_rows tys k bs"
    and n: "count c = count c0 + sum_list (map chunk_size bs)"
    by blast
  from Scan_all_ok[OF ok] obtain cnts where
    lc: "length cnts = length chunks"
    and sc: "Scan_all c = Some (Inr (map (\<lambda>j. \<lparr>columns = chunks ! j, cardinality = cnts ! j\<rparr>)
                                 [0..<length chunks]))"
    and sm: "sum_list cnts = count c"
    and ln: "\<forall>j<length chunks. \<forall>k<length tys. length (chunks ! j ! k) = cnts ! j"
    and ll: "\<forall>j<length chunks. length (chunks ! j) = length tys"
    by blast
  let ?out = "map (\<lambda>j. \<lparr>columns = chunks ! j, cardinality = cnts ! j\<rparr>) [0..<length chunks]"
  have "map cardinality ?out = map (\<lambda>j. cnts ! j) [0..<length cnts]" using lc by simp
  then have "map cardinality ?out = cnts" by (simp only: map_nth)
  then have card: "sum_list (map cardinality ?out) = sum_list (map chunk_size bs)"
    using sm n c0 by simp
  have shape: "\<forall>ch\<in>set ?out. length (columns ch) = length tys \<and>
                       (\<forall>col\<in>set (columns ch). length col = cardinality ch)"
  proof
    fix ch assume "ch \<in> set ?out"
    then obtain j where j: "j < length chunks" and ch: "ch = \<lparr>columns = chunks ! j, cardinality = cnts ! j\<rparr>"
      by auto
    have a: "length (columns ch) = length tys" using ll j ch by simp
    have "\<forall>col\<in>set (columns ch). length col = cardinality ch"
    proof
      fix col assume "col \<in> set (columns ch)"
      then obtain k where "k < length (chunks ! j)" "col = chunks ! j ! k"
        using ch by (auto simp: in_set_conv_nth)
      then show "length col = cardinality ch" using ln ll j ch by simp
    qed
    then show "length (columns ch) = length tys \<and> (\<forall>col\<in>set (columns ch). length col = cardinality ch)"
      using a by simp
  qed
  have rows: "\<forall>k<length tys. concat (map (\<lambda>ch. columns ch ! k) ?out) = input_rows tys k bs"
  proof (intro allI impI)
    fix k assume k: "k < length tys"
    have "map (\<lambda>ch. columns ch ! k) ?out = map (\<lambda>c. c ! k) (map (\<lambda>j. chunks ! j) [0..<length chunks])"
      by simp
    then have "map (\<lambda>ch. columns ch ! k) ?out = map (\<lambda>c. c ! k) chunks" by (simp only: map_nth)
    then have "concat (map (\<lambda>ch. columns ch ! k) ?out) = column_rows k chunks"
      by (simp add: column_rows_def)
    then show "concat (map (\<lambda>ch. columns ch ! k) ?out) = input_rows tys k bs" using cr k by simp
  qed
  have cnt: "Count c = sum_list (map chunk_size bs)" using n c0 by (simp add: Count_def)
  show ?thesis using r sc cnt card shape rows by blast
qed

text \<open>
  Two batches of structs with a string field, with a capacity of 2: the first is a
  dictionary vector that reverses its two entries, one of them a string that is not
  inlined; the second has a null and is split across two chunks.
\<close>

theorem append_scan_round_trip_witness:
  "(0::nat) < 2 \<and>
   ColumnDataCollection_new 0 [STRUCT [Scalar VARCHAR]] = Inr (name_collection 0 []) \<and>
   batch_ok [STRUCT [Scalar VARCHAR]]
     (name_batch (\<lambda>i. 1 - i) (\<lambda>i. True) [External ''a string of the input'', Inlined ''b''] 2) \<and>
   batch_ok [STRUCT [Scalar VARCHAR]]
     (name_batch (\<lambda>i. i) (\<lambda>i. i \<noteq> 1) [External ''c'', Inlined ''d'', External ''e''] 3) \<and>
   (\<exists>c chunks.
      Append_all True 2 (name_collection 0 [])
        [name_batch (\<lambda>i. 1 - i) (\<lambda>i. True) [External ''a string of the input'', Inlined ''b''] 2,
         name_batch (\<lambda>i. i) (\<lambda>i. i \<noteq> 1) [External ''c'', Inlined ''d'', External ''e''] 3] =
        Some (Inr c) \<and>
      map (\<lambda>s. case s of None \<Rightarrow> [] | Some seg \<Rightarrow> heap seg) (segments c) =
        [[''a string of the input'', ''c'', ''e'']] \<and>
      Scan_all c = Some (Inr chunks) \<and>
      Count c = 5 \<and> sum_list (map cardinality chunks) = 5 \<and>
      concat (map (\<lambda>ch. columns ch ! 0) chunks) =
        [StructValue [StringValue ''b''], StructValue [StringValue ''a string of the input''],
         StructValue [StringValue ''c''], Null, StructValue [StringValue ''e'']])"
proof -
  let ?tys = "[STRUCT [Scalar VARCHAR]]"
  let ?b1 = "name_batch (\<lambda>i. 1 - i) (\<lambda>i. True) [External ''a string of the input'', Inlined ''b''] 2"
  let ?b2 = "name_batch (\<lambda>i. i) (\<lambda>i. i \<noteq> 1) [External ''c'', Inlined ''d'', External ''e''] 3"
  let ?bs = "[?b1, ?b2]"
  let ?rows = "[StructValue [StringValue ''b''], StructValue [StringValue ''a string of the input''],
         StructValue [StringValue ''c''], Null, StructValue [StringValue ''e'']]"
  have h1: "(0::nat) < 2" by simp
  have h2: "ColumnDataCollection_new 0 ?tys = Inr (name_collection 0 [])"
    by (simp add: ColumnDataCollection_new_def name_collection_def)
  have b1: "batch_ok ?tys ?b1" and b2: "batch_ok ?tys ?b2"
    by code_simp+
  have h3: "\<forall>b\<in>set ?bs. batch_ok ?tys b" using b1 b2 by simp
  have ir: "input_rows ?tys 0 ?bs = ?rows" by code_simp
  have ev: "(case Append_all True 2 (name_collection 0 []) ?bs of
               Some (Inr c) \<Rightarrow> map (\<lambda>s. case s of None \<Rightarrow> [] | Some seg \<Rightarrow> heap seg) (segments c)
             | _ \<Rightarrow> []) = [[''a string of the input'', ''c'', ''e'']]"
    by code_simp
  have sz: "sum_list (map chunk_size ?bs) = 5" by (simp add: name_batch_def)
  from append_scan_round_trip[OF h1 h2 h3, of True] obtain c chunks where
    a: "Append_all True 2 (name_collection 0 []) ?bs = Some (Inr c)"
    and s: "Scan_all c = Some (Inr chunks)"
    and n: "Count c = sum_list (map chunk_size ?bs)"
      "sum_list (map cardinality chunks) = sum_list (map chunk_size ?bs)"
    and r: "\<forall>k<length ?tys. concat (map (\<lambda>ch. columns ch ! k) chunks) = input_rows ?tys k ?bs"
    by (elim exE conjE) (rule that)
  have hp: "map (\<lambda>s. case s of None \<Rightarrow> [] | Some seg \<Rightarrow> heap seg) (segments c) =
        [[''a string of the input'', ''c'', ''e'']]"
    using ev unfolding a by (simp only: option.case sum.case)
  have n': "Count c = 5" "sum_list (map cardinality chunks) = 5"
    using n unfolding sz by simp_all
  have r': "concat (map (\<lambda>ch. columns ch ! 0) chunks) = ?rows"
    using r ir by simp
  have "\<exists>c chunks.
      Append_all True 2 (name_collection 0 []) ?bs = Some (Inr c) \<and>
      map (\<lambda>s. case s of None \<Rightarrow> [] | Some seg \<Rightarrow> heap seg) (segments c) =
        [[''a string of the input'', ''c'', ''e'']] \<and>
      Scan_all c = Some (Inr chunks) \<and>
      Count c = 5 \<and> sum_list (map cardinality chunks) = 5 \<and>
      concat (map (\<lambda>ch. columns ch ! 0) chunks) = ?rows"
    by (rule exI[of _ c], rule exI[of _ chunks]) (intro conjI a hp s n' r')
  then show ?thesis by (intro conjI h1 h2 b1 b2)
qed

subsection \<open>The offsets of list entries\<close>

lemma stored_child_storage:
  assumes "stored svs (LIST cty) seg idx F rows"
  shows "\<exists>elems. child_storage cty seg idx = Some (Inr elems)"
proof (cases "child_index (vector_data seg ! idx)")
  case None
  then show ?thesis using stored_basic(1)[OF assms]
    by (simp add: child_storage_def GetVectorData_def)
next
  case (Some ci)
  with assms obtain root Fc elems where
    "ci < length (child_indices seg)" "child_indices seg ! ci = Some root"
    "chain svs (vector_data seg) (stored svs cty seg) root Fc elems"
    by auto
  with child_storage_chain[OF stored_basic(1)[OF assms] Some] show ?thesis by blast
qed

lemma length_child_rows:
  "vector_ok (LIST cty) v off n \<Longrightarrow> length (child_rows cty v) = GetListSize v"
  by (auto simp: child_rows_def split: list.splits)

lemma length_calls_child_rows:
  "\<forall>c\<in>set calls. case c of (v, off, n) \<Rightarrow> vector_ok (LIST cty) v off n \<Longrightarrow>
   length (calls_child_rows cty calls) = call_values calls"
proof (induction calls)
  case Nil
  then show ?case by (simp add: calls_child_rows_def call_values_def)
next
  case (Cons c calls)
  obtain v off n where c: "c = (v, off, n)" by (cases c)
  have "length (child_rows cty v) = GetListSize v"
    using Cons.prems c length_child_rows[of cty v off n] by simp
  moreover have "length (calls_child_rows cty calls) = call_values calls"
    using Cons by simp
  ultimately show ?case by (simp add: c calls_child_rows_def call_values_def)
qed

lemma list_calls_detail:
  fixes seg :: ColumnDataCollectionSegment and meta :: ColumnDataMetaData
  assumes svs: "0 < svs" and ok: "copy_ok svs cty cfc" and mi: "vector_data_index meta = idx"
  shows "stored svs (LIST cty) seg idx F rows \<Longrightarrow> length rows + call_rows calls \<le> svs \<Longrightarrow>
     \<forall>c\<in>set calls. case c of (v, off, n) \<Rightarrow> 0 < n \<and> vector_ok (LIST cty) v off n \<Longrightarrow>
     \<exists>seg' F' elems.
       copy_calls svs (ColumnDataCopyFunction CopyList [cfc]) meta calls seg = Some (Inr seg') \<and>
       stored svs (LIST cty) seg' idx F' (rows @ calls_rows (LIST cty) calls) \<and>
       child_storage cty seg idx = Some (Inr elems) \<and>
       child_storage cty seg' idx = Some (Inr (elems @ calls_child_rows cty calls)) \<and>
       (\<forall>j<length rows. vdata (vector_data seg' ! idx) ! j = vdata (vector_data seg ! idx) ! j \<and>
                           vvalidity (vector_data seg' ! idx) ! j = vvalidity (vector_data seg ! idx) ! j) \<and>
       (\<forall>r<length calls. case calls ! r of (v, off, n) \<Rightarrow>
          \<forall>i<n. src_valid (Orrify v) (off + i) \<longrightarrow>
            (\<exists>o' l. data (Orrify v) (sel (Orrify v) (off + i)) = ListEntry o' l \<and>
                    o' + l \<le> GetListSize v \<and>
                    vdata (vector_data seg' ! idx) ! (length rows + call_rows (take r calls) + i) =
                      ListEntry (o' + (if 0 < GetListSize v
                                       then length elems + call_values (take r calls) else 0)) l))"
proof (induction calls arbitrary: seg F rows)
  case Nil
  from stored_child_storage[OF Nil.prems(1)] obtain elems where
    e: "child_storage cty seg idx = Some (Inr elems)" by blast
  show ?case
    apply (rule exI[of _ seg], rule exI[of _ F], rule exI[of _ elems])
    using Nil.prems(1) e by (simp add: calls_rows_def calls_child_rows_def)
next
  case (Cons c calls)
  obtain v off n where c: "c = (v, off, n)" by (cases c)
  have n: "0 < n" and vok: "vector_ok (LIST cty) v off n" using Cons.prems(3) c by auto
  have rest: "\<forall>c\<in>set calls. case c of (v, off, n) \<Rightarrow> 0 < n \<and> vector_ok (LIST cty) v off n"
    using Cons.prems(3) by simp
  have fit: "length rows + n \<le> svs" using Cons.prems(2) c by (simp add: call_rows_def)
  let ?rows1 = "rows @ vector_rows (LIST cty) v off n"
  let ?adj = "\<lambda>elems. if 0 < GetListSize v then length elems else 0"
  from list_copy_detail[OF svs ok Cons.prems(1) fit n vok mi] obtain seg1 F1 elems where
    call: "call_copy svs (ColumnDataCopyFunction CopyList [cfc]) meta (Orrify v) v off n seg = Some (Inr seg1)"
    and post: "copy_post svs (LIST cty) seg idx F ?rows1 seg1 F1"
    and cs: "child_storage cty seg idx = Some (Inr elems)"
    and cs1: "child_storage cty seg1 idx = Some (Inr (elems @ child_rows cty v))"
    and en: "\<forall>i<n. src_valid (Orrify v) (off + i) \<longrightarrow>
         (\<exists>o' l. data (Orrify v) (sel (Orrify v) (off + i)) = ListEntry o' l \<and>
                 o' + l \<le> GetListSize v \<and>
                 vdata (vector_data seg1 ! idx) ! (length rows + i) = ListEntry (o' + ?adj elems) l)"
    and old: "\<forall>j<length rows. vdata (vector_data seg1 ! idx) ! j = vdata (vector_data seg ! idx) ! j \<and>
                          vvalidity (vector_data seg1 ! idx) ! j = vvalidity (vector_data seg ! idx) ! j"
    by (elim exE conjE) (rule that)
  have st1: "stored svs (LIST cty) seg1 idx F1 ?rows1" using post by (simp add: copy_post_def)
  have fit1: "length ?rows1 + call_rows calls \<le> svs"
    using Cons.prems(2) c by (simp add: call_rows_def)
  from Cons.IH[OF st1 fit1 rest] obtain seg' F' elems1 where
    calls: "copy_calls svs (ColumnDataCopyFunction CopyList [cfc]) meta calls seg1 = Some (Inr seg')"
    and st': "stored svs (LIST cty) seg' idx F' (?rows1 @ calls_rows (LIST cty) calls)"
    and cs1': "child_storage cty seg1 idx = Some (Inr elems1)"
    and cs': "child_storage cty seg' idx = Some (Inr (elems1 @ calls_child_rows cty calls))"
    and old': "\<forall>j<length ?rows1. vdata (vector_data seg' ! idx) ! j = vdata (vector_data seg1 ! idx) ! j \<and>
                           vvalidity (vector_data seg' ! idx) ! j = vvalidity (vector_data seg1 ! idx) ! j"
    and en': "\<forall>r<length calls. case calls ! r of (v, off, n) \<Rightarrow>
          \<forall>i<n. src_valid (Orrify v) (off + i) \<longrightarrow>
            (\<exists>o' l. data (Orrify v) (sel (Orrify v) (off + i)) = ListEntry o' l \<and>
                    o' + l \<le> GetListSize v \<and>
                    vdata (vector_data seg' ! idx) ! (length ?rows1 + call_rows (take r calls) + i) =
                      ListEntry (o' + (if 0 < GetListSize v
                                       then length elems1 + call_values (take r calls) else 0)) l)"
    by (elim exE conjE) (rule that)
  have e1: "elems1 = elems @ child_rows cty v" using cs1 cs1' by simp
  have lc: "length (child_rows cty v) = GetListSize v" using vok by (rule length_child_rows)
  have r1: "copy_calls svs (ColumnDataCopyFunction CopyList [cfc]) meta (c # calls) seg = Some (Inr seg')"
    using call calls by (simp add: c)
  have r2: "stored svs (LIST cty) seg' idx F' (rows @ calls_rows (LIST cty) (c # calls))"
    using st' by (simp add: c calls_rows_def)
  have r4: "child_storage cty seg' idx = Some (Inr (elems @ calls_child_rows cty (c # calls)))"
    using cs' e1 by (simp add: c calls_child_rows_def)
  have r5: "\<forall>j<length rows. vdata (vector_data seg' ! idx) ! j = vdata (vector_data seg ! idx) ! j \<and>
                           vvalidity (vector_data seg' ! idx) ! j = vvalidity (vector_data seg ! idx) ! j"
    using old old' by simp
  have r6: "\<forall>r<length (c # calls). case (c # calls) ! r of (v, off, n) \<Rightarrow>
          \<forall>i<n. src_valid (Orrify v) (off + i) \<longrightarrow>
            (\<exists>o' l. data (Orrify v) (sel (Orrify v) (off + i)) = ListEntry o' l \<and>
                    o' + l \<le> GetListSize v \<and>
                    vdata (vector_data seg' ! idx) ! (length rows + call_rows (take r (c # calls)) + i) =
                      ListEntry (o' + (if 0 < GetListSize v
                                       then length elems + call_values (take r (c # calls)) else 0)) l)"
  proof (intro allI impI)
    fix r assume r: "r < length (c # calls)"
    show "case (c # calls) ! r of (v, off, n) \<Rightarrow>
          \<forall>i<n. src_valid (Orrify v) (off + i) \<longrightarrow>
            (\<exists>o' l. data (Orrify v) (sel (Orrify v) (off + i)) = ListEntry o' l \<and>
                    o' + l \<le> GetListSize v \<and>
                    vdata (vector_data seg' ! idx) ! (length rows + call_rows (take r (c # calls)) + i) =
                      ListEntry (o' + (if 0 < GetListSize v
                                       then length elems + call_values (take r (c # calls)) else 0)) l)"
    proof (cases r)
      case 0
      have "\<forall>i<n. src_valid (Orrify v) (off + i) \<longrightarrow>
            (\<exists>o' l. data (Orrify v) (sel (Orrify v) (off + i)) = ListEntry o' l \<and>
                    o' + l \<le> GetListSize v \<and>
                    vdata (vector_data seg' ! idx) ! (length rows + i) = ListEntry (o' + ?adj elems) l)"
      proof (intro allI impI)
        fix i assume i: "i < n" and sv: "src_valid (Orrify v) (off + i)"
        from en i sv obtain o' l where
          e: "data (Orrify v) (sel (Orrify v) (off + i)) = ListEntry o' l" "o' + l \<le> GetListSize v"
            "vdata (vector_data seg1 ! idx) ! (length rows + i) = ListEntry (o' + ?adj elems) l"
          by blast
        have "vdata (vector_data seg' ! idx) ! (length rows + i) =
              vdata (vector_data seg1 ! idx) ! (length rows + i)"
          using old' i by simp
        then show "\<exists>o' l. data (Orrify v) (sel (Orrify v) (off + i)) = ListEntry o' l \<and>
                    o' + l \<le> GetListSize v \<and>
                    vdata (vector_data seg' ! idx) ! (length rows + i) = ListEntry (o' + ?adj elems) l"
          using e by simp
      qed
      then show ?thesis using 0
        by (cases "0 < GetListSize v") (simp_all add: c call_rows_def call_values_def)
    next
      case (Suc r')
      then have r': "r' < length calls" using r by simp
      obtain v' off' n' where cr: "calls ! r' = (v', off', n')" by (cases "calls ! r'")
      have a: "length ?rows1 + call_rows (take r' calls) = length rows + call_rows (take r (c # calls))"
        by (simp add: Suc c call_rows_def)
      have b: "length elems1 + call_values (take r' calls) = length elems + call_values (take r (c # calls))"
        by (simp add: Suc c e1 lc call_values_def)
      from en' r' have "\<forall>i<n'. src_valid (Orrify v') (off' + i) \<longrightarrow>
            (\<exists>o' l. data (Orrify v') (sel (Orrify v') (off' + i)) = ListEntry o' l \<and>
                    o' + l \<le> GetListSize v' \<and>
                    vdata (vector_data seg' ! idx) ! (length ?rows1 + call_rows (take r' calls) + i) =
                      ListEntry (o' + (if 0 < GetListSize v'
                                       then length elems1 + call_values (take r' calls) else 0)) l)"
        using cr by fastforce
      then show ?thesis unfolding a b using Suc cr by simp
    qed
  qed
  show ?case
    apply (rule exI[of _ seg'], rule exI[of _ F'], rule exI[of _ elems])
    using r1 r2 cs r4 r5 r6 by blast
qed

text \<open>
  Claim C5, as the code has it. A list vector that holds \<open>rows\<close> takes the rows of a
  sequence of calls of the list copy function, each from its own input list vector. The
  calls return. The child storage, which held \<open>elems\<close>, holds \<open>elems\<close> followed by
  the child vectors of the calls, each whole and in the order of the calls, across the
  vectors of the chain. The entries that were stored are as they were. Each valid entry
  \<open>(offset, len)\<close> of a call is stored with its offset moved by one amount, the same
  for all entries of the call: the number of child values that were in the chain before
  the call, \<open>length elems\<close> and the child values of the calls before it, when the
  input of the call has child values, and 0 when it has none. Either way the stored
  entry lies inside the child storage and indexes there the run of values that the input
  entry indexes in its child vector, so that the vector reads back as the old rows
  followed by the rows of the calls.
\<close>

theorem list_offsets:
  fixes seg :: ColumnDataCollectionSegment and meta :: ColumnDataMetaData
  assumes "0 < svs" and "GetCopyFunction (LIST cty) = Inr cf"
    and "stored svs (LIST cty) seg idx F rows" and "length rows + call_rows calls \<le> svs"
    and "\<forall>c\<in>set calls. case c of (v, off, n) \<Rightarrow> 0 < n \<and> vector_ok (LIST cty) v off n"
    and "vector_data_index meta = idx"
  shows "\<exists>seg' elems.
     copy_calls svs cf meta calls seg = Some (Inr seg') \<and>
     child_storage cty seg idx = Some (Inr elems) \<and>
     child_storage cty seg' idx = Some (Inr (elems @ calls_child_rows cty calls)) \<and>
     ReadVector (LIST cty) seg' idx = Some (Inr (rows @ calls_rows (LIST cty) calls)) \<and>
     (\<forall>j<length rows. vdata (vector_data seg' ! idx) ! j = vdata (vector_data seg ! idx) ! j \<and>
                         vvalidity (vector_data seg' ! idx) ! j = vvalidity (vector_data seg ! idx) ! j) \<and>
     (\<forall>r<length calls. case calls ! r of (v, off, n) \<Rightarrow>
        \<forall>i<n. validity_RowIsValid (Orrify v) (sel (Orrify v) (off + i)) \<longrightarrow>
          (\<exists>offset len.
             data (Orrify v) (sel (Orrify v) (off + i)) = ListEntry offset len \<and>
             vdata (vector_data seg' ! idx) ! (length rows + call_rows (take r calls) + i) =
               ListEntry (offset + (if 0 < GetListSize v
                                    then length elems + call_values (take r calls) else 0)) len \<and>
             offset + (if 0 < GetListSize v then length elems + call_values (take r calls) else 0) + len
               \<le> length (elems @ calls_child_rows cty calls) \<and>
             take len (drop (offset + (if 0 < GetListSize v
                                       then length elems + call_values (take r calls) else 0))
                            (elems @ calls_child_rows cty calls)) =
               take len (drop offset (child_rows cty v))))"
proof -
  from assms(2) obtain cfc where f: "GetCopyFunction cty = Inr cfc"
    and cf: "cf = ColumnDataCopyFunction CopyList [cfc]"
    by (auto split: sum.splits)
  have ok: "copy_ok svs cty cfc" using assms(1) f by (rule copy_correct)
  let ?store = "\<lambda>elems. elems @ calls_child_rows cty calls"
  let ?adj = "\<lambda>elems v r. if 0 < GetListSize v then length elems + call_values (take r calls) else 0"
  from list_calls_detail[OF assms(1) ok assms(6) assms(3) assms(4) assms(5)]
  obtain seg' F' elems where
    call0: "copy_calls svs (ColumnDataCopyFunction CopyList [cfc]) meta calls seg = Some (Inr seg')"
    and st': "stored svs (LIST cty) seg' idx F' (rows @ calls_rows (LIST cty) calls)"
    and cs: "child_storage cty seg idx = Some (Inr elems)"
    and cs': "child_storage cty seg' idx = Some (Inr (?store elems))"
    and old: "\<forall>j<length rows. vdata (vector_data seg' ! idx) ! j = vdata (vector_data seg ! idx) ! j \<and>
                          vvalidity (vector_data seg' ! idx) ! j = vvalidity (vector_data seg ! idx) ! j"
    and en: "\<forall>r<length calls. case calls ! r of (v, off, n) \<Rightarrow>
          \<forall>i<n. src_valid (Orrify v) (off + i) \<longrightarrow>
            (\<exists>o' l. data (Orrify v) (sel (Orrify v) (off + i)) = ListEntry o' l \<and>
                    o' + l \<le> GetListSize v \<and>
                    vdata (vector_data seg' ! idx) ! (length rows + call_rows (take r calls) + i) =
                      ListEntry (o' + ?adj elems v r) l)"
    by (elim exE conjE) (rule that)
  have call: "copy_calls svs cf meta calls seg = Some (Inr seg')" using call0 cf by simp
  have rd: "ReadVector (LIST cty) seg' idx = Some (Inr (rows @ calls_rows (LIST cty) calls))"
    using st' by (rule ReadVector_stored)
  have new: "\<forall>r<length calls. case calls ! r of (v, off, n) \<Rightarrow>
        \<forall>i<n. validity_RowIsValid (Orrify v) (sel (Orrify v) (off + i)) \<longrightarrow>
          (\<exists>offset len.
             data (Orrify v) (sel (Orrify v) (off + i)) = ListEntry offset len \<and>
             vdata (vector_data seg' ! idx) ! (length rows + call_rows (take r calls) + i) =
               ListEntry (offset + ?adj elems v r) len \<and>
             offset + ?adj elems v r + len \<le> length (?store elems) \<and>
             take len (drop (offset + ?adj elems v r) (?store elems)) =
               take len (drop offset (child_rows cty v)))"
  proof (intro allI impI)
    fix r assume r: "r < length calls"
    obtain v off n where cr: "calls ! r = (v, off, n)" by (cases "calls ! r")
    have mem: "(v, off, n) \<in> set calls" using r cr by (metis nth_mem)
    then have vok: "vector_ok (LIST cty) v off n" using assms(5) by auto
    have lc: "length (child_rows cty v) = GetListSize v" using vok by (rule length_child_rows)
    have all: "\<forall>c\<in>set (take r calls). case c of (v, off, n) \<Rightarrow> vector_ok (LIST cty) v off n"
      using assms(5) by (auto dest: in_set_takeD)
    have lt: "length (calls_child_rows cty (take r calls)) = call_values (take r calls)"
      using all by (rule length_calls_child_rows)
    have split: "calls = take r calls @ (v, off, n) # drop (Suc r) calls"
      using id_take_nth_drop[OF r] cr by simp
    have "calls_child_rows cty calls =
          calls_child_rows cty (take r calls @ (v, off, n) # drop (Suc r) calls)"
      using split by simp
    then have store: "?store elems = (elems @ calls_child_rows cty (take r calls)) @
                         child_rows cty v @ calls_child_rows cty (drop (Suc r) calls)"
      by (simp add: calls_child_rows_def)
    have pre: "length (elems @ calls_child_rows cty (take r calls)) =
               length elems + call_values (take r calls)" using lt by simp
    have "\<forall>i<n. validity_RowIsValid (Orrify v) (sel (Orrify v) (off + i)) \<longrightarrow>
          (\<exists>offset len.
             data (Orrify v) (sel (Orrify v) (off + i)) = ListEntry offset len \<and>
             vdata (vector_data seg' ! idx) ! (length rows + call_rows (take r calls) + i) =
               ListEntry (offset + ?adj elems v r) len \<and>
             offset + ?adj elems v r + len \<le> length (?store elems) \<and>
             take len (drop (offset + ?adj elems v r) (?store elems)) =
               take len (drop offset (child_rows cty v)))"
    proof (intro allI impI)
      fix i assume i: "i < n" and "validity_RowIsValid (Orrify v) (sel (Orrify v) (off + i))"
      then have "src_valid (Orrify v) (off + i)" by (simp add: src_valid_def)
      with en r cr i obtain o' l where
        e: "data (Orrify v) (sel (Orrify v) (off + i)) = ListEntry o' l" "o' + l \<le> GetListSize v"
          "vdata (vector_data seg' ! idx) ! (length rows + call_rows (take r calls) + i) =
             ListEntry (o' + ?adj elems v r) l"
        by fastforce
      have b: "o' + ?adj elems v r + l \<le> length (?store elems)"
        unfolding store using e(2) lc pre by simp
      have t: "take l (drop (o' + ?adj elems v r) (?store elems)) =
               take l (drop o' (child_rows cty v))"
      proof (cases "0 < GetListSize v")
        case True
        have "drop (o' + (length elems + call_values (take r calls))) (?store elems) =
              drop o' (child_rows cty v @ calls_child_rows cty (drop (Suc r) calls))"
          unfolding store using pre by (simp add: add.commute)
        then show ?thesis using True e(2) lc by simp
      next
        case False
        then have "o' = 0" "l = 0" using e(2) by simp_all
        then show ?thesis by simp
      qed
      show "\<exists>offset len.
             data (Orrify v) (sel (Orrify v) (off + i)) = ListEntry offset len \<and>
             vdata (vector_data seg' ! idx) ! (length rows + call_rows (take r calls) + i) =
               ListEntry (offset + ?adj elems v r) len \<and>
             offset + ?adj elems v r + len \<le> length (?store elems) \<and>
             take len (drop (offset + ?adj elems v r) (?store elems)) =
               take len (drop offset (child_rows cty v))"
        using e(1,3) b t by blast
    qed
    then show "case calls ! r of (v, off, n) \<Rightarrow>
        \<forall>i<n. validity_RowIsValid (Orrify v) (sel (Orrify v) (off + i)) \<longrightarrow>
          (\<exists>offset len.
             data (Orrify v) (sel (Orrify v) (off + i)) = ListEntry offset len \<and>
             vdata (vector_data seg' ! idx) ! (length rows + call_rows (take r calls) + i) =
               ListEntry (offset + ?adj elems v r) len \<and>
             offset + ?adj elems v r + len \<le> length (?store elems) \<and>
             take len (drop (offset + ?adj elems v r) (?store elems)) =
               take len (drop offset (child_rows cty v)))"
      unfolding cr by simp
  qed
  show ?thesis
    apply (rule exI[of _ seg'], rule exI[of _ elems])
    using call cs cs' rd old new by blast
qed

text \<open>
  The claim as it is written fails in three ways, with a capacity of 2. The entries of
  a call overlap where those of the input do: a constant list vector of two rows stores
  the entry \<open>(0, 2)\<close> twice. They leave a gap where a call copies some of the rows of
  a vector, because it copies the whole child vector: a batch of three lists of one
  value is split across two chunks, the list vector of the first chunk has the entries
  \<open>(0, 1)\<close> and \<open>(1, 1)\<close> and that of the second the entry \<open>(2, 1)\<close>, each
  against a child storage of all three values. And the offset is not moved for an input
  without child values: append the list \<open>[1, 2, 3]\<close>, which fills a child vector and
  overflows into a second one, and then an empty list; three child values are in the
  chain, and the entry of the empty list is stored as \<open>(0, 0)\<close>, not as \<open>(3, 0)\<close>.
  The loop that walks the chain and sums the counts runs only while child values remain
  to be placed.
\<close>

theorem list_entries_counterexample:
  "Append_chunk False 2 (list_collection 0 []) (constant_list_batch [1, 2] 2) =
     Some (Inr (list_collection 2
       [Some (list_segment 2 [ListEntry 0 2, ListEntry 0 2] [int_slot [1, 2] None])])) \<and>
   stored_entries (list_segment 2 [ListEntry 0 2, ListEntry 0 2] [int_slot [1, 2] None]) 0 =
     [ListEntry 0 2, ListEntry 0 2] \<and>
   \<not> no_overlap [ListEntry 0 2, ListEntry 0 2] \<and>
   Append_chunk False 2 (list_collection 0 [])
       (list_batch [ListEntry 0 1, ListEntry 1 1, ListEntry 2 1] [1, 2, 3]) =
     Some (Inr (list_collection 3 [Some split_list_segment])) \<and>
   stored_entries split_list_segment 0 = [ListEntry 0 1, ListEntry 1 1] \<and>
   child_storage (Scalar INT32) split_list_segment 0 =
     Some (Inr [CellValue (Fixed 1), CellValue (Fixed 2), CellValue (Fixed 3)]) \<and>
   \<not> no_gap [ListEntry 0 1, ListEntry 1 1] 3 \<and>
   stored_entries split_list_segment 3 = [ListEntry 2 1] \<and>
   child_storage (Scalar INT32) split_list_segment 3 =
     Some (Inr [CellValue (Fixed 1), CellValue (Fixed 2), CellValue (Fixed 3)]) \<and>
   \<not> no_gap [ListEntry 2 1] 3 \<and>
   Append_chunk False 2 (list_collection 0 []) (list_batch [ListEntry 0 3] [1, 2, 3]) =
     Some (Inr (list_collection 1 [Some (list_segment 1 [ListEntry 0 3, Uninit] three_ints)])) \<and>
   child_storage (Scalar INT32) (list_segment 1 [ListEntry 0 3, Uninit] three_ints) 0 =
     Some (Inr [CellValue (Fixed 1), CellValue (Fixed 2), CellValue (Fixed 3)]) \<and>
   Append_chunk False 2 (list_collection 1 [Some (list_segment 1 [ListEntry 0 3, Uninit] three_ints)])
       (list_batch [ListEntry 0 0] []) =
     Some (Inr (list_collection 2 [Some (list_segment 2 [ListEntry 0 3, ListEntry 0 0] three_ints)])) \<and>
   ListEntry 0 0 \<noteq> ListEntry (0 + 3) 0"
  by code_simp

text \<open>
  Two calls on a fresh list vector: the three child values of the first fill a child
  vector and overflow into a second one, and the entry of the second call is moved by 3.
\<close>

theorem list_offsets_witness:
  "(0::nat) < 2 \<and>
   GetCopyFunction (LIST (Scalar INT32)) =
     Inr (ColumnDataCopyFunction CopyList [ColumnDataCopyFunction CopyStandard []]) \<and>
   stored 2 (LIST (Scalar INT32)) (AllocateNewChunk 2 (new_segment [LIST (Scalar INT32)])) 0 {0} [] \<and>
   length ([] :: Value list) +
     call_rows [(list_column [ListEntry 0 3] [1, 2, 3], 0, 1), (list_column [ListEntry 0 2] [4, 5], 0, 1)] \<le> 2 \<and>
   vector_ok (LIST (Scalar INT32)) (list_column [ListEntry 0 3] [1, 2, 3]) 0 1 \<and>
   vector_ok (LIST (Scalar INT32)) (list_column [ListEntry 0 2] [4, 5]) 0 1 \<and>
   (\<exists>seg'.
     copy_calls 2 (ColumnDataCopyFunction CopyList [ColumnDataCopyFunction CopyStandard []])
       (child_meta_data 0)
       [(list_column [ListEntry 0 3] [1, 2, 3], 0, 1), (list_column [ListEntry 0 2] [4, 5], 0, 1)]
       (AllocateNewChunk 2 (new_segment [LIST (Scalar INT32)])) = Some (Inr seg') \<and>
     child_storage (Scalar INT32) seg' 0 =
       Some (Inr [CellValue (Fixed 1), CellValue (Fixed 2), CellValue (Fixed 3),
                  CellValue (Fixed 4), CellValue (Fixed 5)]) \<and>
     vdata (vector_data seg' ! 0) ! 0 = ListEntry 0 3 \<and>
     vdata (vector_data seg' ! 0) ! 1 = ListEntry (0 + 3) 2 \<and>
     ReadVector (LIST (Scalar INT32)) seg' 0 =
       Some (Inr [ListValue [CellValue (Fixed 1), CellValue (Fixed 2), CellValue (Fixed 3)],
                  ListValue [CellValue (Fixed 4), CellValue (Fixed 5)]]))"
proof -
  let ?v1 = "list_column [ListEntry 0 3] [1, 2, 3]"
  let ?v2 = "list_column [ListEntry 0 2] [4, 5]"
  let ?calls = "[(?v1, 0::nat, 1::nat), (?v2, 0, 1)]"
  let ?seg = "AllocateNewChunk 2 (new_segment [LIST (Scalar INT32)])"
  let ?cf = "ColumnDataCopyFunction CopyList [ColumnDataCopyFunction CopyStandard []]"
  have h1: "(0::nat) < 2" by simp
  have h2: "GetCopyFunction (LIST (Scalar INT32)) = Inr ?cf" by simp
  have pool: "vector_data ?seg = [fresh_vector 2]" by code_simp
  have h3: "stored 2 (LIST (Scalar INT32)) ?seg 0 {0} []"
    by (rule fresh_stored) (simp_all add: pool)
  have h4: "length ([] :: Value list) + call_rows ?calls \<le> 2" by (simp add: call_rows_def)
  have v1: "vector_ok (LIST (Scalar INT32)) ?v1 0 1" and v2: "vector_ok (LIST (Scalar INT32)) ?v2 0 1"
    by code_simp+
  have h5: "\<forall>c\<in>set ?calls. case c of (v, off, n) \<Rightarrow> 0 < n \<and> vector_ok (LIST (Scalar INT32)) v off n"
    using v1 v2 by simp
  have h6: "vector_data_index (child_meta_data 0) = 0" by (simp add: child_meta_data_def)
  have cs: "child_storage (Scalar INT32) ?seg 0 = Some (Inr [])" by code_simp
  have cr: "calls_child_rows (Scalar INT32) ?calls =
     [CellValue (Fixed 1), CellValue (Fixed 2), CellValue (Fixed 3), CellValue (Fixed 4), CellValue (Fixed 5)]"
    by code_simp
  have vr: "calls_rows (LIST (Scalar INT32)) ?calls =
     [ListValue [CellValue (Fixed 1), CellValue (Fixed 2), CellValue (Fixed 3)],
      ListValue [CellValue (Fixed 4), CellValue (Fixed 5)]]"
    by code_simp
  have va: "validity_RowIsValid (Orrify ?v1) (sel (Orrify ?v1) (0 + 0))"
    "data (Orrify ?v1) (sel (Orrify ?v1) (0 + 0)) = ListEntry 0 3" "GetListSize ?v1 = 3"
    "validity_RowIsValid (Orrify ?v2) (sel (Orrify ?v2) (0 + 0))"
    "data (Orrify ?v2) (sel (Orrify ?v2) (0 + 0)) = ListEntry 0 2" "GetListSize ?v2 = 2"
    by (simp_all add: list_column_def validity_RowIsValid_def)
  from list_offsets[OF h1 h2 h3 h4 h5 h6] obtain seg' elems where
    a: "copy_calls 2 ?cf (child_meta_data 0) ?calls ?seg = Some (Inr seg')"
    and b: "child_storage (Scalar INT32) ?seg 0 = Some (Inr elems)"
    and b': "child_storage (Scalar INT32) seg' 0 = Some (Inr (elems @ calls_child_rows (Scalar INT32) ?calls))"
    and c: "ReadVector (LIST (Scalar INT32)) seg' 0 = Some (Inr ([] @ calls_rows (LIST (Scalar INT32)) ?calls))"
    and d: "\<forall>r<length ?calls. case ?calls ! r of (v, off, n) \<Rightarrow>
        \<forall>i<n. validity_RowIsValid (Orrify v) (sel (Orrify v) (off + i)) \<longrightarrow>
          (\<exists>offset len.
             data (Orrify v) (sel (Orrify v) (off + i)) = ListEntry offset len \<and>
             vdata (vector_data seg' ! 0) ! (length ([] :: Value list) + call_rows (take r ?calls) + i) =
               ListEntry (offset + (if 0 < GetListSize v
                                    then length elems + call_values (take r ?calls) else 0)) len \<and>
             offset + (if 0 < GetListSize v then length elems + call_values (take r ?calls) else 0) + len
               \<le> length (elems @ calls_child_rows (Scalar INT32) ?calls) \<and>
             take len (drop (offset + (if 0 < GetListSize v
                                       then length elems + call_values (take r ?calls) else 0))
                            (elems @ calls_child_rows (Scalar INT32) ?calls)) =
               take len (drop offset (child_rows (Scalar INT32) v)))"
    by (elim exE conjE) (rule that)
  have e: "elems = []" using b cs by simp
  have l0: "(0::nat) < length ?calls" and l1: "(1::nat) < length ?calls" by simp_all
  note d0 = d[rule_format, OF l0] and d1 = d[rule_format, OF l1]
  have e0: "vdata (vector_data seg' ! 0) ! 0 = ListEntry 0 3"
    using d0 va(1,2,3) unfolding e by (auto simp: call_rows_def call_values_def)
  have e1: "vdata (vector_data seg' ! 0) ! 1 = ListEntry (0 + 3) 2"
    using d1 va unfolding e by (auto simp: call_rows_def call_values_def)
  have b2: "child_storage (Scalar INT32) seg' 0 =
       Some (Inr [CellValue (Fixed 1), CellValue (Fixed 2), CellValue (Fixed 3),
                  CellValue (Fixed 4), CellValue (Fixed 5)])"
    using b' unfolding e cr by simp
  have c2: "ReadVector (LIST (Scalar INT32)) seg' 0 =
       Some (Inr [ListValue [CellValue (Fixed 1), CellValue (Fixed 2), CellValue (Fixed 3)],
                  ListValue [CellValue (Fixed 4), CellValue (Fixed 5)]])"
    using c unfolding vr by simp
  have "\<exists>seg'.
     copy_calls 2 ?cf (child_meta_data 0) ?calls ?seg = Some (Inr seg') \<and>
     child_storage (Scalar INT32) seg' 0 =
       Some (Inr [CellValue (Fixed 1), CellValue (Fixed 2), CellValue (Fixed 3),
                  CellValue (Fixed 4), CellValue (Fixed 5)]) \<and>
     vdata (vector_data seg' ! 0) ! 0 = ListEntry 0 3 \<and>
     vdata (vector_data seg' ! 0) ! 1 = ListEntry (0 + 3) 2 \<and>
     ReadVector (LIST (Scalar INT32)) seg' 0 =
       Some (Inr [ListValue [CellValue (Fixed 1), CellValue (Fixed 2), CellValue (Fixed 3)],
                  ListValue [CellValue (Fixed 4), CellValue (Fixed 5)]])"
    by (rule exI[of _ seg']) (intro conjI a b2 e0 e1 c2)
  then show ?thesis by (intro conjI h1 h2 h3 h4 v1 v2)
qed

end
